(* ===== verification/Prelude.thy ===== *)
theory Prelude
  imports Main "HOL-Library.Word" "HOL-Library.Multiset" "HOL-Library.Sublist"
begin

unbundle bit_operations_syntax

text \<open>
  Shared by every component: the machine integers of the program (\<open>usize\<close>, \<open>u32\<close>
  and \<open>isize\<close> on a 64-bit target), the few facts about them the proofs need, and the generic
  lemmas on lists. \<open>isize\<close> is a type of its own because Rust compares it as a signed number,
  while the order of the word type is unsigned.
\<close>

named_theorems word_nat "facts that move a usize computation to nat"

section \<open>Unsigned machine integers\<close>

type_synonym usize = "64 word"
type_synonym u32 = "32 word"

lemma unat_drop_bit_1 [word_nat]: "unat (drop_bit 1 (w :: usize)) = unat w div 2"
  by (simp add: drop_bit_eq_div unat_div_distrib)

lemma and_1_zero_iff: "((w :: usize) AND 1 = 0) \<longleftrightarrow> even (unat w)"
  by (simp add: and_one_eq word_unat_eq_iff unat_mod_distrib even_iff_mod_2_eq_zero)

lemma and_1_one_iff: "((w :: usize) AND 1 = 1) \<longleftrightarrow> odd (unat w)"
  by (simp add: and_one_eq word_unat_eq_iff unat_mod_distrib odd_iff_mod_2_eq_one)

lemma and_1_not_zero_iff: "((w :: usize) AND 1 \<noteq> 0) \<longleftrightarrow> odd (unat w)"
  by (simp add: and_1_zero_iff)

lemma unat_push_bit_1 [word_nat]:
  "unat (n :: usize) < 2 ^ 63 \<Longrightarrow> unat (push_bit 1 n) = 2 * unat n"
  by (simp add: push_bit_eq_mult unat_word_ariths)

lemma unat_sub_le [word_nat]: "(b :: usize) \<le> a \<Longrightarrow> unat (a - b) = unat a - unat b"
  by (rule unat_sub)

lemma unat_add_lt [word_nat]:
  "unat (a :: usize) + unat b < 2 ^ 64 \<Longrightarrow> unat (a + b) = unat a + unat b"
  by (simp add: unat_word_ariths)

lemma unat_ucast_u32 [word_nat]: "unat (ucast (n :: u32) :: usize) = unat n"
  proof -
  have "unat n < 2 ^ 64" using unsigned_less [of n, where ?'a = nat] by simp
  then show ?thesis by (simp add: unsigned_ucast_eq take_bit_nat_eq_self)
qed

section \<open>Signed machine integers\<close>

datatype isize = ISize (isize_word: "64 word")

instantiation isize :: linorder
begin

definition less_eq_isize :: "isize \<Rightarrow> isize \<Rightarrow> bool" where
  "less_eq_isize a b \<longleftrightarrow> sint (isize_word a) \<le> sint (isize_word b)"

definition less_isize :: "isize \<Rightarrow> isize \<Rightarrow> bool" where
  "less_isize a b \<longleftrightarrow> sint (isize_word a) < sint (isize_word b)"

instance
  by standard
    (auto simp: less_eq_isize_def less_isize_def intro!: isize.expand signed_word_eqI [where ?'a = int])

end

definition isize_val :: "isize \<Rightarrow> int" where
  "isize_val a = sint (isize_word a)"

definition isize_MAX :: isize where
  "isize_MAX = ISize (2 ^ 63 - 1)"

definition isize_MIN :: isize where
  "isize_MIN = ISize (2 ^ 63)"

text \<open>\<open>isize::saturating_add\<close> and \<open>isize::saturating_sub\<close>: the exact result, clamped.\<close>

definition isize_clamp :: "int \<Rightarrow> isize" where
  "isize_clamp i = (if i > 2 ^ 63 - 1 then isize_MAX else if i < - (2 ^ 63) then isize_MIN
     else ISize (word_of_int i))"

definition saturating_add :: "isize \<Rightarrow> isize \<Rightarrow> isize" where
  "saturating_add a b = isize_clamp (isize_val a + isize_val b)"

definition saturating_sub :: "isize \<Rightarrow> isize \<Rightarrow> isize" where
  "saturating_sub a b = isize_clamp (isize_val a - isize_val b)"

lemma isize_le_iff: "a \<le> b \<longleftrightarrow> isize_val a \<le> isize_val b"
  by (simp add: less_eq_isize_def isize_val_def)

lemma isize_less_iff: "a < b \<longleftrightarrow> isize_val a < isize_val b"
  by (simp add: less_isize_def isize_val_def)

lemma isize_val_bounds: "- (2 ^ 63) \<le> isize_val a" "isize_val a \<le> 2 ^ 63 - 1"
  using sint_range_size [of "isize_word a"] by (simp_all add: isize_val_def word_size)

lemma isize_val_MAX [simp]: "isize_val isize_MAX = 2 ^ 63 - 1"
  by (simp add: isize_val_def isize_MAX_def)

lemma isize_val_MIN [simp]: "isize_val isize_MIN = - (2 ^ 63)"
  by (simp add: isize_val_def isize_MIN_def)

lemma isize_le_MAX [simp]: "a \<le> isize_MAX" and isize_MIN_le [simp]: "isize_MIN \<le> a"
  using isize_val_bounds [of a] by (simp_all add: isize_le_iff)

lemma isize_val_clamp: "isize_val (isize_clamp i) = max (- (2 ^ 63)) (min i (2 ^ 63 - 1))"
proof -
  have "sint (word_of_int i :: 64 word) = i" if "- (2 ^ 63) \<le> i" "i \<le> 2 ^ 63 - 1"
    using that by (simp add: signed_of_int signed_take_bit_int_eq_self)
  then show ?thesis
    by (auto simp: isize_clamp_def isize_val_def isize_MAX_def isize_MIN_def)
qed

section \<open>Atomic read-modify-write\<close>

text \<open>
  \<open>compare_exchange\<close> of one atomic cell: the new content and whether it succeeded. The strong
  version fails only when the content differs from the expected value.
\<close>

definition compare_exchange :: "usize \<Rightarrow> usize \<Rightarrow> usize \<Rightarrow> usize \<times> bool" where
  "compare_exchange cell expected new = (if cell = expected then (new, True) else (cell, False))"

section \<open>Panics\<close>

datatype 'a outcome = Done 'a | Panic string

section \<open>Lists and options\<close>

text \<open>Threading a state through a list of fallible steps, stopping at the first failure.\<close>

fun fold_option :: "('a \<Rightarrow> 's \<Rightarrow> 's option) \<Rightarrow> 'a list \<Rightarrow> 's \<Rightarrow> 's option" where
  "fold_option f [] s = Some s"
| "fold_option f (x # xs) s = (case f x s of None \<Rightarrow> None | Some s' \<Rightarrow> fold_option f xs s')"

lemma filter_all_False [simp]: "(\<And>x. x \<in> set xs \<Longrightarrow> \<not> P x) \<Longrightarrow> filter P xs = []"
  by (induction xs) auto

lemma sorted_wrt_appendI:
  "sorted_wrt P xs \<Longrightarrow> sorted_wrt P ys \<Longrightarrow> (\<And>x y. x \<in> set xs \<Longrightarrow> y \<in> set ys \<Longrightarrow> P x y) \<Longrightarrow>
   sorted_wrt P (xs @ ys)"
  by (simp add: sorted_wrt_append)

lemma distinct_mset_mono:
  assumes "distinct ys" "mset xs \<subseteq># mset ys"
  shows "distinct xs"
proof -
  have "count (mset ys) a \<le> 1" for a
    using assms(1) by (metis distinct_count_atmost_1 le_refl zero_le)
  then have "count (mset xs) a \<le> 1" for a
    using mset_subset_eq_count [OF assms(2), of a] le_trans by blast
  moreover have "a \<in> set xs \<longleftrightarrow> count (mset xs) a \<noteq> 0" for a
    by simp
  ultimately show ?thesis
    by (metis (full_types) One_nat_def distinct_count_atmost_1 le_antisym less_one not_le)
qed

lemma distinct_mset_eq: "mset xs = mset ys \<Longrightarrow> distinct xs \<longleftrightarrow> distinct ys"
  by (metis distinct_mset_mono subset_mset.order_refl)

lemma subseq_set: "subseq xs ys \<Longrightarrow> set xs \<subseteq> set ys"
  by (induction rule: list_emb.induct) auto

lemma subseq_mset: "subseq xs ys \<Longrightarrow> mset xs \<subseteq># mset ys"
proof (induction rule: list_emb.induct)
  case (list_emb_Cons xs ys y)
  then show ?case
    by (metis add_mset_add_single mset.simps(2) mset_subset_eq_add_left subset_mset.order_trans)
qed auto

lemma sorted_wrt_all:
  "(\<And>x y. x \<in> set xs \<Longrightarrow> y \<in> set xs \<Longrightarrow> P x y) \<Longrightarrow> sorted_wrt P xs"
  by (induction xs) auto

end
