(* ===== verification/Atomics.thy ===== *)
theory Atomics
  imports Prelude
begin

text \<open>
  The compare-and-swap retry loops on the permit word. What other threads do to the word between
  a load and the following \<open>compare_exchange_weak\<close> is given as a list of events, one for
  each attempt: nothing, a spurious failure of the weak exchange, or a write. After the list is
  exhausted nobody interferes, which is the only assumption under which a retry loop ends at all.
\<close>

section \<open>The retry loop\<close>

datatype interference = Quiet | Spurious | Overwrite usize

definition compare_exchange_weak ::
  "interference \<Rightarrow> usize \<Rightarrow> usize \<Rightarrow> usize \<Rightarrow> usize \<times> usize option" where
  "compare_exchange_weak e cell cur new =
     (let actual = (case e of Overwrite v \<Rightarrow> v | _ \<Rightarrow> cell)
      in if actual = cur \<and> e \<noteq> Spurious then (new, None) else (actual, Some actual))"

text \<open>
  One operation is what it decides for the word it has seen: return at once (\<open>Inl\<close>), or
  exchange it for a new word and then return (\<open>Inr\<close>). \<open>cas_loop d env cell cur\<close> runs it
  on the shared \<open>cell\<close> with the last word seen in \<open>cur\<close>; on failure the exchange yields
  the actual word and the loop tries again.
\<close>

type_synonym 'r decision = "usize \<Rightarrow> 'r + (usize \<times> 'r)"

function cas_loop :: "'r decision \<Rightarrow> interference list \<Rightarrow> usize \<Rightarrow> usize \<Rightarrow> 'r \<times> usize" where
  "cas_loop d env cell cur =
     (case d cur of
        Inl r \<Rightarrow> (r, cell)
      | Inr (new, r) \<Rightarrow>
          (case compare_exchange_weak (case env of [] \<Rightarrow> Quiet | e # _ \<Rightarrow> e) cell cur new of
             (cell', None) \<Rightarrow> (r, cell')
           | (cell', Some actual) \<Rightarrow> cas_loop d (tl env) cell' actual))"
  by pat_completeness auto
termination
  by (relation "measure (\<lambda>(d, env, cell, cur). length env + (if cell = cur then 0 else 1))")
    (auto simp: compare_exchange_weak_def Let_def split: list.splits if_splits)

declare cas_loop.simps [simp del]

section \<open>Linearizability\<close>

text \<open>The operation without interference: one indivisible step on the word.\<close>

definition atomically :: "'r decision \<Rightarrow> usize \<Rightarrow> 'r \<times> usize" where
  "atomically d v = (case d v of Inl r \<Rightarrow> (r, v) | Inr (new, r) \<Rightarrow> (r, new))"

definition overwrites :: "interference list \<Rightarrow> usize set" where
  "overwrites env = {v. Overwrite v \<in> set env}"

lemma overwrites_simps [simp]:
  "overwrites [] = {}" "overwrites (Quiet # env) = overwrites env"
  "overwrites (Spurious # env) = overwrites env"
  "overwrites (Overwrite v # env) = insert v (overwrites env)"
  by (auto simp: overwrites_def)

lemma cas_loop_quiet: "cas_loop d [] v v = atomically d v"
  by (subst cas_loop.simps)
    (simp add: atomically_def compare_exchange_weak_def split: sum.split prod.split)

lemma cas_loop_linearizable:
  "\<exists>u \<in> insert v (overwrites env). cas_loop d env v v = atomically d u"
proof (induction env arbitrary: v)
  case Nil
  then show ?case by (simp add: cas_loop_quiet)
next
  case (Cons e env)
  show ?case
  proof (cases "d v")
    case (Inl r)
    then have "cas_loop d (e # env) v v = atomically d v"
      by (subst cas_loop.simps) (simp add: atomically_def)
    then show ?thesis by blast
  next
    case (Inr nr)
    obtain new r where nr: "nr = (new, r)" by (cases nr)
    show ?thesis
    proof (cases "compare_exchange_weak e v v new")
      case (Pair v' res)
      show ?thesis
      proof (cases res)
        case None
        then have "cas_loop d (e # env) v v = atomically d v"
          using Inr nr Pair
          by (subst cas_loop.simps) (auto simp: atomically_def compare_exchange_weak_def Let_def split: if_splits)
        then show ?thesis by blast
      next
        case (Some actual)
        then have v': "actual = v'" "v' = v \<or> e = Overwrite v'"
          using Pair by (auto simp: compare_exchange_weak_def Let_def split: if_splits interference.splits)
        then have "cas_loop d (e # env) v v = cas_loop d env v' v'"
          using Inr nr Pair Some by (subst cas_loop.simps) simp
        moreover have "insert v' (overwrites env) \<subseteq> insert v (overwrites (e # env))"
          using v'(2) by (cases e) auto
        ultimately show ?thesis using Cons.IH [of v'] by auto
      qed
    qed
  qed
qed

section \<open>The contract of an operation on the word\<close>

text \<open>
  An operation that, done in one step, takes every good word to a good word and meets its
  postcondition does so under every interference that writes good words.
\<close>

locale word_operation =
  fixes d :: "'r decision"
    and good :: "usize \<Rightarrow> bool"
    and post :: "usize \<Rightarrow> 'r \<Rightarrow> usize \<Rightarrow> bool"
  assumes step_good: "good v \<Longrightarrow> atomically d v = (r, v') \<Longrightarrow> good v'"
    and step_post: "good v \<Longrightarrow> atomically d v = (r, v') \<Longrightarrow> post v r v'"
begin

lemma loop_correct:
  assumes "good v" "\<And>u. u \<in> overwrites env \<Longrightarrow> good u" "cas_loop d env v v = (r, v')"
  shows "good v' \<and> (\<exists>u \<in> insert v (overwrites env). post u r v')"
proof -
  obtain u where u: "u \<in> insert v (overwrites env)" "atomically d u = (r, v')"
    using cas_loop_linearizable [of v env d] assms(3) by metis
  then have "good u" using assms by auto
  with u step_good step_post show ?thesis by blast
qed

lemma quiet_correct:
  assumes "good v" "cas_loop d [] v v = (r, v')"
  shows "good v' \<and> post v r v'"
  using loop_correct [of v "[]"] assms by simp

end

end
