(* ===== verification/Config.thy ===== *)
theory Config
  imports Prelude
begin

text \<open>
  \<open>config.rs\<close>: which queue strategy (FIFO or LIFO) a priority uses. A configuration is the
  vector of rules in the order they were added; \<open>resolve_strategy\<close> runs two passes over it.
\<close>

section \<open>Data\<close>

datatype QueueStrategy = Fifo | Lifo

datatype PriorityRule =
    Default QueueStrategy
  | Exact isize QueueStrategy
  | Range isize isize QueueStrategy

record PriorityConfig =
  rules :: "PriorityRule list"

section \<open>Builder methods\<close>

definition config_new :: PriorityConfig where
  "config_new = \<lparr>rules = []\<rparr>"

definition default_strategy :: "PriorityConfig \<Rightarrow> QueueStrategy \<Rightarrow> PriorityConfig" where
  "default_strategy c s = c\<lparr>rules := rules c @ [Default s]\<rparr>"

definition exact :: "PriorityConfig \<Rightarrow> isize \<Rightarrow> QueueStrategy \<Rightarrow> PriorityConfig" where
  "exact c p s = c\<lparr>rules := rules c @ [Exact p s]\<rparr>"

definition greater_or_equal :: "PriorityConfig \<Rightarrow> isize \<Rightarrow> QueueStrategy \<Rightarrow> PriorityConfig" where
  "greater_or_equal c threshold s = c\<lparr>rules := rules c @ [Range threshold isize_MAX s]\<rparr>"

definition greater_than :: "PriorityConfig \<Rightarrow> isize \<Rightarrow> QueueStrategy \<Rightarrow> PriorityConfig" where
  "greater_than c threshold s =
     (let lo = saturating_add threshold (ISize 1)
      in c\<lparr>rules := rules c @ [Range lo isize_MAX s]\<rparr>)"

definition less_or_equal :: "PriorityConfig \<Rightarrow> isize \<Rightarrow> QueueStrategy \<Rightarrow> PriorityConfig" where
  "less_or_equal c threshold s = c\<lparr>rules := rules c @ [Range isize_MIN threshold s]\<rparr>"

definition less_than :: "PriorityConfig \<Rightarrow> isize \<Rightarrow> QueueStrategy \<Rightarrow> PriorityConfig" where
  "less_than c threshold s =
     (let hi = saturating_sub threshold (ISize 1)
      in c\<lparr>rules := rules c @ [Range isize_MIN hi s]\<rparr>)"

definition range_rule :: "PriorityConfig \<Rightarrow> isize \<Rightarrow> isize \<Rightarrow> QueueStrategy \<Rightarrow> PriorityConfig" where
  "range_rule c lo hi s = c\<lparr>rules := rules c @ [Range lo hi s]\<rparr>"

definition config_default :: PriorityConfig where
  "config_default = default_strategy config_new Fifo"

section \<open>Resolution\<close>

text \<open>
  The first pass returns early (\<open>Inl\<close>) at the first exact rule for the priority and otherwise
  ends with the default strategy seen last (\<open>Inr\<close>). The second pass looks for a range.
\<close>

fun exact_pass :: "PriorityRule list \<Rightarrow> isize \<Rightarrow> QueueStrategy \<Rightarrow> QueueStrategy + QueueStrategy" where
  "exact_pass [] p d = Inr d"
| "exact_pass (Exact q s # rs) p d = (if q = p then Inl s else exact_pass rs p d)"
| "exact_pass (Default s # rs) p d = exact_pass rs p s"
| "exact_pass (Range lo hi s # rs) p d = exact_pass rs p d"

fun range_pass :: "PriorityRule list \<Rightarrow> isize \<Rightarrow> QueueStrategy option" where
  "range_pass [] p = None"
| "range_pass (Range lo hi s # rs) p = (if p \<ge> lo \<and> p \<le> hi then Some s else range_pass rs p)"
| "range_pass (Exact q s # rs) p = range_pass rs p"
| "range_pass (Default s # rs) p = range_pass rs p"

definition resolve_strategy :: "PriorityConfig \<Rightarrow> isize \<Rightarrow> QueueStrategy" where
  "resolve_strategy c p =
     (case exact_pass (rules c) p Fifo of
        Inl s \<Rightarrow> s
      | Inr d \<Rightarrow> (case range_pass (rules c) p of Some s \<Rightarrow> s | None \<Rightarrow> d))"

definition strategy_for_priority :: "PriorityConfig \<Rightarrow> isize \<Rightarrow> QueueStrategy" where
  "strategy_for_priority c p = resolve_strategy c p"

section \<open>What resolution promises\<close>

text \<open>
  The documented precedence as a specification: the strategies of the matching exact rules, of
  the covering ranges and of the defaults are three lists; the first exact one wins, then the first
  range, then the last default, and an empty configuration is FIFO.
\<close>

definition exact_strategies :: "PriorityRule list \<Rightarrow> isize \<Rightarrow> QueueStrategy list" where
  "exact_strategies rs p = concat (map (\<lambda>r. case r of Exact q s \<Rightarrow> if q = p then [s] else [] | _ \<Rightarrow> []) rs)"

definition range_strategies :: "PriorityRule list \<Rightarrow> isize \<Rightarrow> QueueStrategy list" where
  "range_strategies rs p =
     concat (map (\<lambda>r. case r of Range lo hi s \<Rightarrow> if lo \<le> p \<and> p \<le> hi then [s] else [] | _ \<Rightarrow> []) rs)"

definition default_strategies :: "PriorityRule list \<Rightarrow> QueueStrategy list" where
  "default_strategies rs = concat (map (\<lambda>r. case r of Default s \<Rightarrow> [s] | _ \<Rightarrow> []) rs)"

definition strategy_spec :: "PriorityRule list \<Rightarrow> isize \<Rightarrow> QueueStrategy" where
  "strategy_spec rs p =
     (case exact_strategies rs p @ range_strategies rs p of
        s # _ \<Rightarrow> s
      | [] \<Rightarrow> last (Fifo # default_strategies rs))"

lemma strategies_Nil [simp]:
  "exact_strategies [] p = []" "range_strategies [] p = []" "default_strategies [] = []"
  by (simp_all add: exact_strategies_def range_strategies_def default_strategies_def)

lemma strategies_Cons [simp]:
  "exact_strategies (Exact q s # rs) p = (if q = p then s # exact_strategies rs p else exact_strategies rs p)"
  "exact_strategies (Range lo hi s # rs) p = exact_strategies rs p"
  "exact_strategies (Default s # rs) p = exact_strategies rs p"
  "range_strategies (Range lo hi s # rs) p =
     (if lo \<le> p \<and> p \<le> hi then s # range_strategies rs p else range_strategies rs p)"
  "range_strategies (Exact q s # rs) p = range_strategies rs p"
  "range_strategies (Default s # rs) p = range_strategies rs p"
  "default_strategies (Default s # rs) = s # default_strategies rs"
  "default_strategies (Exact q s # rs) = default_strategies rs"
  "default_strategies (Range lo hi s # rs) = default_strategies rs"
  by (simp_all add: exact_strategies_def range_strategies_def default_strategies_def)

lemma exact_pass_eq:
  "exact_pass rs p d =
     (case exact_strategies rs p of s # _ \<Rightarrow> Inl s | [] \<Rightarrow> Inr (last (d # default_strategies rs)))"
  by (induction rs p d rule: exact_pass.induct) (auto split: list.splits)

lemma range_pass_eq:
  "range_pass rs p = (case range_strategies rs p of s # _ \<Rightarrow> Some s | [] \<Rightarrow> None)"
  by (induction rs p rule: range_pass.induct) (auto split: list.splits)

lemma resolve_strategy_eq: "resolve_strategy c p = strategy_spec (rules c) p"
  by (simp add: resolve_strategy_def strategy_spec_def exact_pass_eq range_pass_eq split: list.splits)

lemma strategies_append [simp]:
  "exact_strategies (rs @ rs') p = exact_strategies rs p @ exact_strategies rs' p"
  "range_strategies (rs @ rs') p = range_strategies rs p @ range_strategies rs' p"
  "default_strategies (rs @ rs') = default_strategies rs @ default_strategies rs'"
  by (simp_all add: exact_strategies_def range_strategies_def default_strategies_def)

lemma isize_val_one [simp]: "isize_val (ISize 1) = 1"
  by (simp add: isize_val_def)

lemma greater_than_lower_bound:
  "saturating_add t (ISize 1) \<le> p \<longleftrightarrow> t < p \<or> (t = isize_MAX \<and> p = isize_MAX)"
proof -
  have "p = isize_MAX \<longleftrightarrow> 2 ^ 63 - 1 \<le> isize_val p" for p
    by (metis antisym isize_le_MAX isize_le_iff isize_val_MAX)
  then show ?thesis
    using isize_val_bounds [of t] isize_val_bounds [of p]
    by (auto simp: isize_le_iff isize_less_iff saturating_add_def isize_val_clamp)
qed

lemma less_than_upper_bound:
  "p \<le> saturating_sub t (ISize 1) \<longleftrightarrow> p < t \<or> (t = isize_MIN \<and> p = isize_MIN)"
proof -
  have "p = isize_MIN \<longleftrightarrow> isize_val p \<le> - (2 ^ 63)" for p
    by (metis antisym isize_MIN_le isize_le_iff isize_val_MIN)
  then show ?thesis
    using isize_val_bounds [of t] isize_val_bounds [of p]
    by (auto simp: isize_le_iff isize_less_iff saturating_sub_def isize_val_clamp)
qed

lemma resolve_appended_range:
  assumes "exact_strategies (rules c) p = []" "range_strategies (rules c) p = []"
  shows "resolve_strategy (c\<lparr>rules := rules c @ [Range lo hi s]\<rparr>) p =
    (if lo \<le> p \<and> p \<le> hi then s else resolve_strategy c p)"
  using assms by (simp add: resolve_strategy_eq strategy_spec_def)

section \<open>Properties\<close>

text \<open>C26: strategy resolution follows the documented precedence on every configuration and every
  priority: the first exact rule for the priority, else the first range that contains it, else the
  last default, else FIFO; the public \<open>strategy_for_priority\<close> gives the same answer.\<close>

theorem strategy_precedence:
  "resolve_strategy c p =
     (case exact_strategies (rules c) p @ range_strategies (rules c) p of
        s # _ \<Rightarrow> s
      | [] \<Rightarrow> last (Fifo # default_strategies (rules c))) \<and>
   strategy_for_priority c p = resolve_strategy c p"
  by (simp add: resolve_strategy_eq strategy_spec_def strategy_for_priority_def)

text \<open>The threshold builders on a configuration without a rule that applies to the priority:
  the inclusive ones cover exactly the priorities on their side, and so do the strict ones, except
  that at the extreme threshold the saturating arithmetic makes the strict rule cover the
  threshold itself.\<close>

theorem threshold_rules_cover:
  assumes "exact_strategies (rules c) p = []" "range_strategies (rules c) p = []"
  shows "resolve_strategy (greater_or_equal c t s) p = (if t \<le> p then s else resolve_strategy c p) \<and>
    resolve_strategy (less_or_equal c t s) p = (if p \<le> t then s else resolve_strategy c p) \<and>
    resolve_strategy (greater_than c t s) p =
      (if t < p \<or> t = isize_MAX \<and> p = isize_MAX then s else resolve_strategy c p) \<and>
    resolve_strategy (less_than c t s) p =
      (if p < t \<or> t = isize_MIN \<and> p = isize_MIN then s else resolve_strategy c p) \<and>
    resolve_strategy (range_rule c lo hi s) p =
      (if lo \<le> p \<and> p \<le> hi then s else resolve_strategy c p)"
  by (intro conjI)
    (simp_all only: greater_or_equal_def less_or_equal_def greater_than_def less_than_def range_rule_def
      Let_def resolve_appended_range [OF assms] greater_than_lower_bound less_than_upper_bound
      isize_le_MAX isize_MIN_le simp_thms)

theorem threshold_rules_cover_witness:
  "resolve_strategy (greater_than config_default isize_MAX Lifo) isize_MAX = Lifo \<and>
   resolve_strategy (greater_than config_default (ISize 5) Lifo) (ISize 5) = Fifo"
proof -
  have "exact_strategies (rules config_default) p = []" "range_strategies (rules config_default) p = []"
    and "resolve_strategy config_default p = Fifo" for p
    by (simp_all add: config_default_def default_strategy_def config_new_def resolve_strategy_def)
  note [simp] = threshold_rules_cover [OF this(1,2)] this(3)
  show ?thesis by (auto simp: isize_less_iff isize_MAX_def)
qed

end
