(* ===== verification/Max_Heap.thy ===== *)
theory Max_Heap
  imports Prelude
begin

text \<open>
  \<open>std::collections::BinaryHeap\<close> as the wait queue uses it: a bag of priorities whose
  \<open>peek\<close> is the greatest element. The interface is the locale \<open>max_heap\<close>; the model is an
  unordered list, since no operation of the program can see how the heap arranges its elements.
\<close>

section \<open>The interface\<close>

locale max_heap =
  fixes empty :: "'h"
    and push :: "'a::linorder \<Rightarrow> 'h \<Rightarrow> 'h"
    and peek :: "'h \<Rightarrow> 'a option"
    and pop :: "'h \<Rightarrow> 'h"
    and len :: "'h \<Rightarrow> nat"
    and elems :: "'h \<Rightarrow> 'a multiset"
  assumes elems_empty: "elems empty = {#}"
    and elems_push: "elems (push x h) = add_mset x (elems h)"
    and peek_None: "peek h = None \<longleftrightarrow> elems h = {#}"
    and peek_in: "peek h = Some x \<Longrightarrow> x \<in># elems h"
    and peek_max: "peek h = Some x \<Longrightarrow> y \<in># elems h \<Longrightarrow> y \<le> x"
    and elems_pop: "peek h = Some x \<Longrightarrow> elems (pop h) = elems h - {#x#}"
    and len_elems: "len h = size (elems h)"
begin

lemma elems_peek: "peek h = Some x \<Longrightarrow> elems h = add_mset x (elems (pop h))"
  by (simp add: elems_pop peek_in)

lemma size_pop: "peek h = Some x \<Longrightarrow> Suc (len (pop h)) = len h"
  by (simp add: len_elems elems_peek)

lemma pop_le: "peek h = Some x \<Longrightarrow> y \<in># elems (pop h) \<Longrightarrow> y \<le> x"
  by (auto simp: elems_pop dest: in_diffD intro: peek_max)

lemma len_1_peek: "len h = 1 \<Longrightarrow> \<exists>x. peek h = Some x \<and> elems h = {#x#}"
proof -
  assume "len h = 1"
  then obtain y where y: "elems h = {#y#}"
    by (metis len_elems size_1_singleton_mset)
  then obtain x where "peek h = Some x"
    using peek_None [of h] by (cases "peek h") auto
  with y peek_in [of h x] show ?thesis by simp
qed

lemma peek_push_pop: "peek h = Some x \<Longrightarrow> elems (push x (pop h)) = elems h"
  by (simp add: elems_push elems_peek)

end

section \<open>The model\<close>

fun heap_peek :: "'a::linorder list \<Rightarrow> 'a option" where
  "heap_peek [] = None"
| "heap_peek (x # xs) = (case heap_peek xs of None \<Rightarrow> Some x | Some y \<Rightarrow> Some (max x y))"

definition heap_pop :: "'a::linorder list \<Rightarrow> 'a list" where
  "heap_pop h = (case heap_peek h of None \<Rightarrow> h | Some x \<Rightarrow> remove1 x h)"

lemma heap_peek_None [simp]: "heap_peek h = None \<longleftrightarrow> h = []"
  by (cases h) (simp_all split: option.split)

lemma heap_peek_in: "heap_peek h = Some x \<Longrightarrow> x \<in> set h"
  by (induction h arbitrary: x) (auto split: option.splits simp: max_def)

lemma heap_peek_max: "heap_peek h = Some x \<Longrightarrow> y \<in> set h \<Longrightarrow> y \<le> x"
proof (induction h arbitrary: x)
  case (Cons a h)
  then show ?case by (cases "heap_peek h") (auto simp: max_def intro: order_trans)
qed simp

interpretation bh: max_heap "[]" "(#)" heap_peek heap_pop length mset
  by unfold_locales (auto simp: heap_pop_def intro: heap_peek_in heap_peek_max)

end
