(* ===== verification/Waker.thy ===== *)
theory Waker
  imports Prelude
begin

text \<open>
  \<open>wait_queue/waker.rs\<close>: the cell that holds a task's waker and the fixed-size batch of
  wakers. A waker is the number of the task it wakes; waking is recorded as the list of tasks woken,
  in order. An operation that would index the array out of range (a panic in \<open>push\<close>, undefined
  behaviour in the unchecked ones) returns \<open>None\<close>.
\<close>

section \<open>Waker cell\<close>

type_synonym waker = nat
type_synonym waker_cell = "waker option"

definition cell_new :: waker_cell where
  "cell_new = None"

definition set_under_lock :: "waker_cell \<Rightarrow> waker \<Rightarrow> waker_cell" where
  "set_under_lock c w = Some w"

definition take_under_lock :: "waker_cell \<Rightarrow> waker option \<times> waker_cell" where
  "take_under_lock c = (c, None)"

definition wake_by_ref_under_lock :: "waker_cell \<Rightarrow> waker list" where
  "wake_by_ref_under_lock c = (case c of Some w \<Rightarrow> [w] | None \<Rightarrow> [])"

definition has_waker_under_lock :: "waker_cell \<Rightarrow> bool" where
  "has_waker_under_lock c \<longleftrightarrow> c \<noteq> None"

section \<open>Wake list\<close>

definition NUM_WAKERS :: nat where
  "NUM_WAKERS = 32"

record wake_list =
  wakers :: "waker option list"
  count :: nat

definition wake_list_new :: wake_list where
  "wake_list_new = \<lparr>wakers = replicate NUM_WAKERS None, count = 0\<rparr>"

definition can_push :: "wake_list \<Rightarrow> bool" where
  "can_push l \<longleftrightarrow> count l < NUM_WAKERS"

definition wake_list_is_empty :: "wake_list \<Rightarrow> bool" where
  "wake_list_is_empty l \<longleftrightarrow> count l = 0"

definition was_full :: "wake_list \<Rightarrow> bool" where
  "was_full l \<longleftrightarrow> count l = NUM_WAKERS"

definition push :: "wake_list \<Rightarrow> waker \<Rightarrow> wake_list option" where
  "push l w =
     (if count l < length (wakers l)
      then Some (l\<lparr>wakers := (wakers l)[count l := Some w], count := count l + 1\<rparr>)
      else None)"

definition push_unchecked :: "wake_list \<Rightarrow> waker \<Rightarrow> wake_list option" where
  "push_unchecked l w =
     (if count l < length (wakers l)
      then Some (l\<lparr>wakers := (wakers l)[count l := Some w], count := count l + 1\<rparr>)
      else None)"

text \<open>The two loops of \<open>wake_all\<close>: wake the occupied slots in order, then clear them.\<close>

definition wake_all :: "wake_list \<Rightarrow> (waker list \<times> wake_list) option" where
  "wake_all l =
     (if count l \<le> length (wakers l)
      then Some
        (concat (map (\<lambda>i. wake_by_ref_under_lock (wakers l ! i)) [0..<count l]),
         l\<lparr>wakers := fold (\<lambda>i ws. ws[i := None]) [0..<count l] (wakers l), count := 0\<rparr>)
      else None)"

text \<open>The unchecked variant takes each waker out of its slot in one loop.\<close>

fun take_wakers :: "nat list \<Rightarrow> waker option list \<Rightarrow> waker list \<times> waker option list" where
  "take_wakers [] ws = ([], ws)"
| "take_wakers (i # is) ws =
     (let (woken, ws') = take_wakers is (ws[i := None])
      in (wake_by_ref_under_lock (ws ! i) @ woken, ws'))"

definition wake_all_unchecked :: "wake_list \<Rightarrow> (waker list \<times> wake_list) option" where
  "wake_all_unchecked l =
     (if count l \<le> length (wakers l)
      then let (woken, ws) = take_wakers [0..<count l] (wakers l)
           in Some (woken, l\<lparr>wakers := ws, count := 0\<rparr>)
      else None)"

section \<open>The batch as a list of at most 32 wakers\<close>

definition wake_list_of :: "waker list \<Rightarrow> wake_list" where
  "wake_list_of ws =
     \<lparr>wakers = map Some ws @ replicate (NUM_WAKERS - length ws) None, count = length ws\<rparr>"

definition wake_contents :: "wake_list \<Rightarrow> waker list" where
  "wake_contents l = map the (take (count l) (wakers l))"

definition wake_list_ok :: "wake_list \<Rightarrow> bool" where
  "wake_list_ok l \<longleftrightarrow> l = wake_list_of (wake_contents l) \<and> length (wake_contents l) \<le> NUM_WAKERS"

lemma wake_contents_of [simp]: "wake_contents (wake_list_of ws) = ws"
  by (simp add: wake_contents_def wake_list_of_def comp_def)

lemma wake_list_ok_of [simp]: "wake_list_ok (wake_list_of ws) \<longleftrightarrow> length ws \<le> NUM_WAKERS"
  by (simp add: wake_list_ok_def)

lemma wake_list_okE:
  assumes "wake_list_ok l"
  obtains ws where "l = wake_list_of ws" "length ws \<le> NUM_WAKERS"
  using assms by (auto simp: wake_list_ok_def)

lemma wake_list_new_of: "wake_list_new = wake_list_of []"
  by (simp add: wake_list_new_def wake_list_of_def)

lemma wake_list_of_tests [simp]:
  "can_push (wake_list_of ws) \<longleftrightarrow> length ws < NUM_WAKERS"
  "wake_list_is_empty (wake_list_of ws) \<longleftrightarrow> ws = []"
  "was_full (wake_list_of ws) \<longleftrightarrow> length ws = NUM_WAKERS"
  by (simp_all add: can_push_def wake_list_is_empty_def was_full_def wake_list_of_def)

lemma push_of:
  assumes "length ws < NUM_WAKERS"
  shows "push (wake_list_of ws) w = Some (wake_list_of (ws @ [w]))"
proof -
  obtain k where "NUM_WAKERS - length ws = Suc k"
    using assms by (metis Suc_diff_Suc)
  moreover from this have "NUM_WAKERS - Suc (length ws) = k"
    by simp
  ultimately show ?thesis
    using assms by (simp add: push_def wake_list_of_def list_update_append)
qed

lemma push_unchecked_eq_push: "push_unchecked l w = push l w"
  by (simp add: push_unchecked_def push_def)

lemma fold_clear_slots:
  "fold (\<lambda>i ws. ws[i := None]) [0..<n] ws = replicate (min n (length ws)) None @ drop n ws"
proof (induction n)
  case (Suc n)
  show ?case
  proof (cases "n < length ws")
    case True
    then have "drop n ws = ws ! n # drop (Suc n) ws"
      by (simp add: Cons_nth_drop_Suc)
    with True Suc show ?thesis
      by (simp add: list_update_append replicate_append_same [symmetric])
  next
    case False
    with Suc show ?thesis by (simp add: list_update_beyond)
  qed
qed simp

lemma take_wakers_eq:
  "distinct is \<Longrightarrow> take_wakers is ws =
     (concat (map (\<lambda>i. wake_by_ref_under_lock (ws ! i)) is), fold (\<lambda>i ws. ws[i := None]) is ws)"
proof (induction "is" arbitrary: ws)
  case (Cons i "is")
  then have "map (\<lambda>j. wake_by_ref_under_lock (ws[i := None] ! j)) is =
      map (\<lambda>j. wake_by_ref_under_lock (ws ! j)) is"
    by (metis (no_types, lifting) distinct.simps(2) map_cong nth_list_update_neq)
  with Cons show ?case by (simp cong: map_cong)
qed simp

lemma wake_all_unchecked_eq: "wake_all_unchecked l = wake_all l"
  by (simp add: wake_all_unchecked_def wake_all_def take_wakers_eq)

lemma wake_all_of:
  assumes "length ws \<le> NUM_WAKERS"
  shows "wake_all (wake_list_of ws) = Some (ws, wake_list_of [])"
proof -
  have "map (\<lambda>i. wake_by_ref_under_lock ((map Some ws @ replicate m None) ! i)) [0..<length ws]
      = map (\<lambda>w. [w]) ws" for m
    by (rule nth_equalityI) (simp_all add: wake_by_ref_under_lock_def nth_append)
  then show ?thesis
    using assms by (simp add: wake_all_def wake_list_of_def fold_clear_slots
        flip: replicate_add)
qed

section \<open>The contract of a waker batch\<close>

text \<open>
  What the wait queue and \<open>add_permits_locked\<close> rely on: within the capacity a push never
  fails and appends, and waking hands back every waker exactly once, in order, and empties the batch.
\<close>

locale waker_batch =
  fixes new :: "'b"
    and full :: "'b \<Rightarrow> bool"
    and add :: "'b \<Rightarrow> 'w \<Rightarrow> 'b option"
    and wake :: "'b \<Rightarrow> ('w list \<times> 'b) option"
    and contents :: "'b \<Rightarrow> 'w list"
    and ok :: "'b \<Rightarrow> bool"
    and cap :: nat
  assumes ok_new: "ok new"
    and contents_new: "contents new = []"
    and full_iff: "ok b \<Longrightarrow> full b \<longleftrightarrow> length (contents b) = cap"
    and within_cap: "ok b \<Longrightarrow> length (contents b) \<le> cap"
    and add_Some: "ok b \<Longrightarrow> length (contents b) < cap \<Longrightarrow>
      \<exists>b'. add b w = Some b' \<and> ok b' \<and> contents b' = contents b @ [w]"
    and wake_Some: "ok b \<Longrightarrow> \<exists>b'. wake b = Some (contents b, b') \<and> ok b' \<and> contents b' = []"
begin

lemma add_all:
  "ok b \<Longrightarrow> length (contents b) + length ws \<le> cap \<Longrightarrow>
   \<exists>b'. fold_option (\<lambda>w b. add b w) ws b = Some b' \<and> ok b' \<and> contents b' = contents b @ ws"
proof (induction ws arbitrary: b)
  case (Cons w ws)
  then obtain b1 where b1: "add b w = Some b1" "ok b1" "contents b1 = contents b @ [w]"
    using add_Some [of b w] by auto
  with Cons.IH [of b1] Cons.prems show ?case by simp
qed simp

lemma add_all_then_wake:
  assumes "length ws \<le> cap"
  shows "\<exists>b b'. fold_option (\<lambda>w b. add b w) ws new = Some b \<and> wake b = Some (ws, b')
    \<and> ok b' \<and> contents b' = []"
proof -
  obtain b where "fold_option (\<lambda>w b. add b w) ws new = Some b" "ok b" "contents b = ws"
    using add_all [of new ws] assms ok_new contents_new by auto
  with wake_Some [of b] show ?thesis by auto
qed

lemma not_full_after_wake:
  "ok b \<Longrightarrow> 0 < cap \<Longrightarrow> wake b = Some (ws, b') \<Longrightarrow> \<not> full b'"
  using wake_Some [of b] full_iff by auto

end

interpretation wl: waker_batch wake_list_new was_full push wake_all wake_contents wake_list_ok NUM_WAKERS
  by unfold_locales
    (auto elim!: wake_list_okE simp: wake_list_new_of push_of wake_all_of)

section \<open>Properties\<close>

text \<open>C30: up to 32 wakers pushed onto a new batch are all accepted, \<open>wake_all\<close> then wakes exactly
  them, each once and in the order they were pushed, and leaves an empty batch that is not full;
  the unchecked push and the unchecked wake do the same.\<close>

theorem wake_list_roundtrip:
  assumes "length ws \<le> NUM_WAKERS"
  shows "\<exists>l l'. fold_option (\<lambda>w l. push l w) ws wake_list_new = Some l \<and>
     fold_option (\<lambda>w l. push_unchecked l w) ws wake_list_new = Some l \<and>
     wake_all l = Some (ws, l') \<and> wake_all_unchecked l = Some (ws, l') \<and>
     wake_list_is_empty l' \<and> \<not> was_full l' \<and> can_push l'"
proof -
  obtain l l' where *: "fold_option (\<lambda>w l. push l w) ws wake_list_new = Some l"
    "wake_all l = Some (ws, l')" "wake_list_ok l'" "wake_contents l' = []"
    using wl.add_all_then_wake [OF assms] by blast
  then have "l' = wake_list_of []" by (simp add: wake_list_ok_def)
  with * show ?thesis
    by (simp add: push_unchecked_eq_push wake_all_unchecked_eq NUM_WAKERS_def)
qed

theorem wake_list_roundtrip_witness:
  "\<exists>l l'. fold_option (\<lambda>w l. push l w) [7, 3, 9] wake_list_new = Some l \<and>
     wake_all l = Some ([7, 3, 9], l') \<and> \<not> was_full l'"
  using wake_list_roundtrip [of "[7, 3, 9]"] by (auto simp: NUM_WAKERS_def)

text \<open>A full batch is reported as such and refuses a further waker instead of growing or
  overwriting one, and both ways to wake a batch agree on every batch.\<close>

theorem wake_list_full:
  assumes "length ws = NUM_WAKERS"
  shows "\<not> can_push (wake_list_of ws) \<and> was_full (wake_list_of ws) \<and> push (wake_list_of ws) w = None \<and>
    wake_all_unchecked l = wake_all l"
  using assms by (simp_all add: push_def wake_list_of_def can_push_def was_full_def wake_all_unchecked_eq)

theorem wake_list_full_witness:
  "push (wake_list_of (replicate NUM_WAKERS 1)) 2 = None"
  using wake_list_full [of "replicate NUM_WAKERS 1" 2] by simp

end
