(* ===== verification/Waiter.thy ===== *)
theory Waiter
  imports Waker
begin

text \<open>
  \<open>wait_queue/waiter.rs\<close>: one waiting task. A \<open>WaiterState\<close> is shared (\<open>Arc\<close>)
  between the future that waits and the queue it waits in, so the model keeps all of them in a store
  indexed by identity, which is what \<open>Arc::ptr_eq\<close> compares. Operations on a waiter return its
  new content and the tasks they wake.
\<close>

section \<open>Waiter state\<close>

definition WAITING :: usize where
  "WAITING = 0"

definition NOTIFIED :: usize where
  "NOTIFIED = 1"

definition CANCELLED :: usize where
  "CANCELLED = 2"

record waiter_state =
  state :: usize
  permits_needed :: usize
  waker :: waker_cell
  priority :: isize

definition waiter_new :: "usize \<Rightarrow> isize \<Rightarrow> waiter_state" where
  "waiter_new n p = \<lparr>state = WAITING, permits_needed = n, waker = cell_new, priority = p\<rparr>"

definition cancel :: "waiter_state \<Rightarrow> waiter_state \<times> waker list" where
  "cancel w =
     (let (s1, ok1) = compare_exchange (state w) WAITING CANCELLED
      in if ok1 then (w\<lparr>state := s1\<rparr>, wake_by_ref_under_lock (waker w))
         else let (s2, ok2) = compare_exchange (state w) NOTIFIED CANCELLED
              in if ok2 then (w\<lparr>state := s2\<rparr>, wake_by_ref_under_lock (waker w))
                 else (w, []))"

definition is_notified :: "waiter_state \<Rightarrow> bool" where
  "is_notified w \<longleftrightarrow> state w = NOTIFIED"

definition is_cancelled :: "waiter_state \<Rightarrow> bool" where
  "is_cancelled w \<longleftrightarrow> state w = CANCELLED"

definition is_waiting :: "waiter_state \<Rightarrow> bool" where
  "is_waiting w \<longleftrightarrow> state w = WAITING"

definition set_waker :: "waiter_state \<Rightarrow> waker \<Rightarrow> waiter_state" where
  "set_waker w k = w\<lparr>waker := set_under_lock (waker w) k\<rparr>"

definition take_waker_under_lock :: "waiter_state \<Rightarrow> waker option \<times> waiter_state" where
  "take_waker_under_lock w =
     (let (k, c) = take_under_lock (waker w) in (k, w\<lparr>waker := c\<rparr>))"

definition try_notify :: "waiter_state \<Rightarrow> waiter_state \<times> bool" where
  "try_notify w =
     (let (s, ok) = compare_exchange (state w) WAITING NOTIFIED in (w\<lparr>state := s\<rparr>, ok))"

section \<open>The store of waiters\<close>

type_synonym wid = nat
type_synonym store = "wid \<Rightarrow> waiter_state"

text \<open>\<open>WaiterHandle::new\<close> allocates a waiter, under the next free identity.\<close>

definition waiter_handle_new :: "usize \<Rightarrow> isize \<Rightarrow> store \<Rightarrow> wid \<Rightarrow> wid \<times> store \<times> wid" where
  "waiter_handle_new n p \<sigma> next = (next, \<sigma>(next := waiter_new n p), next + 1)"

section \<open>The life cycle of a waiter\<close>

definition waiter_ok :: "waiter_state \<Rightarrow> bool" where
  "waiter_ok w \<longleftrightarrow> state w = WAITING \<or> state w = NOTIFIED \<or> state w = CANCELLED"

lemmas waiter_states = WAITING_def NOTIFIED_def CANCELLED_def

lemma waiter_states_distinct [simp]:
  "WAITING \<noteq> NOTIFIED" "WAITING \<noteq> CANCELLED" "NOTIFIED \<noteq> CANCELLED"
  "NOTIFIED \<noteq> WAITING" "CANCELLED \<noteq> WAITING" "CANCELLED \<noteq> NOTIFIED"
  by (simp_all add: waiter_states)

lemmas waiter_tests = is_notified_def is_cancelled_def is_waiting_def

lemma cancel_cases:
  "cancel w =
     (if state w = WAITING \<or> state w = NOTIFIED
      then (w\<lparr>state := CANCELLED\<rparr>, wake_by_ref_under_lock (waker w)) else (w, []))"
  by (auto simp: cancel_def compare_exchange_def)

lemma try_notify_cases:
  "try_notify w = (if is_waiting w then (w\<lparr>state := NOTIFIED\<rparr>, True) else (w, False))"
  by (cases w) (auto simp: try_notify_def compare_exchange_def is_waiting_def)

lemma take_waker_eq: "take_waker_under_lock w = (waker w, w\<lparr>waker := None\<rparr>)"
  by (simp add: take_waker_under_lock_def take_under_lock_def)

lemma cancel_frame [simp]:
  "permits_needed (fst (cancel w)) = permits_needed w" "priority (fst (cancel w)) = priority w"
  "waker (fst (cancel w)) = waker w"
  by (simp_all add: cancel_cases)

lemma set_waker_frame [simp]:
  "state (set_waker w k) = state w" "permits_needed (set_waker w k) = permits_needed w"
  "priority (set_waker w k) = priority w" "waker (set_waker w k) = Some k"
  by (simp_all add: set_waker_def set_under_lock_def)

lemma waiter_new_sel [simp]:
  "state (waiter_new n p) = WAITING" "permits_needed (waiter_new n p) = n"
  "priority (waiter_new n p) = p" "waker (waiter_new n p) = None"
  by (simp_all add: waiter_new_def cell_new_def)

lemma cancel_cancelled: "waiter_ok w \<Longrightarrow> is_cancelled (fst (cancel w))"
  by (auto simp: cancel_cases waiter_ok_def is_cancelled_def)

lemma cancel_not_waiting: "\<not> is_waiting (fst (cancel w))"
  by (simp add: cancel_cases is_waiting_def)

end
