(* ===== verification/Wait_Queue.thy ===== *)
theory Wait_Queue
  imports Config Max_Heap Waiter "HOL-Library.AList"
begin

text \<open>
  \<open>wait_queue/queue.rs\<close>: the priority wait queue. A hash map from priorities to deques is an
  association list with distinct keys; the deques hold waiter identities, whose contents live in the
  store. The order in which a \<open>HashMap\<close> is drained is unspecified, so \<open>close\<close> takes it as
  an argument. Functions return \<open>None\<close> where the Rust code would panic or index out of range.
\<close>

section \<open>Map of priority queues\<close>

type_synonym priority_queues = "(isize \<times> wid list) list"
type_synonym hash_order = "priority_queues \<Rightarrow> priority_queues"

definition get_mut_or_create :: "priority_queues \<Rightarrow> isize \<Rightarrow> wid list \<times> priority_queues" where
  "get_mut_or_create m p =
     (case map_of m p of Some q \<Rightarrow> (q, m) | None \<Rightarrow> ([], AList.update p [] m))"

definition has_non_empty_queue :: "priority_queues \<Rightarrow> isize \<Rightarrow> bool" where
  "has_non_empty_queue m p \<longleftrightarrow> (case map_of m p of Some q \<Rightarrow> q \<noteq> [] | None \<Rightarrow> False)"

definition drain_all_waiters :: "hash_order \<Rightarrow> priority_queues \<Rightarrow> wid list \<times> priority_queues" where
  "drain_all_waiters h m = (concat (map snd (h m)), [])"

section \<open>Queue state, insertion and removal\<close>

record wait_queue =
  priority_queues :: priority_queues
  active_priorities :: "isize list"
  config :: PriorityConfig
  closed :: bool
  total_waiters :: nat

definition wait_queue_new :: "PriorityConfig \<Rightarrow> wait_queue" where
  "wait_queue_new c =
     \<lparr>priority_queues = [], active_priorities = [], config = c, closed = False, total_waiters = 0\<rparr>"

definition insert_waiter_optimized :: "wait_queue \<Rightarrow> wid \<Rightarrow> isize \<Rightarrow> wait_queue" where
  "insert_waiter_optimized q w p =
     (let strategy = resolve_strategy (config q) p;
          was_empty = \<not> has_non_empty_queue (priority_queues q) p;
          (queue, m) = get_mut_or_create (priority_queues q) p;
          active = (if was_empty then p # active_priorities q else active_priorities q);
          queue' = (case strategy of Fifo \<Rightarrow> queue @ [w] | Lifo \<Rightarrow> w # queue)
      in q\<lparr>priority_queues := AList.update p queue' m, active_priorities := active,
           total_waiters := total_waiters q + 1\<rparr>)"

definition push_waiter ::
  "usize \<Rightarrow> isize \<Rightarrow> store \<Rightarrow> wid \<Rightarrow> wait_queue \<Rightarrow> wid \<times> store \<times> wid \<times> wait_queue" where
  "push_waiter n p \<sigma> next q =
     (let (waiter_handle, \<sigma>', next') = waiter_handle_new n p \<sigma> next
      in (waiter_handle, \<sigma>', next', insert_waiter_optimized q waiter_handle p))"

definition is_empty :: "wait_queue \<Rightarrow> bool" where
  "is_empty q \<longleftrightarrow> total_waiters q = 0"

definition remove_waiter :: "store \<Rightarrow> wid \<Rightarrow> wait_queue \<Rightarrow> wait_queue" where
  "remove_waiter \<sigma> w q =
     (let p = priority (\<sigma> w)
      in case map_of (priority_queues q) p of
           None \<Rightarrow> q
         | Some queue \<Rightarrow>
             if w \<in> set queue
             then q\<lparr>priority_queues := AList.update p (remove1 w queue) (priority_queues q),
                    total_waiters := (if total_waiters q > 0 then total_waiters q - 1
                                      else total_waiters q)\<rparr>
             else q)"

fun cancel_all :: "wid list \<Rightarrow> store \<Rightarrow> store \<times> waker list" where
  "cancel_all [] \<sigma> = (\<sigma>, [])"
| "cancel_all (w # ws) \<sigma> =
     (let (c, woken) = cancel (\<sigma> w);
          (\<sigma>', woken') = cancel_all ws (\<sigma>(w := c))
      in (\<sigma>', woken @ woken'))"

definition close_queue :: "hash_order \<Rightarrow> store \<Rightarrow> wait_queue \<Rightarrow> store \<times> wait_queue \<times> waker list" where
  "close_queue h \<sigma> q =
     (let (all_waiters, m) = drain_all_waiters h (priority_queues q);
          q' = q\<lparr>closed := True, priority_queues := m, active_priorities := [], total_waiters := 0\<rparr>;
          (\<sigma>', woken) = cancel_all all_waiters \<sigma>
      in (\<sigma>', q', woken))"

section \<open>Selecting waiters to notify\<close>

text \<open>
  The mutable locals of a selection: the waiters' store, the batch of wakers, the permits still
  available, the permits assigned so far and the queue's counter.
\<close>

record selection =
  sel_store :: store
  sel_wakes :: wake_list
  sel_avail :: usize
  sel_assigned :: usize
  sel_total :: nat

definition notify_waiter :: "wid \<Rightarrow> store \<Rightarrow> wake_list \<Rightarrow> (store \<times> wake_list) option" where
  "notify_waiter w \<sigma> l =
     (let (ws, ok) = try_notify (\<sigma> w)
      in if ok then
           (let (wk, ws') = take_waker_under_lock ws; \<sigma>' = \<sigma>(w := ws')
            in case wk of
                 None \<Rightarrow> Some (\<sigma>', l)
               | Some k \<Rightarrow> map_option (\<lambda>l'. (\<sigma>', l')) (if can_push l then push_unchecked l k else push l k))
         else Some (\<sigma>(w := ws), l))"

text \<open>\<open>self.total_waiters -= 1\<close>, an overflow at zero.\<close>

definition count_out :: "selection \<Rightarrow> selection option" where
  "count_out s = (if sel_total s = 0 then None else Some (s\<lparr>sel_total := sel_total s - 1\<rparr>))"

text \<open>The body both loops share once a waiter is popped: account for it, then notify it.\<close>

definition serve :: "wid \<Rightarrow> selection \<Rightarrow> selection option" where
  "serve w s =
     (let n = permits_needed (sel_store s w)
      in case notify_waiter w (sel_store s) (sel_wakes s) of
           None \<Rightarrow> None
         | Some (\<sigma>, l) \<Rightarrow>
             count_out (s\<lparr>sel_store := \<sigma>, sel_wakes := l, sel_avail := sel_avail s - n,
                          sel_assigned := sel_assigned s + n\<rparr>))"

fun process_single_priority_fast :: "wid list \<Rightarrow> selection \<Rightarrow> (wid list \<times> selection) option" where
  "process_single_priority_fast [] s = Some ([], s)"
| "process_single_priority_fast (w # q) s =
     (if \<not> can_push (sel_wakes s) \<or> sel_avail s = 0 then Some (w # q, s)
      else if is_cancelled (sel_store s w)
      then (case count_out s of None \<Rightarrow> None | Some s' \<Rightarrow> process_single_priority_fast q s')
      else if permits_needed (sel_store s w) > sel_avail s then Some (w # q, s)
      else (case serve w s of
              None \<Rightarrow> None
            | Some s' \<Rightarrow> process_single_priority_fast q s'))"

fun process_queue :: "wid list \<Rightarrow> selection \<Rightarrow> bool \<Rightarrow> (wid list \<times> selection \<times> bool) option" where
  "process_queue [] s processed_any = Some ([], s, processed_any)"
| "process_queue (w # q) s processed_any =
     (if \<not> can_push (sel_wakes s) \<or> sel_avail s = 0 then Some (w # q, s, processed_any)
      else if permits_needed (sel_store s w) > sel_avail s then Some (w # q, s, processed_any)
      else if is_cancelled (sel_store s w)
      then (case count_out s of None \<Rightarrow> None | Some s' \<Rightarrow> process_queue q s' processed_any)
      else (case serve w s of
              None \<Rightarrow> None
            | Some s' \<Rightarrow> process_queue q s' True))"

text \<open>One priority of the general case: its loop, then the sweep of cancelled waiters.\<close>

definition process_priority :: "wid list \<Rightarrow> selection \<Rightarrow> (wid list \<times> selection \<times> bool) option" where
  "process_priority queue s =
     (case process_queue queue s False of
        None \<Rightarrow> None
      | Some (q, s1, processed_any) \<Rightarrow>
          let q' = filter (\<lambda>w. \<not> is_cancelled (sel_store s1 w)) q;
              cancelled_count = length q - length q';
              s2 = (if sel_total s1 \<ge> cancelled_count
                    then s1\<lparr>sel_total := sel_total s1 - cancelled_count\<rparr> else s1)
          in Some (q', s2, processed_any))"

function process_priorities ::
  "priority_queues \<Rightarrow> isize list \<Rightarrow> isize list \<Rightarrow> selection \<Rightarrow>
   (priority_queues \<times> isize list \<times> isize list \<times> selection) option" where
  "process_priorities m active restore s =
     (case heap_peek active of
        None \<Rightarrow> Some (m, active, restore, s)
      | Some p \<Rightarrow>
          if sel_avail s = 0 \<or> \<not> can_push (sel_wakes s) then Some (m, active, restore, s)
          else if \<not> has_non_empty_queue m p then process_priorities m (heap_pop active) restore s
          else (case map_of m p of
                  None \<Rightarrow> None
                | Some [] \<Rightarrow> None
                | Some (first # rest) \<Rightarrow>
                    if permits_needed (sel_store s first) > sel_avail s
                    then Some (m, active, restore, s)
                    else (case process_priority (first # rest) s of
                            None \<Rightarrow> None
                          | Some (q, s', processed_any) \<Rightarrow>
                              let m' = AList.update p q m;
                                  restore' = (if q \<noteq> [] then restore @ [p] else restore)
                              in if processed_any \<and> \<not> can_push (sel_wakes s')
                                 then Some (m', heap_pop active, restore', s')
                                 else process_priorities m' (heap_pop active) restore' s')))"
  by pat_completeness auto
termination
  by (relation "measure (\<lambda>(m, active, restore, s). length active)") (auto dest: bh.size_pop)

definition process_multiple_priorities_optimized ::
  "wait_queue \<Rightarrow> selection \<Rightarrow> (wait_queue \<times> selection) option" where
  "process_multiple_priorities_optimized q s =
     (case process_priorities (priority_queues q) (active_priorities q) [] s of
        None \<Rightarrow> None
      | Some (m, active, restore, s') \<Rightarrow>
          Some (q\<lparr>priority_queues := m, active_priorities := fold (#) restore active,
                  total_waiters := sel_total s'\<rparr>, s'))"

definition select_waiters_to_notify ::
  "usize \<Rightarrow> store \<Rightarrow> wait_queue \<Rightarrow> (wake_list \<times> usize \<times> store \<times> wait_queue) option" where
  "select_waiters_to_notify available_permits \<sigma> q =
     (let s0 = \<lparr>sel_store = \<sigma>, sel_wakes = wake_list_new, sel_avail = available_permits,
                sel_assigned = 0, sel_total = total_waiters q\<rparr>
      in if available_permits = 0 \<or> total_waiters q = 0 then Some (wake_list_new, 0, \<sigma>, q)
         else if length (active_priorities q) = 1 then
           (case heap_peek (active_priorities q) of
              None \<Rightarrow> Some (wake_list_new, 0, \<sigma>, q)
            | Some p \<Rightarrow>
                let active = heap_pop (active_priorities q)
                in case map_of (priority_queues q) p of
                     None \<Rightarrow> Some (wake_list_new, 0, \<sigma>, q\<lparr>active_priorities := active\<rparr>)
                   | Some queue \<Rightarrow>
                       let m = AList.delete p (priority_queues q)
                       in case process_single_priority_fast queue s0 of
                            None \<Rightarrow> None
                          | Some (queue', s) \<Rightarrow>
                              Some (sel_wakes s, sel_assigned s, sel_store s,
                                q\<lparr>priority_queues := (if queue' \<noteq> [] then AList.update p queue' m else m),
                                  active_priorities := (if queue' \<noteq> [] then p # active else active),
                                  total_waiters := sel_total s\<rparr>))
         else
           (case process_multiple_priorities_optimized q s0 of
              None \<Rightarrow> None
            | Some (q', s) \<Rightarrow> Some (sel_wakes s, sel_assigned s, sel_store s, q')))"

declare process_priorities.simps [simp del]

end
