(* ===== verification/Queue_Inv.thy ===== *)
theory Queue_Inv
  imports Wait_Queue
begin

text \<open>
  The map of priority queues seen as a function from priorities to lists of waiters, the
  representation invariant of the wait queue, and its preservation by every operation but selection
  (theory \<open>Select\<close>).
\<close>

named_theorems queue_simps "what each map operation does to the queues"

section \<open>The map as a family of lists\<close>

definition queue_of :: "priority_queues \<Rightarrow> isize \<Rightarrow> wid list" where
  "queue_of m p = (case map_of m p of None \<Rightarrow> [] | Some ws \<Rightarrow> ws)"

definition all_waiters :: "priority_queues \<Rightarrow> wid list" where
  "all_waiters m = concat (map snd m)"

abbreviation distinct_keys :: "priority_queues \<Rightarrow> bool" where
  "distinct_keys m \<equiv> distinct (map fst m)"

lemma queue_of_Some [simp]: "map_of m p = Some ws \<Longrightarrow> queue_of m p = ws"
  by (simp add: queue_of_def)

lemma queue_of_None [simp]: "map_of m p = None \<Longrightarrow> queue_of m p = []"
  by (simp add: queue_of_def)

lemma queue_of_Nil [simp]: "queue_of [] p = []"
  by (simp add: queue_of_def)

lemma queue_of_Cons: "queue_of ((p, ws) # m) p' = (if p' = p then ws else queue_of m p')"
  by (simp add: queue_of_def)

lemma queue_of_update [queue_simps]:
  "queue_of (AList.update p ws m) p' = (if p' = p then ws else queue_of m p')"
  by (simp add: queue_of_def update_conv)

lemma queue_of_delete [queue_simps]:
  "queue_of (AList.delete p m) p' = (if p' = p then [] else queue_of m p')"
  by (simp add: queue_of_def delete_conv)

lemma has_non_empty_queue_iff [simp]: "has_non_empty_queue m p \<longleftrightarrow> queue_of m p \<noteq> []"
  by (simp add: has_non_empty_queue_def queue_of_def split: option.split)

lemma get_mut_or_create_queue: "fst (get_mut_or_create m p) = queue_of m p"
  by (simp add: get_mut_or_create_def queue_of_def split: option.split)

lemma get_mut_or_create_update:
  "AList.update p ws (snd (get_mut_or_create m p)) = AList.update p ws m"
  by (auto simp: get_mut_or_create_def update_Some_unfold split: option.split intro: update_last)

lemma all_waiters_Nil [simp]: "all_waiters [] = []"
  by (simp add: all_waiters_def)

lemma all_waiters_Cons [simp]: "all_waiters ((p, ws) # m) = ws @ all_waiters m"
  by (simp add: all_waiters_def)

lemma mset_all_waiters_update:
  "distinct_keys m \<Longrightarrow>
   mset (all_waiters (AList.update p ws m)) + mset (queue_of m p) = mset (all_waiters m) + mset ws"
  by (induction m) (auto simp: queue_of_def ac_simps split: option.split)

lemma mset_all_waiters_delete:
  "distinct_keys m \<Longrightarrow> mset (all_waiters (AList.delete p m)) + mset (queue_of m p) = mset (all_waiters m)"
proof (induction m)
  case (Cons x m)
  have "AList.delete p m = m" if "map_of m p = None"
    using that by (simp add: delete_idem map_of_eq_None_iff)
  with Cons show ?case
    by (cases x) (auto simp: queue_of_def ac_simps map_of_eq_None_iff split: option.splits)
qed simp

lemma set_all_waiters:
  "distinct_keys m \<Longrightarrow> set (all_waiters m) = (\<Union>p. set (queue_of m p))"
proof (induction m)
  case (Cons x m)
  obtain p ws where x: "x = (p, ws)" by (cases x)
  with Cons.prems have "queue_of m p = []"
    by (simp add: map_of_eq_None_iff)
  then have "(\<Union>p'. set (queue_of (x # m) p')) = set ws \<union> (\<Union>p'. set (queue_of m p'))"
    by (auto simp: x queue_of_Cons split: if_splits) (metis empty_iff list.set(1))
  with Cons x show ?case by simp
qed simp

lemma queue_of_subset: "set (queue_of m p) \<subseteq> set (all_waiters m)"
proof (cases "map_of m p")
  case (Some ws)
  then have "(p, ws) \<in> set m" by (rule map_of_SomeD)
  with Some show ?thesis by (auto simp: all_waiters_def)
qed simp

lemma mset_queue_of_subset: "distinct_keys m \<Longrightarrow> mset (queue_of m p) \<subseteq># mset (all_waiters m)"
  by (metis mset_all_waiters_delete mset_subset_eq_add_right)

lemma distinct_queue_of: "distinct_keys m \<Longrightarrow> distinct (all_waiters m) \<Longrightarrow> distinct (queue_of m p)"
  by (blast intro: distinct_mset_mono mset_queue_of_subset)

text \<open>Replacing a queue by part of it keeps the waiters distinct and counts them.\<close>

lemma all_waiters_update_shrink:
  assumes "distinct_keys m" "mset ws \<subseteq># mset (queue_of m p)"
  shows "mset (all_waiters (AList.update p ws m)) \<subseteq># mset (all_waiters m)"
    and "length (all_waiters (AList.update p ws m)) + (length (queue_of m p) - length ws)
         = length (all_waiters m)"
proof -
  have eq: "mset (all_waiters (AList.update p ws m)) + mset (queue_of m p)
      = mset (all_waiters m) + mset ws"
    using assms(1) by (rule mset_all_waiters_update)
  then show "mset (all_waiters (AList.update p ws m)) \<subseteq># mset (all_waiters m)"
    using assms(2) by (metis mset_subset_eq_mono_add_right_cancel mset_subset_eq_mono_add_left_cancel)
  from arg_cong [OF eq, of size] size_mset_mono [OF assms(2)]
  show "length (all_waiters (AList.update p ws m)) + (length (queue_of m p) - length ws)
         = length (all_waiters m)"
    by simp
qed

section \<open>The invariant\<close>

text \<open>
  Keys are distinct; a waiter is queued once, under its own priority, and is waiting or cancelled
  (never notified); every non-empty queue is in the heap of active priorities, which may hold stale
  and repeated entries; the counter counts the queued waiters.
\<close>

definition queued_ok :: "store \<Rightarrow> priority_queues \<Rightarrow> bool" where
  "queued_ok \<sigma> m \<longleftrightarrow> distinct_keys m \<and> distinct (all_waiters m) \<and>
     (\<forall>p. \<forall>w \<in> set (queue_of m p). priority (\<sigma> w) = p \<and> (is_waiting (\<sigma> w) \<or> is_cancelled (\<sigma> w)))"

definition wait_queue_inv :: "store \<Rightarrow> wait_queue \<Rightarrow> bool" where
  "wait_queue_inv \<sigma> q \<longleftrightarrow> queued_ok \<sigma> (priority_queues q) \<and>
     (\<forall>p. queue_of (priority_queues q) p \<noteq> [] \<longrightarrow> p \<in> set (active_priorities q)) \<and>
     total_waiters q = length (all_waiters (priority_queues q))"

definition queued :: "wait_queue \<Rightarrow> wid set" where
  "queued q = set (all_waiters (priority_queues q))"

lemma queued_okD:
  assumes "queued_ok \<sigma> m"
  shows "distinct_keys m" "distinct (all_waiters m)" "distinct (queue_of m p)"
    and "w \<in> set (queue_of m p) \<Longrightarrow> priority (\<sigma> w) = p"
    and "w \<in> set (all_waiters m) \<Longrightarrow> is_waiting (\<sigma> w) \<or> is_cancelled (\<sigma> w)"
    and "w \<in> set (all_waiters m) \<Longrightarrow> w \<in> set (queue_of m (priority (\<sigma> w)))"
  using assms by (auto simp: queued_ok_def set_all_waiters distinct_queue_of)

lemma queued_ok_cong:
  assumes "queued_ok \<sigma> m" "\<And>w. w \<in> set (all_waiters m) \<Longrightarrow> \<sigma>' w = \<sigma> w"
  shows "queued_ok \<sigma>' m"
  using assms queue_of_subset [of m] unfolding queued_ok_def by (metis subsetD)

lemma wait_queue_inv_cong:
  "wait_queue_inv \<sigma> q \<Longrightarrow> (\<And>w. w \<in> queued q \<Longrightarrow> \<sigma>' w = \<sigma> w) \<Longrightarrow> wait_queue_inv \<sigma>' q"
  by (auto simp: wait_queue_inv_def queued_def intro: queued_ok_cong)

text \<open>Marking a queued waiter cancelled, or setting its waker, keeps the invariant.\<close>

lemma wait_queue_inv_upd:
  assumes "wait_queue_inv \<sigma> q" "priority c = priority (\<sigma> w)"
    and "w \<in> queued q \<Longrightarrow> is_waiting c \<or> is_cancelled c"
  shows "wait_queue_inv (\<sigma>(w := c)) q"
  using assms queue_of_subset [of "priority_queues q"]
  by (fastforce simp: wait_queue_inv_def queued_ok_def queued_def)

lemma is_empty_iff: "wait_queue_inv \<sigma> q \<Longrightarrow> is_empty q \<longleftrightarrow> queued q = {}"
  by (simp add: is_empty_def wait_queue_inv_def queued_def)

lemma wait_queue_inv_new: "wait_queue_inv \<sigma> (wait_queue_new c)"
  by (simp add: wait_queue_inv_def wait_queue_new_def queued_ok_def)

lemma queued_new [simp]: "queued (wait_queue_new c) = {}"
  by (simp add: queued_def wait_queue_new_def)

section \<open>Insertion\<close>

definition enqueue :: "QueueStrategy \<Rightarrow> wid \<Rightarrow> wid list \<Rightarrow> wid list" where
  "enqueue st w ws = (case st of Fifo \<Rightarrow> ws @ [w] | Lifo \<Rightarrow> w # ws)"

lemma mset_enqueue [simp]: "mset (enqueue st w ws) = add_mset w (mset ws)"
  by (simp add: enqueue_def split: QueueStrategy.split)

lemma set_enqueue [simp]: "set (enqueue st w ws) = insert w (set ws)"
  by (metis mset_enqueue set_mset_add_mset_insert set_mset_mset)

lemma insert_waiter_eq:
  "insert_waiter_optimized q w p =
     q\<lparr>priority_queues := AList.update p
         (enqueue (resolve_strategy (config q) p) w (queue_of (priority_queues q) p)) (priority_queues q),
       active_priorities := (if queue_of (priority_queues q) p = [] then p # active_priorities q
                             else active_priorities q),
       total_waiters := total_waiters q + 1\<rparr>"
  using get_mut_or_create_queue [of "priority_queues q" p]
    get_mut_or_create_update [of p _ "priority_queues q"]
  by (auto simp: insert_waiter_optimized_def enqueue_def Let_def split: prod.split QueueStrategy.split)

lemma insert_waiter_queues:
  "queue_of (priority_queues (insert_waiter_optimized q w p)) p' =
     (if p' = p then enqueue (resolve_strategy (config q) p) w (queue_of (priority_queues q) p)
      else queue_of (priority_queues q) p')"
  by (simp add: insert_waiter_eq queue_simps)

lemma insert_waiter_frame [simp]:
  "config (insert_waiter_optimized q w p) = config q" "closed (insert_waiter_optimized q w p) = closed q"
  by (simp_all add: insert_waiter_eq)

lemma mset_all_waiters_insert:
  "distinct_keys (priority_queues q) \<Longrightarrow>
   mset (all_waiters (priority_queues (insert_waiter_optimized q w p)))
   = add_mset w (mset (all_waiters (priority_queues q)))"
  using mset_all_waiters_update [of "priority_queues q" p
      "enqueue (resolve_strategy (config q) p) w (queue_of (priority_queues q) p)"]
  by (simp add: insert_waiter_eq)

lemma queued_insert:
  "wait_queue_inv \<sigma> q \<Longrightarrow> queued (insert_waiter_optimized q w p) = insert w (queued q)"
  using arg_cong [OF mset_all_waiters_insert [of q w p], of set_mset]
  by (auto simp: queued_def wait_queue_inv_def queued_ok_def)

lemma insert_waiter_inv:
  assumes inv: "wait_queue_inv \<sigma> q" and new: "w \<notin> queued q"
    and w: "priority (\<sigma> w) = p" "is_waiting (\<sigma> w)"
  shows "wait_queue_inv \<sigma> (insert_waiter_optimized q w p)"
    and "queued (insert_waiter_optimized q w p) = insert w (queued q)"
proof -
  let ?q = "insert_waiter_optimized q w p"
  have keys: "distinct_keys (priority_queues q)"
    using inv by (auto simp: wait_queue_inv_def queued_ok_def)
  note ms = mset_all_waiters_insert [OF keys, of w p]
  show "queued ?q = insert w (queued q)"
    using arg_cong [OF ms, of set_mset] by (simp add: queued_def)
  have "distinct (all_waiters (priority_queues ?q))"
    using inv new distinct_mset_eq [of _ "w # all_waiters (priority_queues q)"] ms
    by (simp add: wait_queue_inv_def queued_ok_def queued_def)
  moreover have "length (all_waiters (priority_queues ?q)) = Suc (length (all_waiters (priority_queues q)))"
    using arg_cong [OF ms, of size] by simp
  ultimately show "wait_queue_inv \<sigma> ?q"
    using inv w keys
    by (auto simp: wait_queue_inv_def queued_ok_def insert_waiter_queues)
      (auto simp: insert_waiter_eq distinct_update)
qed

lemma push_waiter_inv:
  assumes "wait_queue_inv \<sigma> q" "next \<notin> queued q" "push_waiter n p \<sigma> next q = (w, \<sigma>', next', q')"
  shows "wait_queue_inv \<sigma>' q'" "queued q' = insert w (queued q)" "w = next"
proof -
  let ?s = "\<sigma>(next := waiter_new n p)"
  have eqs: "w = next" "\<sigma>' = ?s" "q' = insert_waiter_optimized q next p"
    using assms(3) by (auto simp: push_waiter_def waiter_handle_new_def)
  have inv: "wait_queue_inv ?s q"
    using assms(1,2) by (auto intro: wait_queue_inv_cong)
  have "is_waiting (?s next)" "priority (?s next) = p"
    by (simp_all add: is_waiting_def)
  from insert_waiter_inv [OF inv assms(2) this(2,1)]
  show "wait_queue_inv \<sigma>' q'" "queued q' = insert w (queued q)" "w = next"
    by (simp_all only: eqs)
qed

section \<open>Removal\<close>

lemma remove_waiter_inv:
  assumes inv: "wait_queue_inv \<sigma> q"
  shows "wait_queue_inv \<sigma> (remove_waiter \<sigma> w q)"
    and "queued (remove_waiter \<sigma> w q) = queued q - {w}"
proof -
  let ?m = "priority_queues q" and ?p = "priority (\<sigma> w)"
  let ?ws = "remove1 w (queue_of ?m ?p)"
  have ok: "queued_ok \<sigma> ?m" and tot: "total_waiters q = length (all_waiters ?m)"
    using inv by (simp_all add: wait_queue_inv_def)
  note keys = queued_okD(1) [OF ok]
  have sub: "mset ?ws \<subseteq># mset (queue_of ?m ?p)" by (simp add: diff_subset_eq_self)
  note shrink = all_waiters_update_shrink [OF keys sub]
  have "wait_queue_inv \<sigma> (remove_waiter \<sigma> w q) \<and> queued (remove_waiter \<sigma> w q) = queued q - {w}"
  proof (cases "w \<in> set (queue_of ?m ?p)")
    case False
    then have "w \<notin> queued q" using queued_okD(6) [OF ok] by (auto simp: queued_def)
    moreover have "remove_waiter \<sigma> w q = q"
      using False by (auto simp: remove_waiter_def Let_def queue_of_def split: option.splits)
    ultimately show ?thesis using inv by simp
  next
    case True
    then have eq: "remove_waiter \<sigma> w q =
        q\<lparr>priority_queues := AList.update ?p ?ws ?m, total_waiters := total_waiters q - 1\<rparr>"
      by (auto simp: remove_waiter_def Let_def queue_of_def split: option.splits)
    have len: "length (queue_of ?m ?p) - length ?ws = 1"
      using True length_pos_if_in_set [OF True] by (simp add: length_remove1 del: length_greater_0_conv)
    have "distinct (all_waiters (AList.update ?p ?ws ?m))"
      using shrink(1) queued_okD(2) [OF ok] by (blast intro: distinct_mset_mono)
    moreover have "queue_of ?m ?p \<noteq> []" using True by auto
    ultimately have "wait_queue_inv \<sigma> (remove_waiter \<sigma> w q)"
      using inv keys shrink(2) len tot
      by (auto simp: eq wait_queue_inv_def queued_ok_def queue_simps distinct_update
          dest: notin_set_remove1 split: if_splits)
    moreover have "queued (remove_waiter \<sigma> w q) = queued q - {w}"
    proof -
      have "mset (queue_of ?m ?p) = add_mset w (mset ?ws)" using True by simp
      then have "add_mset w (mset (all_waiters (AList.update ?p ?ws ?m))) = mset (all_waiters ?m)"
        using mset_all_waiters_update [OF keys, of ?p ?ws]
        by (metis add_right_cancel union_mset_add_mset_left union_mset_add_mset_right)
      then have ms: "mset (w # all_waiters (AList.update ?p ?ws ?m)) = mset (all_waiters ?m)"
        by simp
      have "distinct (w # all_waiters (AList.update ?p ?ws ?m))"
        using distinct_mset_eq [OF ms] queued_okD(2) [OF ok] by blast
      moreover have "set (all_waiters ?m) = insert w (set (all_waiters (AList.update ?p ?ws ?m)))"
        using arg_cong [OF ms, of set_mset] by simp
      ultimately show ?thesis by (auto simp: eq queued_def)
    qed
    ultimately show ?thesis by simp
  qed
  then show "wait_queue_inv \<sigma> (remove_waiter \<sigma> w q)" "queued (remove_waiter \<sigma> w q) = queued q - {w}"
    by simp_all
qed

section \<open>Closing\<close>

definition hash_order_ok :: "hash_order \<Rightarrow> bool" where
  "hash_order_ok h \<longleftrightarrow> (\<forall>m. mset (h m) = mset m)"

lemma drain_all_waiters_mset:
  "hash_order_ok h \<Longrightarrow> mset (fst (drain_all_waiters h m)) = mset (all_waiters m)"
proof -
  assume "hash_order_ok h"
  then have "mset (map (mset \<circ> snd) (h m)) = mset (map (mset \<circ> snd) m)"
    by (metis hash_order_ok_def mset_map)
  then have "sum_list (map (mset \<circ> snd) (h m)) = sum_list (map (mset \<circ> snd) m)"
    by (metis sum_mset_sum_list)
  then show ?thesis
    by (simp add: drain_all_waiters_def all_waiters_def mset_concat comp_def)
qed

lemma cancel_all_eq:
  "distinct ws \<Longrightarrow> cancel_all ws \<sigma> =
     ((\<lambda>w. if w \<in> set ws then fst (cancel (\<sigma> w)) else \<sigma> w),
      concat (map (\<lambda>w. snd (cancel (\<sigma> w))) ws))"
proof (induction ws arbitrary: \<sigma>)
  case (Cons w ws)
  then have "map (\<lambda>v. snd (cancel ((\<sigma>(w := c)) v))) ws = map (\<lambda>v. snd (cancel (\<sigma> v))) ws" for c
    by auto
  with Cons show ?case
    by (auto simp: Let_def split: prod.split cong: map_cong intro!: arg_cong [where f = concat])
qed simp

lemma close_queue_inv: "close_queue h \<sigma> q = (\<sigma>', q', woken) \<Longrightarrow> wait_queue_inv \<sigma>' q' \<and> queued q' = {}"
  by (auto simp: close_queue_def drain_all_waiters_def wait_queue_inv_def queued_ok_def queued_def
      split: prod.splits)

end
