(* ===== verification/Select.thy ===== *)
theory Select
  imports Queue_Inv
begin

text \<open>
  What \<open>select_waiters_to_notify\<close> does, for every queue that satisfies the invariant: it never
  panics, it serves a list of waiting waiters whose requests fit into the available permits, and the
  whole effect on the waiters, the batch and the counters is a function of that list
  (\<open>sel_after\<close>). The loops are shown to agree with it one waiter at a time.
\<close>

section \<open>The effect of serving a list of waiters\<close>

definition live :: "store \<Rightarrow> wid list \<Rightarrow> wid list" where
  "live \<sigma> ws = filter (\<lambda>w. \<not> is_cancelled (\<sigma> w)) ws"

definition notify_all :: "wid list \<Rightarrow> store \<Rightarrow> store" where
  "notify_all ws \<sigma> = (\<lambda>w. if w \<in> set ws then (\<sigma> w)\<lparr>state := NOTIFIED, waker := None\<rparr> else \<sigma> w)"

definition wakers_of :: "store \<Rightarrow> wid list \<Rightarrow> waker list" where
  "wakers_of \<sigma> ws = concat (map (\<lambda>w. wake_by_ref_under_lock (waker (\<sigma> w))) ws)"

definition need_words :: "store \<Rightarrow> wid list \<Rightarrow> usize" where
  "need_words \<sigma> ws = sum_list (map (\<lambda>w. permits_needed (\<sigma> w)) ws)"

definition needs :: "store \<Rightarrow> wid list \<Rightarrow> nat" where
  "needs \<sigma> ws = sum_list (map (\<lambda>w. unat (permits_needed (\<sigma> w))) ws)"

definition sel_after :: "wid list \<Rightarrow> nat \<Rightarrow> selection \<Rightarrow> selection" where
  "sel_after ws n s =
     \<lparr>sel_store = notify_all ws (sel_store s),
      sel_wakes = wake_list_of (wake_contents (sel_wakes s) @ wakers_of (sel_store s) ws),
      sel_avail = sel_avail s - need_words (sel_store s) ws,
      sel_assigned = sel_assigned s + need_words (sel_store s) ws,
      sel_total = sel_total s - n\<rparr>"

abbreviation sel_ok :: "selection \<Rightarrow> bool" where
  "sel_ok s \<equiv> wake_list_ok (sel_wakes s)"

named_theorems serve_simps "the list functions of a selection, by cases on the list"

lemma live_simps [serve_simps]:
  "live \<sigma> [] = []"
  "live \<sigma> (w # ws) = (if is_cancelled (\<sigma> w) then live \<sigma> ws else w # live \<sigma> ws)"
  "live \<sigma> (xs @ ys) = live \<sigma> xs @ live \<sigma> ys"
  by (simp_all add: live_def)

lemma needs_simps [serve_simps]:
  "needs \<sigma> [] = 0" "needs \<sigma> (w # ws) = unat (permits_needed (\<sigma> w)) + needs \<sigma> ws"
  "needs \<sigma> (xs @ ys) = needs \<sigma> xs + needs \<sigma> ys"
  by (simp_all add: needs_def)

lemma need_words_simps [serve_simps]:
  "need_words \<sigma> [] = 0" "need_words \<sigma> (w # ws) = permits_needed (\<sigma> w) + need_words \<sigma> ws"
  "need_words \<sigma> (xs @ ys) = need_words \<sigma> xs + need_words \<sigma> ys"
  by (simp_all add: need_words_def)

lemma wakers_of_simps [serve_simps]:
  "wakers_of \<sigma> [] = []" "wakers_of \<sigma> (w # ws) = wake_by_ref_under_lock (waker (\<sigma> w)) @ wakers_of \<sigma> ws"
  "wakers_of \<sigma> (xs @ ys) = wakers_of \<sigma> xs @ wakers_of \<sigma> ys"
  by (simp_all add: wakers_of_def)

lemma notify_all_Nil [serve_simps]: "notify_all [] \<sigma> = \<sigma>"
  by (simp add: notify_all_def)

lemma notify_all_frame [simp]:
  "permits_needed (notify_all ws \<sigma> w) = permits_needed (\<sigma> w)"
  "priority (notify_all ws \<sigma> w) = priority (\<sigma> w)"
  by (simp_all add: notify_all_def)

lemma notify_all_other [simp]: "w \<notin> set ws \<Longrightarrow> notify_all ws \<sigma> w = \<sigma> w"
  by (simp add: notify_all_def)

lemma notify_all_in [simp]:
  "w \<in> set ws \<Longrightarrow> notify_all ws \<sigma> w = (\<sigma> w)\<lparr>state := NOTIFIED, waker := None\<rparr>"
  by (simp add: notify_all_def)

lemma notify_all_append: "notify_all ys (notify_all xs \<sigma>) = notify_all (xs @ ys) \<sigma>"
  by (auto simp: notify_all_def)

lemma live_subset: "set (live \<sigma> ws) \<subseteq> set ws"
  by (auto simp: live_def)

lemma live_cong: "(\<And>w. w \<in> set ws \<Longrightarrow> \<sigma>' w = \<sigma> w) \<Longrightarrow> live \<sigma>' ws = live \<sigma> ws"
  by (auto simp: live_def intro: filter_cong)

lemma live_live [simp]: "live \<sigma> (live \<sigma> ws) = live \<sigma> ws"
  by (simp add: live_def)

lemma subseq_live: "subseq (live \<sigma> ws) ws"
  by (simp add: live_def)

lemma needs_cong: "(\<And>w. w \<in> set ws \<Longrightarrow> permits_needed (\<sigma>' w) = permits_needed (\<sigma> w)) \<Longrightarrow>
    needs \<sigma>' ws = needs \<sigma> ws"
  by (auto simp: needs_def intro!: arg_cong [where f = sum_list])

lemma needs_notify_all [simp]: "needs (notify_all xs \<sigma>) ws = needs \<sigma> ws"
  by (rule needs_cong) simp

lemma need_words_notify_all [simp]: "need_words (notify_all xs \<sigma>) ws = need_words \<sigma> ws"
  by (simp add: need_words_def)

lemma wakers_of_notify_other:
  "set xs \<inter> set ws = {} \<Longrightarrow> wakers_of (notify_all xs \<sigma>) ws = wakers_of \<sigma> ws"
  by (auto simp: wakers_of_def notify_all_def intro!: arg_cong [where f = concat])

lemma live_notify_other: "set xs \<inter> set ws = {} \<Longrightarrow> live (notify_all xs \<sigma>) ws = live \<sigma> ws"
  by (rule live_cong) (auto simp: notify_all_def)

lemma needs_filter_le: "needs \<sigma> (filter P ws) \<le> needs \<sigma> ws"
  by (induction ws) (auto simp: serve_simps)

lemma needs_member: "w \<in> set ws \<Longrightarrow> unat (permits_needed (\<sigma> w)) \<le> needs \<sigma> ws"
  by (induction ws) (auto simp: serve_simps)

lemma need_words_nat: "need_words \<sigma> ws = word_of_nat (needs \<sigma> ws)"
  by (induction ws) (auto simp: serve_simps)

lemma unat_need_words: "needs \<sigma> ws \<le> unat (a :: usize) \<Longrightarrow> unat (need_words \<sigma> ws) = needs \<sigma> ws"
  using unsigned_less [of a, where ?'a = nat] by (simp add: need_words_nat unsigned_of_nat take_bit_nat_eq_self)

lemma sel_after_sel [simp]:
  "sel_store (sel_after ws n s) = notify_all ws (sel_store s)"
  "wake_contents (sel_wakes (sel_after ws n s))
     = wake_contents (sel_wakes s) @ wakers_of (sel_store s) ws"
  "sel_total (sel_after ws n s) = sel_total s - n"
  by (simp_all add: sel_after_def)

lemma sel_after_avail:
  "needs (sel_store s) ws \<le> unat (sel_avail s) \<Longrightarrow>
   unat (sel_avail (sel_after ws n s)) = unat (sel_avail s) - needs (sel_store s) ws"
  using unat_need_words [of "sel_store s" ws "sel_avail s"]
  by (simp add: sel_after_def unat_sub word_le_nat_alt)

lemma sel_after_none: "sel_ok s \<Longrightarrow> sel_after [] n s = s\<lparr>sel_total := sel_total s - n\<rparr>"
  by (auto simp: sel_after_def serve_simps wake_list_ok_def)

lemma sel_after_zero [simp]: "sel_ok s \<Longrightarrow> sel_after [] 0 s = s"
  by (simp add: sel_after_none)

lemma sel_after_append:
  "set xs \<inter> set ys = {} \<Longrightarrow> sel_after ys k (sel_after xs n s) = sel_after (xs @ ys) (n + k) s"
  by (simp add: sel_after_def serve_simps notify_all_append wakers_of_notify_other algebra_simps)

section \<open>One waiter\<close>

lemma serve_eq:
  assumes "sel_ok s" "can_push (sel_wakes s)" "is_waiting (sel_store s w)" "0 < sel_total s"
  shows "serve w s = Some (sel_after [w] 1 s)" "sel_ok (sel_after [w] 1 s)"
proof -
  obtain ws where ws: "sel_wakes s = wake_list_of ws" "length ws < NUM_WAKERS"
    using assms(1,2) by (auto elim: wake_list_okE)
  have "(sel_store s)(w := (sel_store s w)\<lparr>state := NOTIFIED, waker := None\<rparr>)
      = notify_all [w] (sel_store s)"
    by auto
  then have "notify_waiter w (sel_store s) (sel_wakes s) =
      Some (notify_all [w] (sel_store s), wake_list_of (ws @ wakers_of (sel_store s) [w]))"
    using assms(3) ws
    by (auto simp: notify_waiter_def try_notify_cases take_waker_eq push_unchecked_eq_push push_of
        serve_simps wake_by_ref_under_lock_def split: option.splits)
  then show "serve w s = Some (sel_after [w] 1 s)"
    using assms(4) by (simp add: serve_def count_out_def Let_def sel_after_def ws serve_simps)
  show "sel_ok (sel_after [w] 1 s)"
    using ws by (auto simp: sel_after_def serve_simps wake_by_ref_under_lock_def split: option.split)
qed

section \<open>One queue\<close>

definition consumed :: "wid list \<Rightarrow> selection \<Rightarrow> wid list \<Rightarrow> wid list \<Rightarrow> selection \<Rightarrow> bool" where
  "consumed q s pre post s' \<longleftrightarrow> q = pre @ post \<and> sel_ok s' \<and>
     s' = sel_after (live (sel_store s) pre) (length pre) s \<and>
     needs (sel_store s) (live (sel_store s) pre) \<le> unat (sel_avail s)"

lemma consumed_stop: "sel_ok s \<Longrightarrow> consumed q s [] q s"
  by (simp add: consumed_def serve_simps)

lemma consumed_cancelled:
  assumes "sel_ok s" "is_cancelled (sel_store s w)"
    and "consumed q (s\<lparr>sel_total := sel_total s - 1\<rparr>) pre post s'"
  shows "consumed (w # q) s (w # pre) post s'"
  using assms by (auto simp: consumed_def serve_simps sel_after_def)

lemma consumed_serve:
  assumes "is_waiting (sel_store s w)" "permits_needed (sel_store s w) \<le> sel_avail s"
    and "w \<notin> set q" "consumed q (sel_after [w] 1 s) pre post s'"
  shows "consumed (w # q) s (w # pre) post s'"
proof -
  have w: "w \<notin> set pre" "set [w] \<inter> set (live (sel_store s) pre) = {}" "set [w] \<inter> set pre = {}"
    using assms(3,4) by (auto simp: consumed_def live_def)
  note [simp] = live_notify_other [OF w(3)]
  have live: "live (sel_store s) (w # pre) = w # live (sel_store s) pre"
    using assms(1) by (simp add: serve_simps waiter_tests)
  have "needs (sel_store s) [w] \<le> unat (sel_avail s)"
    using assms(2) by (simp add: serve_simps word_le_nat_alt)
  from sel_after_avail [OF this, of 1] assms w live this show ?thesis
    by (auto simp: consumed_def serve_simps sel_after_append)
qed

text \<open>The two loops differ only in the order of their tests, hence in when they stop.\<close>

definition queued_states :: "store \<Rightarrow> wid list \<Rightarrow> bool" where
  "queued_states \<sigma> q \<longleftrightarrow> distinct q \<and> (\<forall>w \<in> set q. is_waiting (\<sigma> w) \<or> is_cancelled (\<sigma> w))"

lemma queued_states_Cons:
  assumes "queued_states (sel_store s) (w # q)"
  shows "queued_states (sel_store s) q" "w \<notin> set q"
    and "queued_states (sel_store (sel_after [w] 1 s)) q"
    and "\<not> is_cancelled (sel_store s w) \<Longrightarrow> is_waiting (sel_store s w)"
  using assms by (auto simp: queued_states_def notify_all_def)

lemma process_single_spec:
  assumes "sel_ok s" "queued_states (sel_store s) q" "length q \<le> sel_total s"
  shows "\<exists>pre post s'. process_single_priority_fast q s = Some (post, s') \<and>
    consumed q s pre post s' \<and>
    (post = [] \<or> \<not> can_push (sel_wakes s') \<or> sel_avail s' = 0 \<or>
     (\<not> is_cancelled (sel_store s (hd post)) \<and> permits_needed (sel_store s (hd post)) > sel_avail s'))"
  using assms
proof (induction q s rule: process_single_priority_fast.induct)
  case (1 s)
  then show ?case by (auto intro: consumed_stop)
next
  case (2 w q s)
  note qs = queued_states_Cons [OF "2.prems"(2)]
  consider (stop) "\<not> can_push (sel_wakes s) \<or> sel_avail s = 0"
    | (cancelled) "can_push (sel_wakes s)" "sel_avail s \<noteq> 0" "is_cancelled (sel_store s w)"
    | (large) "can_push (sel_wakes s)" "sel_avail s \<noteq> 0" "\<not> is_cancelled (sel_store s w)"
        "permits_needed (sel_store s w) > sel_avail s"
    | (serve) "can_push (sel_wakes s)" "sel_avail s \<noteq> 0" "\<not> is_cancelled (sel_store s w)"
        "permits_needed (sel_store s w) \<le> sel_avail s"
    by fastforce
  then show ?case
  proof cases
    case cancelled
    with "2.IH"(1) "2.prems"(1,3) qs(1) obtain pre post s' where
      "process_single_priority_fast q (s\<lparr>sel_total := sel_total s - 1\<rparr>) = Some (post, s')"
      "consumed q (s\<lparr>sel_total := sel_total s - 1\<rparr>) pre post s'"
      "post = [] \<or> \<not> can_push (sel_wakes s') \<or> sel_avail s' = 0 \<or>
       (\<not> is_cancelled (sel_store s (hd post)) \<and> permits_needed (sel_store s (hd post)) > sel_avail s')"
      by (fastforce simp: count_out_def)
    with cancelled consumed_cancelled [OF "2.prems"(1)] "2.prems"(3) show ?thesis
      by (fastforce simp: count_out_def)
  next
    case serve
    have total: "0 < sel_total s" using "2.prems"(3) by simp
    note sv = serve_eq [OF "2.prems"(1) serve(1) qs(4) [OF serve(3)] total]
    from "2.IH"(2) "2.prems"(1,3) serve sv qs(3) obtain pre post s' where IH:
      "process_single_priority_fast q (sel_after [w] 1 s) = Some (post, s')"
      "consumed q (sel_after [w] 1 s) pre post s'"
      "post = [] \<or> \<not> can_push (sel_wakes s') \<or> sel_avail s' = 0 \<or>
       (\<not> is_cancelled (sel_store (sel_after [w] 1 s) (hd post)) \<and>
        permits_needed (sel_store (sel_after [w] 1 s) (hd post)) > sel_avail s')"
      by fastforce
    have "hd post \<noteq> w" if "post \<noteq> []"
      using that IH(2) qs(2) by (cases post) (auto simp: consumed_def)
    with IH serve sv consumed_serve [OF qs(4) [OF serve(3)] serve(4) qs(2)] show ?thesis
      by fastforce
  qed (use "2.prems"(1) in \<open>auto intro: consumed_stop\<close>)
qed

end
