(* ===== verification/Schedule.thy ===== *)
theory Schedule
  imports Select
begin

text \<open>
  The general case of a selection, over several priorities: what the loop over one queue and the
  loop over the heap of active priorities do to the map of queues, in which order they serve, and
  when they stop. The last section puts both cases of \<open>select_waiters_to_notify\<close> under one
  specification, \<open>schedule\<close>.
\<close>

section \<open>The loop over one queue\<close>

lemma process_queue_spec:
  assumes "sel_ok s" "queued_states (sel_store s) q" "length q \<le> sel_total s"
  shows "\<exists>pre post s'. process_queue q s b = Some (post, s', b \<or> live (sel_store s) pre \<noteq> []) \<and>
    consumed q s pre post s' \<and>
    (post = [] \<or> \<not> can_push (sel_wakes s') \<or> sel_avail s' = 0 \<or>
     permits_needed (sel_store s (hd post)) > sel_avail s')"
  using assms
proof (induction q s b rule: process_queue.induct)
  case (1 s b)
  then show ?case by (auto intro!: exI [of _ "[]"] consumed_stop simp: serve_simps)
next
  case (2 w q s b)
  note qs = queued_states_Cons [OF "2.prems"(2)]
  consider (stop) "\<not> can_push (sel_wakes s) \<or> sel_avail s = 0 \<or> permits_needed (sel_store s w) > sel_avail s"
    | (cancelled) "can_push (sel_wakes s)" "sel_avail s \<noteq> 0" "is_cancelled (sel_store s w)"
        "permits_needed (sel_store s w) \<le> sel_avail s"
    | (serve) "can_push (sel_wakes s)" "sel_avail s \<noteq> 0" "\<not> is_cancelled (sel_store s w)"
        "permits_needed (sel_store s w) \<le> sel_avail s"
    by fastforce
  then show ?case
  proof cases
    case stop
    then have "process_queue (w # q) s b = Some (w # q, s, b)" by auto
    with stop consumed_stop [OF "2.prems"(1), of "w # q"] show ?thesis
      by (intro exI [of _ "[]"] exI [of _ "w # q"] exI [of _ s]) (auto simp: serve_simps)
  next
    case cancelled
    with "2.IH"(1) "2.prems"(1,3) qs(1) obtain pre post s' where
      "process_queue q (s\<lparr>sel_total := sel_total s - 1\<rparr>) b
         = Some (post, s', b \<or> live (sel_store s) pre \<noteq> [])"
      "consumed q (s\<lparr>sel_total := sel_total s - 1\<rparr>) pre post s'"
      "post = [] \<or> \<not> can_push (sel_wakes s') \<or> sel_avail s' = 0 \<or>
       permits_needed (sel_store s (hd post)) > sel_avail s'"
      by (fastforce simp: count_out_def)
    with cancelled consumed_cancelled [OF "2.prems"(1), of w q pre post s'] "2.prems"(3) show ?thesis
      by (intro exI [of _ "w # pre"] exI [of _ post] exI [of _ s']) (auto simp: serve_simps count_out_def)
  next
    case serve
    have total: "0 < sel_total s" using "2.prems"(3) by simp
    note sv = serve_eq [OF "2.prems"(1) serve(1) qs(4) [OF serve(3)] total]
    from "2.IH"(2) "2.prems"(1,3) serve sv qs(3) obtain pre post s' where IH:
      "process_queue q (sel_after [w] 1 s) True = Some (post, s', True)"
      "consumed q (sel_after [w] 1 s) pre post s'"
      "post = [] \<or> \<not> can_push (sel_wakes s') \<or> sel_avail s' = 0 \<or>
       permits_needed (sel_store (sel_after [w] 1 s) (hd post)) > sel_avail s'"
      by fastforce
    from serve IH(1) sv have "process_queue (w # q) s b = Some (post, s', True)" by (auto dest: leD)
    with IH serve consumed_serve [OF qs(4) [OF serve(3)] serve(4) qs(2) IH(2)] show ?thesis
      by (intro exI [of _ "w # pre"] exI [of _ post] exI [of _ s']) (auto simp: serve_simps)
  qed
qed

lemma live_after_consumed:
  assumes "queued_states (sel_store s) q" "consumed q s pre post s'"
  shows "live (sel_store s') post = live (sel_store s) post"
  using assms live_subset [of "sel_store s" pre]
  by (auto simp: consumed_def queued_states_def intro!: live_notify_other)

lemma process_priority_spec:
  assumes "sel_ok s" "queued_states (sel_store s) q" "length q \<le> sel_total s"
  shows "\<exists>pre post s1 s'. consumed q s pre post s1 \<and>
    process_priority q s = Some (live (sel_store s) post, s', live (sel_store s) pre \<noteq> []) \<and>
    s' = sel_after (live (sel_store s) pre) (length q - length (live (sel_store s) post)) s \<and>
    sel_ok s' \<and>
    (post = [] \<or> \<not> can_push (sel_wakes s') \<or> sel_avail s' = 0 \<or>
     permits_needed (sel_store s (hd post)) > sel_avail s')"
proof -
  from process_queue_spec [OF assms, of False] obtain pre post s1 where *:
    "process_queue q s False = Some (post, s1, live (sel_store s) pre \<noteq> [])"
    "consumed q s pre post s1"
    "post = [] \<or> \<not> can_push (sel_wakes s1) \<or> sel_avail s1 = 0 \<or>
     permits_needed (sel_store s (hd post)) > sel_avail s1"
    by auto
  let ?l = "live (sel_store s) post"
  let ?s = "sel_after (live (sel_store s) pre) (length q - length ?l) s"
  have q: "q = pre @ post" and s1: "s1 = sel_after (live (sel_store s) pre) (length pre) s"
    using *(2) by (auto simp: consumed_def)
  have l: "filter (\<lambda>w. \<not> is_cancelled (sel_store s1 w)) post = ?l"
    using live_after_consumed [OF assms(2) *(2)] by (simp add: live_def)
  have le: "length ?l \<le> length post" by (simp add: live_def)
  have "s1\<lparr>sel_total := sel_total s1 - (length post - length ?l)\<rparr> = ?s"
    using le q by (simp add: s1 sel_after_def)
  moreover have "length post - length ?l \<le> sel_total s1"
    using assms(3) q by (simp add: s1 sel_after_def)
  ultimately have pp: "process_priority q s = Some (?l, ?s, live (sel_store s) pre \<noteq> [])"
    using *(1) l by (simp add: process_priority_def Let_def)
  have "sel_wakes ?s = sel_wakes s1" "sel_avail ?s = sel_avail s1"
    by (simp_all add: s1 sel_after_def)
  moreover have "sel_ok s1" using *(2) unfolding consumed_def by blast
  ultimately show ?thesis
    using pp *(2,3) by (intro exI [of _ pre] exI [of _ post] exI [of _ s1] exI [of _ ?s]) simp
qed

section \<open>From queues to the map of queues\<close>

text \<open>
  \<open>selected m s ws m' s'\<close>: serving \<open>ws\<close>, in that order, takes the map and the locals
  from \<open>m\<close>, \<open>s\<close> to \<open>m'\<close>, \<open>s'\<close>. Of each queue a prefix of its live waiters is
  served; the rest of the live ones stay, in order; beside the served ones only cancelled waiters
  disappear.
\<close>

definition selected :: "priority_queues \<Rightarrow> selection \<Rightarrow> wid list \<Rightarrow> priority_queues \<Rightarrow> selection \<Rightarrow> bool" where
  "selected m s ws m' s' \<longleftrightarrow>
     s' = sel_after ws (length (all_waiters m) - length (all_waiters m')) s \<and> sel_ok s' \<and>
     needs (sel_store s) ws \<le> unat (sel_avail s) \<and>
     distinct ws \<and> set ws \<subseteq> set (all_waiters m) - set (all_waiters m') \<and>
     (\<forall>w \<in> set ws. is_waiting (sel_store s w)) \<and>
     distinct_keys m' \<and> mset (all_waiters m') \<subseteq># mset (all_waiters m) \<and>
     (\<forall>p. live (sel_store s) (queue_of m p) =
        filter (\<lambda>w. priority (sel_store s w) = p) ws @ live (sel_store s) (queue_of m' p)) \<and>
     (\<forall>p. subseq (queue_of m' p) (queue_of m p))"

lemma selectedD:
  assumes "selected m s ws m' s'"
  shows "sel_store s' = notify_all ws (sel_store s)" "sel_ok s'"
    and "needs (sel_store s) ws \<le> unat (sel_avail s)"
    and "set ws \<subseteq> set (all_waiters m)" "set ws \<inter> set (all_waiters m') = {}"
    and "set (all_waiters m') \<subseteq> set (all_waiters m)"
    and "length (all_waiters m') \<le> length (all_waiters m)"
    and "set (queue_of m' p) \<subseteq> set (queue_of m p)"
    and "unat (sel_avail s') = unat (sel_avail s) - needs (sel_store s) ws"
  using assms set_mset_mono [of "mset (all_waiters m')" "mset (all_waiters m)"]
    size_mset_mono [of "mset (all_waiters m')" "mset (all_waiters m)"]
  by (auto simp: selected_def sel_after_avail dest!: spec [of _ p] subseq_set)

lemma selected_refl: "distinct_keys m \<Longrightarrow> sel_ok s \<Longrightarrow> selected m s [] m s"
  by (simp add: selected_def serve_simps)

lemma selected_queued_ok:
  assumes "queued_ok (sel_store s) m" "selected m s ws m' s'"
  shows "queued_ok (sel_store s') m'"
proof -
  have "distinct (all_waiters m')"
    using assms by (auto simp: selected_def queued_ok_def intro: distinct_mset_mono)
  moreover have "sel_store s' w = sel_store s w" if "w \<in> set (queue_of m' p)" for w p
    using that selectedD(1,5) [OF assms(2)] queue_of_subset [of m' p] by (auto simp: notify_all_def)
  ultimately show ?thesis
    using assms selectedD(8) [OF assms(2)] by (auto simp: selected_def queued_ok_def) (metis subsetD)+
qed

lemma live_queue_after:
  assumes "selected m s ws m' s'" "set xs \<subseteq> set (all_waiters m')"
  shows "live (sel_store s') xs = live (sel_store s) xs"
  using assms selectedD(1,5) [OF assms(1)] by (auto intro!: live_notify_other)

lemma selected_trans:
  assumes "selected m s ws m1 s1" "selected m1 s1 vs m2 s2"
  shows "selected m s (ws @ vs) m2 s2"
proof -
  note A = selectedD [OF assms(1)] and B = selectedD [OF assms(2)]
  have dis: "set ws \<inter> set vs = {}" using A(5) B(4) by blast
  have same: "sel_store s1 w = sel_store s w" if "w \<in> set (all_waiters m1)" for w
    using that A(1,5) by (auto simp: notify_all_def)
  have "s2 = sel_after (ws @ vs) (length (all_waiters m) - length (all_waiters m2)) s"
    using assms A(7) B(7) dis by (simp add: selected_def sel_after_append)
  moreover have "needs (sel_store s) (ws @ vs) \<le> unat (sel_avail s)"
    using A(1,3,9) B(3) by (simp add: serve_simps)
  moreover have "live (sel_store s) (queue_of m p) =
      filter (\<lambda>w. priority (sel_store s w) = p) (ws @ vs) @ live (sel_store s) (queue_of m2 p)" for p
    using assms live_queue_after [OF assms(1), of "queue_of m1 p"]
      live_queue_after [OF assms(1), of "queue_of m2 p"] queue_of_subset [of m1 p]
      queue_of_subset [of m2 p] B(6) A(1)
    by (simp add: selected_def)
  moreover have "is_waiting (sel_store s w)" if "w \<in> set (ws @ vs)" for w
  proof (cases "w \<in> set ws")
    case True
    with assms(1) show ?thesis by (simp add: selected_def)
  next
    case False
    with that have w: "w \<in> set vs" by simp
    with assms(2) have "is_waiting (sel_store s1 w)" by (simp add: selected_def)
    with same [of w] w B(4) show ?thesis by auto
  qed
  ultimately show ?thesis
    using assms A(4,6) B(4,6) dis
    by (auto simp: selected_def intro: subset_mset.order_trans subseq_order.order_trans)
qed

text \<open>Serving from one queue, whose rest \<open>q'\<close> is put back into the map \<open>m'\<close>.\<close>

lemma selected_one:
  assumes ok: "queued_ok (sel_store s) m" and c: "consumed (queue_of m p) s pre post s1"
    and q': "q' = post \<or> q' = live (sel_store s) post"
    and m': "distinct_keys m'" "\<And>p'. queue_of m' p' = (if p' = p then q' else queue_of m p')"
    and ms: "mset (all_waiters m') + mset (queue_of m p) = mset (all_waiters m) + mset q'"
    and s': "s' = sel_after (live (sel_store s) pre) (length (queue_of m p) - length q') s" "sel_ok s'"
  shows "selected m s (live (sel_store s) pre) m' s'"
proof -
  let ?ws = "live (sel_store s) pre"
  have q: "queue_of m p = pre @ post" and n: "needs (sel_store s) ?ws \<le> unat (sel_avail s)"
    using c by (auto simp: consumed_def)
  have dq: "distinct (pre @ post)" using queued_okD(3) [OF ok, of p] q by simp
  have q'2: "subseq q' post" "live (sel_store s) q' = live (sel_store s) post"
    using q' by (auto simp: subseq_live)
  have sub: "subseq q' (queue_of m p)"
    using q'2(1) by (simp add: q subseq_drop_many)
  then have le: "mset q' \<subseteq># mset (queue_of m p)"
    by (rule subseq_mset)
  have all: "mset (all_waiters m') \<subseteq># mset (all_waiters m)"
    using ms le by (metis mset_subset_eq_mono_add_right_cancel mset_subset_eq_mono_add_left_cancel)
  have len: "length (all_waiters m) - length (all_waiters m') = length (queue_of m p) - length q'"
    using arg_cong [OF ms, of size] size_mset_mono [OF le] by simp
  have prio: "priority (sel_store s w) = p" if "w \<in> set (queue_of m p)" for w
    using queued_okD(4) [OF ok that] .
  have ws: "set ?ws \<subseteq> set (queue_of m p)" "distinct ?ws" "set ?ws \<inter> set q' = {}"
    using q live_subset [of "sel_store s" pre] dq subseq_set [OF q'2(1)]
    by (auto simp: live_def)
  have "w \<notin> set (all_waiters m')" if w: "w \<in> set ?ws" for w
  proof
    assume "w \<in> set (all_waiters m')"
    then obtain p' where p': "w \<in> set (queue_of m' p')" by (auto simp: set_all_waiters [OF m'(1)])
    show False
    proof (cases "p' = p")
      case True
      with p' w ws(3) show False by (auto simp: m'(2))
    next
      case False
      with p' queued_okD(4) [OF ok, of w p'] prio [of w] w ws(1) show False
        by (auto simp: m'(2))
    qed
  qed
  moreover have "is_waiting (sel_store s w)" if "w \<in> set ?ws" for w
    using that queued_okD(5) [OF ok, of w] ws(1) queue_of_subset [of m p] by (auto simp: live_def)
  moreover have "live (sel_store s) (queue_of m p') =
      filter (\<lambda>w. priority (sel_store s w) = p') ?ws @ live (sel_store s) (queue_of m' p')" for p'
  proof -
    have "filter (\<lambda>w. priority (sel_store s w) = p') ?ws = (if p' = p then ?ws else [])"
      using ws(1) prio by (auto simp: filter_id_conv filter_empty_conv)
    then show ?thesis using q q'2(2) by (simp add: m'(2) serve_simps)
  qed
  ultimately show ?thesis
    using s' n ws queue_of_subset [of m p] m' all len sub
    by (auto simp: selected_def)
qed

section \<open>The loop over priorities\<close>

text \<open>
  Where a selection that has served \<open>ws\<close> stands in the queue of a priority: at \<open>z\<close>, before which all live
  waiters have been served, and from which on none has.
\<close>

definition stands :: "store \<Rightarrow> priority_queues \<Rightarrow> wid list \<Rightarrow> isize \<Rightarrow> wid \<Rightarrow> bool" where
  "stands \<sigma> m ws p z \<longleftrightarrow> (\<exists>pre post. queue_of m p = pre @ z # post \<and>
     live \<sigma> pre = filter (\<lambda>w. priority (\<sigma> w) = p) ws)"

lemma stands_in: "stands \<sigma> m ws p z \<Longrightarrow> z \<in> set (queue_of m p)"
  by (auto simp: stands_def)

lemma stands_cong:
  assumes "stands \<sigma>1 m ws p z" "\<And>w. w \<in> set (queue_of m p) \<Longrightarrow> \<sigma>1 w = \<sigma> w" "\<And>w. priority (\<sigma>1 w) = priority (\<sigma> w)"
  shows "stands \<sigma> m ws p z"
proof -
  obtain pre post where q: "queue_of m p = pre @ z # post" "live \<sigma>1 pre = filter (\<lambda>w. priority (\<sigma>1 w) = p) ws"
    using assms(1) by (auto simp: stands_def)
  moreover have "live \<sigma>1 pre = live \<sigma> pre" using q(1) assms(2) by (intro live_cong) auto
  ultimately show ?thesis using assms(3) by (auto simp: stands_def)
qed

lemma filter_split: "filter P xs = as @ z # bs \<Longrightarrow> \<exists>us vs. xs = us @ z # vs \<and> filter P us = as"
proof (induction xs arbitrary: as)
  case (Cons x xs)
  show ?case
  proof (cases "P x")
    case False
    with Cons show ?thesis by (force intro: exI [of _ "x # _"])
  next
    case True
    show ?thesis
    proof (cases as)
      case Nil
      with Cons.prems True show ?thesis by (intro exI [of _ "[]"] exI [of _ xs]) simp
    next
      case (Cons a as')
      with Cons.prems True have "x = a" "filter P xs = as' @ z # bs" by simp_all
      with Cons.IH obtain us vs where "xs = us @ z # vs" "filter P us = as'" by blast
      with \<open>x = a\<close> True Cons show ?thesis by (intro exI [of _ "a # us"] exI [of _ vs]) simp
    qed
  qed
qed simp

text \<open>Where it stands after it has served more, from what an earlier round has left of the queue.\<close>

lemma stands_later:
  assumes st: "stands \<sigma> m1 vs p z" and m: "queue_of m p = pre @ post"
    and m1: "queue_of m1 p = post \<or> queue_of m1 p = live \<sigma> post"
    and ws: "filter (\<lambda>w. priority (\<sigma> w) = p) ws = live \<sigma> pre"
  shows "stands \<sigma> m (ws @ vs) p z"
proof -
  obtain a b where q: "queue_of m1 p = a @ z # b" "live \<sigma> a = filter (\<lambda>w. priority (\<sigma> w) = p) vs"
    using st by (auto simp: stands_def)
  obtain a' b' where "post = a' @ z # b'" "live \<sigma> a' = live \<sigma> a"
  proof (cases "queue_of m1 p = post")
    case True
    with q(1) that show ?thesis by metis
  next
    case False
    with m1 q(1) have "live \<sigma> post = a @ z # b" by simp
    then obtain a' b' where "post = a' @ z # b'" "live \<sigma> a' = a" unfolding live_def by (metis filter_split)
    moreover from this(2) have "live \<sigma> a' = live \<sigma> a" using live_live by metis
    ultimately show ?thesis using that by blast
  qed
  then have "queue_of m p = (pre @ a') @ z # b'" "live \<sigma> (pre @ a') = filter (\<lambda>w. priority (\<sigma> w) = p) (ws @ vs)"
    using m q(2) ws by (simp_all add: serve_simps)
  then show ?thesis unfolding stands_def by blast
qed

text \<open>
  When a lower priority is served although a waiter of a higher one stays behind, the selection stands
  in the higher queue at a request larger than everything the lower priorities got plus what is left.
\<close>

definition overtaking_blocked ::
  "store \<Rightarrow> priority_queues \<Rightarrow> isize set \<Rightarrow> wid list \<Rightarrow> priority_queues \<Rightarrow> usize \<Rightarrow> bool" where
  "overtaking_blocked \<sigma> m ps ws m' left \<longleftrightarrow>
     (\<forall>p \<in> ps. \<forall>x \<in> set ws. live \<sigma> (queue_of m' p) \<noteq> [] \<longrightarrow> priority (\<sigma> x) < p \<longrightarrow>
       (\<exists>z. stands \<sigma> m ws p z \<and> unat (permits_needed (\<sigma> z)) >
          unat left + needs \<sigma> (filter (\<lambda>x. priority (\<sigma> x) < p) ws)))"

text \<open>
  Why a selection ends: no permits, a full batch, or for every live waiter left the request at which the
  selection stands in its queue, or in one of higher priority from which it has gone no further, is too large.
\<close>

definition exhausted ::
  "store \<Rightarrow> priority_queues \<Rightarrow> isize set \<Rightarrow> wid list \<Rightarrow> priority_queues \<Rightarrow> selection \<Rightarrow> bool" where
  "exhausted \<sigma> m ps ws m' s' \<longleftrightarrow> sel_avail s' = 0 \<or> \<not> can_push (sel_wakes s') \<or>
     (\<forall>p \<in> ps. live \<sigma> (queue_of m' p) \<noteq> [] \<longrightarrow>
       (\<exists>p1 \<in> ps. \<exists>z. p \<le> p1 \<and> stands \<sigma> m ws p1 z \<and> permits_needed (\<sigma> z) > sel_avail s' \<and>
         (p1 = p \<or> (\<forall>v \<in> set ws. p1 \<le> priority (\<sigma> v)))))"

definition schedule ::
  "priority_queues \<Rightarrow> isize set \<Rightarrow> selection \<Rightarrow> wid list \<Rightarrow> priority_queues \<Rightarrow> selection \<Rightarrow> bool" where
  "schedule m ps s ws m' s' \<longleftrightarrow> selected m s ws m' s' \<and>
     (\<forall>w \<in> set ws. priority (sel_store s w) \<in> ps) \<and>
     sorted_wrt (\<lambda>v w. priority (sel_store s w) \<le> priority (sel_store s v)) ws \<and>
     overtaking_blocked (sel_store s) m ps ws m' (sel_avail s') \<and>
     exhausted (sel_store s) m ps ws m' s'"

lemma schedule_stop:
  assumes "distinct_keys m" "sel_ok s"
    and "sel_avail s = 0 \<or> \<not> can_push (sel_wakes s) \<or> (\<forall>p \<in> ps. queue_of m p = []) \<or>
      (\<exists>p z rest. p \<in> ps \<and> (\<forall>p' \<in> ps. p' \<le> p) \<and> queue_of m p = z # rest \<and>
        permits_needed (sel_store s z) > sel_avail s)"
  shows "schedule m ps s [] m s"
proof -
  have st: "stands (sel_store s) m [] p z" if "queue_of m p = z # rest" for p z rest
    using that by (auto simp: stands_def serve_simps intro: exI [of _ "[]"])
  have "exhausted (sel_store s) m ps [] m s"
    using assms(3)
  proof (elim disjE)
    assume "\<exists>p z rest. p \<in> ps \<and> (\<forall>p' \<in> ps. p' \<le> p) \<and> queue_of m p = z # rest \<and>
        permits_needed (sel_store s z) > sel_avail s"
    then obtain p z rest where "p \<in> ps" "\<forall>p' \<in> ps. p' \<le> p" "queue_of m p = z # rest"
      "permits_needed (sel_store s z) > sel_avail s" by blast
    with st [of p z rest] show ?thesis by (auto simp: exhausted_def)
  qed (auto simp: exhausted_def serve_simps)
  then show ?thesis
    using assms(1,2) selected_refl [of m s] by (simp add: schedule_def overtaking_blocked_def)
qed

lemma selected_unchanged: "selected m s ws m s' \<Longrightarrow> ws = []"
  using selectedD(4,5) [of m s ws m s'] by (metis Int_absorb2 set_empty)

lemma schedule_skip:
  assumes "queue_of m p = []" "schedule m ps s ws m' s'"
  shows "schedule m (insert p ps) s ws m' s'"
proof -
  have "queue_of m' p = []"
    using assms selectedD(8) [of m s ws m' s' p] by (auto simp: schedule_def)
  with assms(2) show ?thesis
    by (auto simp: schedule_def exhausted_def overtaking_blocked_def serve_simps)
qed

lemma schedule_step:
  assumes A: "selected m s ws m1 s1" "ws = live (sel_store s) pre" "\<And>w. w \<in> set ws \<Longrightarrow> priority (sel_store s w) = p"
    and q: "queue_of m p = pre @ post" "queue_of m1 p = post \<or> queue_of m1 p = live (sel_store s) post"
    and others: "\<And>p'. p' \<noteq> p \<Longrightarrow> queue_of m1 p' = queue_of m p'"
    and B: "schedule m1 ps s1 vs m2 s2" "\<And>p'. p' \<in> ps \<Longrightarrow> p' \<le> p"
    and stop: "post = [] \<or> permits_needed (sel_store s (hd post)) > sel_avail s1 \<or>
      (vs = [] \<and> (\<not> can_push (sel_wakes s2) \<or> sel_avail s2 = 0))"
  shows "schedule m (insert p ps) s (ws @ vs) m2 s2"
proof -
  let ?\<sigma> = "sel_store s" and ?\<sigma>1 = "sel_store s1"
  have selB: "selected m1 s1 vs m2 s2" using B(1) by (simp add: schedule_def)
  note DA = selectedD [OF A(1)] and DB = selectedD [OF selB]
  have same: "?\<sigma>1 w = ?\<sigma> w" if "w \<in> set (all_waiters m1)" for w
    using that DA(1,5) by (auto simp: notify_all_def)
  have live2: "live ?\<sigma>1 (queue_of m2 p') = live ?\<sigma> (queue_of m2 p')" for p'
    using DB(6) queue_of_subset [of m2 p'] by (intro live_cong same) auto
  have pr: "priority (?\<sigma>1 w) = priority (?\<sigma> w)" for w by (simp add: DA(1))
  have left: "unat (sel_avail s1) = unat (sel_avail s2) + needs ?\<sigma> vs"
    using DB(3,9) by (simp add: DA(1))
  have "set (queue_of m1 p) \<subseteq> set post"
    using q(2) live_subset [of ?\<sigma> post] by (elim disjE) simp_all
  with DB(8) [of p] have m2p: "set (queue_of m2 p) \<subseteq> set post" by (rule order_trans)
  have prio_vs: "priority (?\<sigma> w) \<in> ps" if "w \<in> set vs" for w
    using that B(1) DA(1) by (simp add: schedule_def)
  have fws: "filter (\<lambda>w. priority (?\<sigma> w) = p') ws = (if p' = p then ws else [])" for p'
    using A(3) by (auto simp: filter_id_conv filter_empty_conv)
  have later: "stands ?\<sigma> m (ws @ vs) p' z" if "stands ?\<sigma>1 m1 vs p' z" for p' z
  proof -
    have st: "stands ?\<sigma> m1 vs p' z"
      using that pr same queue_of_subset [of m1 p'] by (intro stands_cong [OF that]) auto
    show ?thesis
    proof (cases "p' = p")
      case True
      with stands_later [OF st, of m pre post ws] q fws A(2) show ?thesis by simp
    next
      case False
      with stands_later [OF st, of m "[]" "queue_of m p'" ws] others fws show ?thesis by (simp add: serve_simps)
    qed
  qed
  have here: "stands ?\<sigma> m (ws @ vs) p (hd post)" if "post \<noteq> []" "p \<notin> ps"
  proof -
    have "filter (\<lambda>w. priority (?\<sigma> w) = p) (ws @ vs) = live ?\<sigma> pre"
      using fws [of p] A(2) prio_vs that(2) by (auto simp: filter_empty_conv)
    with q(1) that(1) show ?thesis unfolding stands_def by (metis list.collapse)
  qed
  have "sorted_wrt (\<lambda>v w. priority (?\<sigma> w) \<le> priority (?\<sigma> v)) (ws @ vs)"
  proof (rule sorted_wrt_appendI)
    show "sorted_wrt (\<lambda>v w. priority (?\<sigma> w) \<le> priority (?\<sigma> v)) ws"
      using A(3) by (intro sorted_wrt_all) simp
    show "sorted_wrt (\<lambda>v w. priority (?\<sigma> w) \<le> priority (?\<sigma> v)) vs"
      using B(1) by (simp add: schedule_def DA(1))
  qed (use A(3) B(2) prio_vs in auto)
  moreover have "overtaking_blocked ?\<sigma> m (insert p ps) (ws @ vs) m2 (sel_avail s2)"
    unfolding overtaking_blocked_def
  proof (intro ballI impI)
    fix p' x
    assume p': "p' \<in> insert p ps" and x: "x \<in> set (ws @ vs)"
      and l: "live ?\<sigma> (queue_of m2 p') \<noteq> []" and lt: "priority (?\<sigma> x) < p'"
    from p' B(2) have "p' \<le> p" by auto
    then have x_vs: "x \<in> set vs" and filt: "filter (\<lambda>x. priority (?\<sigma> x) < p') ws = []"
      using A(3) x lt by (auto simp: filter_empty_conv)
    show "\<exists>z. stands ?\<sigma> m (ws @ vs) p' z \<and> unat (permits_needed (?\<sigma> z)) >
        unat (sel_avail s2) + needs ?\<sigma> (filter (\<lambda>x. priority (?\<sigma> x) < p') (ws @ vs))"
    proof (cases "p' \<in> ps")
      case True
      then obtain z where "stands ?\<sigma>1 m1 vs p' z" "unat (permits_needed (?\<sigma>1 z)) >
          unat (sel_avail s2) + needs ?\<sigma>1 (filter (\<lambda>x. priority (?\<sigma>1 x) < p') vs)"
        using B(1) l lt x_vs by (fastforce simp: schedule_def overtaking_blocked_def live2 pr)
      with later filt show ?thesis by (auto simp: DA(1))
    next
      case False
      with p' have [simp]: "p' = p" by simp
      have "post \<noteq> []" using l m2p live_subset [of ?\<sigma> "queue_of m2 p"] by auto
      moreover from this stop x_vs have "unat (permits_needed (?\<sigma> (hd post))) > unat (sel_avail s1)"
        by (auto simp: word_less_nat_alt)
      ultimately show ?thesis
        using here False left filt needs_filter_le [of ?\<sigma> "\<lambda>x. priority (?\<sigma> x) < p" vs]
        by (intro exI [of _ "hd post"]) (auto simp: serve_simps)
    qed
  qed
  moreover have "exhausted ?\<sigma> m (insert p ps) (ws @ vs) m2 s2"
  proof -
    have le: "sel_avail s2 \<le> sel_avail s1" using left by (simp add: word_le_nat_alt)
    have "\<exists>p1 \<in> insert p ps. \<exists>z. p' \<le> p1 \<and> stands ?\<sigma> m (ws @ vs) p1 z \<and> permits_needed (?\<sigma> z) > sel_avail s2 \<and>
         (p1 = p' \<or> (\<forall>v \<in> set (ws @ vs). p1 \<le> priority (?\<sigma> v)))"
      if open_: "sel_avail s2 \<noteq> 0" "can_push (sel_wakes s2)" and p': "p' \<in> insert p ps"
        and l: "live ?\<sigma> (queue_of m2 p') \<noteq> []" for p'
    proof (cases "p' \<in> ps")
      case True
      have "exhausted ?\<sigma>1 m1 ps vs m2 s2" using B(1) by (simp add: schedule_def)
      with True open_ l have "\<exists>p1 \<in> ps. \<exists>z. p' \<le> p1 \<and> stands ?\<sigma>1 m1 vs p1 z \<and>
          permits_needed (?\<sigma>1 z) > sel_avail s2 \<and> (p1 = p' \<or> (\<forall>v \<in> set vs. p1 \<le> priority (?\<sigma>1 v)))"
        by (simp add: exhausted_def live2)
      then obtain p1 z where z: "p1 \<in> ps" "p' \<le> p1" "stands ?\<sigma>1 m1 vs p1 z"
        "permits_needed (?\<sigma> z) > sel_avail s2" "p1 = p' \<or> (\<forall>v \<in> set vs. p1 \<le> priority (?\<sigma> v))"
        by (auto simp: DA(1))
      with later B(2) [of p1] A(3) show ?thesis by (intro bexI [of _ p1] exI [of _ z]) auto
    next
      case False
      with p' have [simp]: "p' = p" by simp
      have "post \<noteq> []" using l m2p live_subset [of ?\<sigma> "queue_of m2 p"] by auto
      moreover from this stop open_ le have "permits_needed (?\<sigma> (hd post)) > sel_avail s2"
        by (auto intro: order.strict_trans1)
      ultimately show ?thesis using here False by auto
    qed
    then show ?thesis unfolding exhausted_def by blast
  qed
  ultimately show ?thesis
    using selected_trans [OF A(1) selB] A(3) prio_vs by (auto simp: schedule_def)
qed

end
