(* ===== verification/Select_Spec.thy ===== *)
theory Select_Spec
  imports Schedule
begin

text \<open>
  \<open>select_waiters_to_notify\<close> meets \<open>schedule\<close> on every queue that satisfies the
  invariant, on its fast path for a single priority and in the general case, and keeps the invariant.
\<close>

section \<open>The general case\<close>

lemma set_heap_pop: "heap_peek h = Some p \<Longrightarrow> set h = insert p (set (heap_pop h))"
  using bh.elems_peek [of h p] by (metis set_mset_add_mset_insert set_mset_mset)

lemma queued_states_queue: "queued_ok \<sigma> m \<Longrightarrow> queued_states \<sigma> (queue_of m p)"
  using queue_of_subset [of m p] by (auto simp: queued_states_def queued_okD dest: queued_okD(5))

lemma process_one_spec:
  assumes ok: "sel_ok s" "queued_ok (sel_store s) m" "length (all_waiters m) \<le> sel_total s"
    and m: "map_of m p = Some (first # rest)"
  shows "\<exists>q s' pre post. process_priority (first # rest) s = Some (q, s', live (sel_store s) pre \<noteq> []) \<and>
    selected m s (live (sel_store s) pre) (AList.update p q m) s' \<and>
    first # rest = pre @ post \<and> q = live (sel_store s) post \<and>
    (post = [] \<or> \<not> can_push (sel_wakes s') \<or> sel_avail s' = 0 \<or>
     permits_needed (sel_store s (hd post)) > sel_avail s')"
proof -
  let ?Q = "first # rest" and ?\<sigma> = "sel_store s"
  have Q: "queue_of m p = ?Q" using m by simp
  note keys = queued_okD(1) [OF ok(2)]
  have qs: "queued_states ?\<sigma> ?Q" using queued_states_queue [OF ok(2), of p] Q by simp
  have len: "length ?Q \<le> sel_total s"
    using size_mset_mono [OF mset_queue_of_subset [OF keys, of p]] ok(3) Q by simp
  from process_priority_spec [OF ok(1) qs len] obtain pre post s1 s' where *:
    "consumed ?Q s pre post s1"
    "process_priority ?Q s = Some (live ?\<sigma> post, s', live ?\<sigma> pre \<noteq> [])"
    "s' = sel_after (live ?\<sigma> pre) (length ?Q - length (live ?\<sigma> post)) s" "sel_ok s'"
    "post = [] \<or> \<not> can_push (sel_wakes s') \<or> sel_avail s' = 0 \<or>
     permits_needed (?\<sigma> (hd post)) > sel_avail s'" by blast
  let ?m = "AList.update p (live ?\<sigma> post) m"
  have "selected m s (live ?\<sigma> pre) ?m s'"
  proof (rule selected_one [OF ok(2) _ disjI2 [OF refl]])
    show "consumed (queue_of m p) s pre post s1" using * Q by simp
    show "s' = sel_after (live ?\<sigma> pre) (length (queue_of m p) - length (live ?\<sigma> post)) s"
      using * Q by simp
    show "mset (all_waiters ?m) + mset (queue_of m p) = mset (all_waiters m) + mset (live ?\<sigma> post)"
      using keys by (rule mset_all_waiters_update)
  qed (use keys * in \<open>auto simp: queue_simps distinct_update\<close>)
  moreover have "?Q = pre @ post" using *(1) by (simp add: consumed_def)
  ultimately show ?thesis
    using *
    by (intro exI [of _ "live ?\<sigma> post"] exI [of _ s'] exI [of _ pre] exI [of _ post]) auto
qed

definition covered :: "priority_queues \<Rightarrow> isize list \<Rightarrow> isize list \<Rightarrow> bool" where
  "covered m active restore \<longleftrightarrow> (\<forall>p. queue_of m p \<noteq> [] \<longrightarrow> p \<in> set active \<union> set restore)"

lemma process_priorities_full:
  "sel_avail s = 0 \<or> \<not> can_push (sel_wakes s) \<Longrightarrow>
   process_priorities m active restore s = Some (m, active, restore, s)"
  by (subst process_priorities.simps) (auto split: option.split)

text \<open>
  One round of the loop that serves a priority: what \<open>process_one_spec\<close> gives for the priority
  followed by whatever the remaining rounds do (\<open>IH\<close>).
\<close>

lemma process_priorities_round:
  assumes ok: "sel_ok s" "queued_ok (sel_store s) m" "length (all_waiters m) \<le> sel_total s"
    and cov: "covered m active restore"
    and p: "heap_peek active = Some p"
    and fits: "sel_avail s \<noteq> 0" "can_push (sel_wakes s)" "map_of m p = Some (first # rest)"
      "\<not> permits_needed (sel_store s first) > sel_avail s"
    and IH: "\<And>m1 restore1 s1. sel_ok s1 \<Longrightarrow> queued_ok (sel_store s1) m1 \<Longrightarrow>
      length (all_waiters m1) \<le> sel_total s1 \<Longrightarrow> covered m1 (heap_pop active) restore1 \<Longrightarrow>
      \<exists>vs m2 act2 restore2 s2.
        process_priorities m1 (heap_pop active) restore1 s1 = Some (m2, act2, restore2, s2) \<and>
        schedule m1 (set (heap_pop active)) s1 vs m2 s2 \<and> covered m2 act2 restore2"
  shows "\<exists>ws m' active' restore' s'.
    process_priorities m active restore s = Some (m', active', restore', s') \<and>
    schedule m (set active) s ws m' s' \<and> covered m' active' restore'"
proof -
  from process_one_spec [OF ok fits(3)] obtain q s1 pre post where one:
    "process_priority (first # rest) s = Some (q, s1, live (sel_store s) pre \<noteq> [])"
    "selected m s (live (sel_store s) pre) (AList.update p q m) s1"
    "queue_of m p = pre @ post" "q = live (sel_store s) post"
    "post = [] \<or> \<not> can_push (sel_wakes s1) \<or> sel_avail s1 = 0 \<or>
     permits_needed (sel_store s (hd post)) > sel_avail s1" using fits(3) by fastforce
  let ?m1 = "AList.update p q m" and ?act1 = "heap_pop active"
  let ?res1 = "if q \<noteq> [] then restore @ [p] else restore"
  note act = set_heap_pop [OF p]
  have ok1: "sel_ok s1" "queued_ok (sel_store s1) ?m1" "length (all_waiters ?m1) \<le> sel_total s1"
    using selected_queued_ok [OF ok(2) one(2)] selectedD(7) [OF one(2)] one(2) ok(3)
    by (auto simp: selected_def)
  have cov1: "covered ?m1 ?act1 ?res1"
    using cov act by (auto simp: covered_def queue_simps)
  have "\<exists>vs m2 act2 restore2 s2.
      process_priorities m active restore s = Some (m2, act2, restore2, s2) \<and>
      schedule ?m1 (set ?act1) s1 vs m2 s2 \<and> covered m2 act2 restore2 \<and>
      (sel_avail s1 = 0 \<or> \<not> can_push (sel_wakes s1) \<longrightarrow> vs = [] \<and> s2 = s1)"
  proof (cases "live (sel_store s) pre \<noteq> [] \<and> \<not> can_push (sel_wakes s1)")
    case True
    then have "process_priorities m active restore s = Some (?m1, ?act1, ?res1, s1)"
      using p fits one(1) by (simp add: process_priorities.simps [of m active])
    moreover have "schedule ?m1 (set ?act1) s1 [] ?m1 s1"
      using True ok1 by (intro schedule_stop) (auto dest: queued_okD(1))
    ultimately show ?thesis using cov1 by blast
  next
    case False
    then have "process_priorities m active restore s = process_priorities ?m1 ?act1 ?res1 s1"
      using p fits one(1) by (auto simp: process_priorities.simps [of m active] Let_def)
    with IH [OF ok1 cov1] show ?thesis
      using process_priorities_full [of s1 ?m1 ?act1 ?res1] selected_unchanged
      by (fastforce simp: schedule_def)
  qed
  then obtain vs m2 act2 restore2 s2 where rest:
    "process_priorities m active restore s = Some (m2, act2, restore2, s2)"
    "schedule ?m1 (set ?act1) s1 vs m2 s2" "covered m2 act2 restore2"
    "sel_avail s1 = 0 \<or> \<not> can_push (sel_wakes s1) \<longrightarrow> vs = [] \<and> s2 = s1" by blast
  have "schedule m (insert p (set ?act1)) s (live (sel_store s) pre @ vs) m2 s2"
  proof (rule schedule_step [OF one(2) refl _ one(3)])
    show "priority (sel_store s w) = p" if "w \<in> set (live (sel_store s) pre)" for w
      using that one(3) live_subset [of "sel_store s" pre] queued_okD(4) [OF ok(2), of w p] by auto
    show "p' \<le> p" if "p' \<in> set ?act1" for p' using bh.pop_le [OF p] that by simp
    show "post = [] \<or> permits_needed (sel_store s (hd post)) > sel_avail s1 \<or>
        vs = [] \<and> (\<not> can_push (sel_wakes s2) \<or> sel_avail s2 = 0)"
      using one(5) rest(4) by auto
  qed (use one(4) rest(2) in \<open>simp_all add: queue_simps\<close>)
  with rest(1,3) act show ?thesis by metis
qed

lemma process_priorities_spec:
  assumes "sel_ok s" "queued_ok (sel_store s) m" "length (all_waiters m) \<le> sel_total s"
    and "covered m active restore"
  shows "\<exists>ws m' active' restore' s'.
    process_priorities m active restore s = Some (m', active', restore', s') \<and>
    schedule m (set active) s ws m' s' \<and> covered m' active' restore'"
  using assms
proof (induction active arbitrary: m restore s rule: measure_induct_rule [where f = length])
  case (less active)
  note prems = less.prems
  note keys = queued_okD(1) [OF prems(2)]
  have stop: ?case
    if "process_priorities m active restore s = Some (m, active, restore, s)"
      "sel_avail s = 0 \<or> \<not> can_push (sel_wakes s) \<or> (\<forall>p \<in> set active. queue_of m p = []) \<or>
       (\<exists>p z rest. p \<in> set active \<and> (\<forall>p' \<in> set active. p' \<le> p) \<and> queue_of m p = z # rest \<and>
         permits_needed (sel_store s z) > sel_avail s)"
    using that schedule_stop [OF keys prems(1) that(2)] prems(4) by blast
  show ?case
  proof (cases "heap_peek active")
    case None
    then show ?thesis by (intro stop) (simp_all add: process_priorities.simps)
  next
    case (Some p)
    note act = set_heap_pop [OF Some]
    have shorter: "length (heap_pop active) < length active"
      using bh.size_pop [OF Some] by simp
    consider (full) "sel_avail s = 0 \<or> \<not> can_push (sel_wakes s)"
      | (stale) "sel_avail s \<noteq> 0" "can_push (sel_wakes s)" "queue_of m p = []"
      | (large) first rest where "sel_avail s \<noteq> 0" "can_push (sel_wakes s)"
          "map_of m p = Some (first # rest)" "permits_needed (sel_store s first) > sel_avail s"
      | (fits) first rest where "sel_avail s \<noteq> 0" "can_push (sel_wakes s)"
          "map_of m p = Some (first # rest)" "\<not> permits_needed (sel_store s first) > sel_avail s"
      by (cases "queue_of m p") (auto simp: queue_of_def split: option.splits)
    then show ?thesis
    proof cases
      case full
      with Some show ?thesis by (intro stop) (auto simp: process_priorities.simps [of m active])
    next
      case stale
      then have "process_priorities m active restore s = process_priorities m (heap_pop active) restore s"
        using Some by (simp add: process_priorities.simps [of m active])
      moreover have "covered m (heap_pop active) restore"
        using prems(4) act stale(3) by (auto simp: covered_def)
      ultimately show ?thesis
        using less.IH [OF shorter prems(1-3)] schedule_skip [OF stale(3)] act by metis
    next
      case (large first rest)
      have "p' \<le> p" if "p' \<in> set active" for p' using that act bh.pop_le [OF Some] by auto
      moreover have "p \<in> set active" using act by simp
      ultimately show ?thesis
        using large Some by (intro stop) (auto simp: process_priorities.simps [of m active])
    next
      case (fits first rest)
      show ?thesis
        by (rule process_priorities_round [OF prems Some fits]) (rule less.IH [OF shorter])
    qed
  qed
qed

section \<open>Selection\<close>

definition sel_init :: "usize \<Rightarrow> store \<Rightarrow> wait_queue \<Rightarrow> selection" where
  "sel_init available_permits \<sigma> q =
     \<lparr>sel_store = \<sigma>, sel_wakes = wake_list_new, sel_avail = available_permits,
      sel_assigned = 0, sel_total = total_waiters q\<rparr>"

lemma sel_init_sel [simp]:
  "sel_store (sel_init a \<sigma> q) = \<sigma>" "sel_wakes (sel_init a \<sigma> q) = wake_list_of []"
  "sel_avail (sel_init a \<sigma> q) = a" "sel_assigned (sel_init a \<sigma> q) = 0"
  "sel_total (sel_init a \<sigma> q) = total_waiters q"
  by (simp_all add: sel_init_def wake_list_new_of)

lemma selected_inv:
  assumes "wait_queue_inv \<sigma> q" "selected (priority_queues q) (sel_init a \<sigma> q) ws m' s'"
    and "\<And>p. queue_of m' p \<noteq> [] \<Longrightarrow> p \<in> set act"
  shows "wait_queue_inv (sel_store s')
    (q\<lparr>priority_queues := m', active_priorities := act, total_waiters := sel_total s'\<rparr>)"
proof -
  have "queued_ok (sel_store (sel_init a \<sigma> q)) (priority_queues q)"
    using assms(1) by (simp add: wait_queue_inv_def)
  from selected_queued_ok [OF this assms(2)] selectedD(7) [OF assms(2)] assms show ?thesis
    by (auto simp: wait_queue_inv_def selected_def)
qed

lemma no_waiters:
  assumes "wait_queue_inv \<sigma> q" "total_waiters q = 0"
  shows "queue_of (priority_queues q) p = []"
  using assms queue_of_subset [of "priority_queues q" p] by (auto simp: wait_queue_inv_def)

lemma select_single:
  assumes inv: "wait_queue_inv \<sigma> q" and a: "a \<noteq> 0" and t: "total_waiters q \<noteq> 0"
    and one: "length (active_priorities q) = 1"
  shows "\<exists>ws s' q'. select_waiters_to_notify a \<sigma> q = Some (sel_wakes s', sel_assigned s', sel_store s', q') \<and>
    schedule (priority_queues q) (set (active_priorities q)) (sel_init a \<sigma> q) ws (priority_queues q') s' \<and>
    wait_queue_inv (sel_store s') q' \<and> config q' = config q \<and> closed q' = closed q"
proof -
  let ?m = "priority_queues q" and ?s = "sel_init a \<sigma> q"
  obtain p where p: "active_priorities q = [p]"
    using one by (auto simp: length_Suc_conv)
  have ok: "queued_ok \<sigma> ?m" and cov: "\<And>p'. queue_of ?m p' \<noteq> [] \<Longrightarrow> p' = p"
    using inv p by (auto simp: wait_queue_inv_def)
  note keys = queued_okD(1) [OF ok]
  have "set (all_waiters ?m) \<noteq> {}" using inv t by (auto simp: wait_queue_inv_def)
  then obtain p' where "queue_of ?m p' \<noteq> []" using set_all_waiters [OF keys] by auto
  with cov have "queue_of ?m p \<noteq> []" by metis
  then obtain queue where queue: "map_of ?m p = Some queue"
    by (auto simp: queue_of_def split: option.splits)
  then have Q: "queue_of ?m p = queue" by simp
  have "queued_states (sel_store ?s) queue" using queued_states_queue [OF ok, of p] Q by simp
  moreover have "length queue \<le> sel_total ?s"
    using size_mset_mono [OF mset_queue_of_subset [OF keys, of p]] inv Q
    by (simp add: wait_queue_inv_def)
  ultimately obtain pre post s' where *:
    "process_single_priority_fast queue ?s = Some (post, s')" "consumed queue ?s pre post s'"
    "post = [] \<or> \<not> can_push (sel_wakes s') \<or> sel_avail s' = 0 \<or>
     (\<not> is_cancelled (\<sigma> (hd post)) \<and> permits_needed (\<sigma> (hd post)) > sel_avail s')"
    using process_single_spec [of ?s queue] by auto
  let ?m' = "if post \<noteq> [] then AList.update p post (AList.delete p ?m) else AList.delete p ?m"
  let ?act = "if post \<noteq> [] then [p] else []"
  let ?q' = "q\<lparr>priority_queues := ?m', active_priorities := ?act, total_waiters := sel_total s'\<rparr>"
  have pp: "queue = pre @ post" "s' = sel_after (live \<sigma> pre) (length pre) ?s" "sel_ok s'"
    using *(2) by (auto simp: consumed_def)
  have m'q: "queue_of ?m' p' = (if p' = p then post else queue_of ?m p')" for p'
    by (simp add: queue_simps)
  have keys': "distinct_keys ?m'" using keys by (simp add: distinct_delete distinct_update)
  have "mset (all_waiters ?m') = mset (all_waiters (AList.delete p ?m)) + mset post"
    using mset_all_waiters_update [of "AList.delete p ?m" p post] keys
    by (simp add: distinct_delete queue_simps)
  then have ms: "mset (all_waiters ?m') + mset (queue_of ?m p) = mset (all_waiters ?m) + mset post"
    using mset_all_waiters_delete [OF keys, of p] by (metis add.assoc add.commute)
  have sel: "selected ?m ?s (live \<sigma> pre) ?m' s'"
    using selected_one [of ?s ?m p pre post s' post ?m' s'] ok *(2) Q keys' m'q ms pp by simp
  have prio: "priority \<sigma>' = p" if "\<sigma>' \<in> \<sigma> ` set (live \<sigma> pre)" for \<sigma>'
    using that live_subset [of \<sigma> pre] queued_okD(4) [OF ok, of _ p] Q pp(1) by auto
  have "schedule ?m (insert p {}) ?s (live \<sigma> pre @ []) ?m' s'"
  proof (rule schedule_step [OF sel _ _ _ _ _ schedule_stop])
    show "post = [] \<or> sel_avail s' < permits_needed (sel_store ?s (hd post)) \<or>
      [] = [] \<and> (\<not> can_push (sel_wakes s') \<or> sel_avail s' = 0)" using *(3) by auto
    show "queue_of ?m p = pre @ post" using Q pp(1) by simp
  qed (use prio keys' pp m'q in auto)
  moreover have "wait_queue_inv (sel_store s') ?q'"
  proof (rule selected_inv [OF inv sel])
    show "p' \<in> set ?act" if "queue_of ?m' p' \<noteq> []" for p'
      using that cov [of p'] by (auto simp: m'q split: if_splits)
  qed
  moreover have "select_waiters_to_notify a \<sigma> q = Some (sel_wakes s', sel_assigned s', sel_store s', ?q')"
    using a t p queue *(1)
    by (simp add: select_waiters_to_notify_def Let_def heap_pop_def sel_init_def)
  ultimately show ?thesis using p
    by (intro exI [of _ "live \<sigma> pre"] exI [of _ s'] exI [of _ ?q']) simp
qed

theorem select_correct:
  assumes inv: "wait_queue_inv \<sigma> q"
  shows "\<exists>ws s' q'. select_waiters_to_notify a \<sigma> q = Some (sel_wakes s', sel_assigned s', sel_store s', q') \<and>
    schedule (priority_queues q) (set (active_priorities q)) (sel_init a \<sigma> q) ws (priority_queues q') s' \<and>
    wait_queue_inv (sel_store s') q' \<and> config q' = config q \<and> closed q' = closed q"
proof -
  let ?m = "priority_queues q" and ?s = "sel_init a \<sigma> q"
  have ok: "queued_ok (sel_store ?s) ?m" and len: "length (all_waiters ?m) \<le> sel_total ?s"
    and cov: "covered ?m (active_priorities q) []"
    using inv by (auto simp: wait_queue_inv_def covered_def)
  consider "a = 0 \<or> total_waiters q = 0"
    | "a \<noteq> 0" "total_waiters q \<noteq> 0" "length (active_priorities q) = 1"
    | "a \<noteq> 0" "total_waiters q \<noteq> 0" "length (active_priorities q) \<noteq> 1" by blast
  then show ?thesis
  proof cases
    case 1
    have "schedule ?m (set (active_priorities q)) ?s [] ?m ?s"
      using 1 no_waiters [OF inv] queued_okD(1) [OF ok] by (intro schedule_stop) auto
    moreover have "select_waiters_to_notify a \<sigma> q = Some (sel_wakes ?s, sel_assigned ?s, sel_store ?s, q)"
      using 1 by (auto simp: select_waiters_to_notify_def wake_list_new_of)
    ultimately show ?thesis using inv by (intro exI [of _ "[]"] exI [of _ ?s] exI [of _ q]) simp
  next
    case 2
    with inv show ?thesis by (rule select_single)
  next
    case 3
    from process_priorities_spec [OF _ ok len cov] obtain ws m' act res s' where *:
      "process_priorities ?m (active_priorities q) [] ?s = Some (m', act, res, s')"
      "schedule ?m (set (active_priorities q)) ?s ws m' s'" "covered m' act res" by auto
    let ?q' = "q\<lparr>priority_queues := m', active_priorities := fold (#) res act,
      total_waiters := sel_total s'\<rparr>"
    have "select_waiters_to_notify a \<sigma> q = Some (sel_wakes s', sel_assigned s', sel_store s', ?q')"
      using 3 *(1) by (simp add: select_waiters_to_notify_def process_multiple_priorities_optimized_def
          flip: sel_init_def)
    moreover have "wait_queue_inv (sel_store s') ?q'"
      using *(2,3) by (intro selected_inv [OF inv])
        (auto simp: schedule_def covered_def fold_Cons_rev)
    ultimately show ?thesis using *(2) by (intro exI [of _ ws] exI [of _ s'] exI [of _ ?q']) simp
  qed
qed

end
