(* ===== verification/Errors.thy ===== *)
theory Errors
  imports Prelude
begin

text \<open>
  The error types of \<open>error.rs\<close>. \<open>AcquireError\<close> carries no data; the error of the
  non-blocking operations tells a closed semaphore from an exhausted one. \<open>Display\<close> is the
  string the formatter writes.
\<close>

datatype AcquireError = AcquireError unit

definition acquire_error_closed :: AcquireError where
  "acquire_error_closed = AcquireError ()"

definition acquire_error_fmt :: "AcquireError \<Rightarrow> string" where
  "acquire_error_fmt e = ''semaphore closed''"

datatype TryAcquireError = Closed | NoPermits

fun try_error_is_closed :: "TryAcquireError \<Rightarrow> bool" where
  "try_error_is_closed Closed = True"
| "try_error_is_closed _ = False"

fun try_error_is_no_permits :: "TryAcquireError \<Rightarrow> bool" where
  "try_error_is_no_permits NoPermits = True"
| "try_error_is_no_permits _ = False"

fun try_error_fmt :: "TryAcquireError \<Rightarrow> string" where
  "try_error_fmt Closed = ''semaphore closed''"
| "try_error_fmt NoPermits = ''no permits available''"

lemma try_error_is_no_permits_iff [simp]: "try_error_is_no_permits e \<longleftrightarrow> \<not> try_error_is_closed e"
  by (cases e) simp_all

lemma try_error_fmt_inj: "try_error_fmt e = try_error_fmt e' \<longleftrightarrow> e = e'"
  by (cases e; cases e') simp_all

end
