(* ===== verification/Semaphore.thy ===== *)
theory Semaphore
  imports Atomics Select_Spec Errors
begin

text \<open>
  \<open>semaphore/core.rs\<close>: the semaphore. Its state is the permit word (count shifted left by
  one, closed flag in the lowest bit) and the wait queue behind the mutex; the model adds what the
  queue's shared waiters live in (their store and the next free identity), the address of the
  semaphore, which is what permits compare, and the tasks woken so far. An operation is a function
  on this state, taking the lock where the code does; a panic keeps the state reached.
\<close>

section \<open>State and constructors\<close>

record sys =
  permits :: usize
  waiters :: wait_queue
  store :: store
  next_wid :: wid
  sem_addr :: nat
  woken :: "waker list"

definition MAX_PERMITS :: usize where
  "MAX_PERMITS = drop_bit 3 (- 1)"

definition CLOSED :: usize where
  "CLOSED = 1"

definition PERMIT_SHIFT :: nat where
  "PERMIT_SHIFT = 1"

definition new_with_config :: "nat \<Rightarrow> usize \<Rightarrow> PriorityConfig \<Rightarrow> sys outcome" where
  "new_with_config addr n c =
     (if n > MAX_PERMITS then Panic ''permits exceed MAX_PERMITS''
      else Done \<lparr>permits = push_bit PERMIT_SHIFT n, waiters = wait_queue_new c,
                 store = (\<lambda>_. waiter_new 0 (ISize 0)), next_wid = 0, sem_addr = addr, woken = []\<rparr>)"

definition new_semaphore :: "nat \<Rightarrow> usize \<Rightarrow> QueueStrategy \<Rightarrow> sys outcome" where
  "new_semaphore addr n st =
     (if n > MAX_PERMITS then Panic ''permits exceed MAX_PERMITS''
      else new_with_config addr n (default_strategy config_new st))"

definition new_fifo :: "nat \<Rightarrow> usize \<Rightarrow> sys outcome" where
  "new_fifo addr n =
     (if n > MAX_PERMITS then Panic ''permits exceed MAX_PERMITS'' else new_semaphore addr n Fifo)"

definition new_lifo :: "nat \<Rightarrow> usize \<Rightarrow> sys outcome" where
  "new_lifo addr n =
     (if n > MAX_PERMITS then Panic ''permits exceed MAX_PERMITS'' else new_semaphore addr n Lifo)"

definition available_permits :: "sys \<Rightarrow> usize" where
  "available_permits s = drop_bit PERMIT_SHIFT (permits s)"

definition is_closed :: "sys \<Rightarrow> bool" where
  "is_closed s \<longleftrightarrow> permits s AND CLOSED = CLOSED"

section \<open>Adding permits\<close>

text \<open>
  The batch loop. \<open>Some (Some rem, s)\<close>: the loop was left with \<open>rem\<close> permits to add;
  \<open>Some (None, s)\<close>: the early return for a closed semaphore; \<open>None\<close>: a panic in the batch.
\<close>

lemma wake_all_not_full: "wake_all l = Some (ws, l') \<Longrightarrow> \<not> was_full l'"
  by (auto simp: wake_all_def was_full_def NUM_WAKERS_def split: if_splits)

function add_permits_loop :: "usize \<Rightarrow> sys \<Rightarrow> (usize option \<times> sys) option" where
  "add_permits_loop rem s =
     (if rem > 0 then
        if is_empty (waiters s) then Some (Some rem, s)
        else (case select_waiters_to_notify rem (store s) (waiters s) of
                None \<Rightarrow> None
              | Some (wake_list, permits_assigned, \<sigma>, q) \<Rightarrow>
                  let rem' = rem - permits_assigned;
                      s1 = s\<lparr>store := \<sigma>, waiters := q\<rparr>
                  in if permits_assigned = 0 \<or> wake_list_is_empty wake_list then Some (Some rem', s1)
                     else if is_closed s1
                     then Some (None, s1\<lparr>permits := permits s1 + push_bit PERMIT_SHIFT permits_assigned\<rparr>)
                     else (case wake_all wake_list of
                             None \<Rightarrow> None
                           | Some (ws, wake_list') \<Rightarrow>
                               let s2 = s1\<lparr>woken := woken s1 @ ws\<rparr>
                               in if \<not> was_full wake_list' then Some (Some rem', s2)
                                  else add_permits_loop rem' s2))
      else Some (Some rem, s))"
  by pat_completeness auto
termination
  by (relation "{}") (auto dest: wake_all_not_full)

declare add_permits_loop.simps [simp del]

text \<open>
  \<open>overflow_checks\<close> is the build profile: with it (debug builds) \<open>+\<close> panics on overflow,
  without it (release builds) it wraps.
\<close>

definition add_permits_locked :: "bool \<Rightarrow> usize \<Rightarrow> sys \<Rightarrow> unit outcome \<times> sys" where
  "add_permits_locked overflow_checks rem s =
     (case add_permits_loop rem s of
        None \<Rightarrow> (Panic ''index out of bounds'', s)
      | Some (None, s1) \<Rightarrow> (Done (), s1)
      | Some (Some rem', s1) \<Rightarrow>
          if rem' > 0 then
            let prev = permits s1;
                s2 = s1\<lparr>permits := prev + push_bit PERMIT_SHIFT rem'\<rparr>;
                prev_permits = drop_bit PERMIT_SHIFT prev
            in if overflow_checks \<and> unat prev_permits + unat rem' \<ge> 2 ^ 64
               then (Panic ''attempt to add with overflow'', s2)
               else if prev_permits + rem' > MAX_PERMITS
               then (Panic ''number of added permits would overflow MAX_PERMITS'', s2)
               else (Done (), s2)
          else (Done (), s1))"

definition add_permits :: "bool \<Rightarrow> usize \<Rightarrow> sys \<Rightarrow> unit outcome \<times> sys" where
  "add_permits overflow_checks added s =
     (if added = 0 then (Done (), s) else add_permits_locked overflow_checks added s)"

section \<open>Closing and forgetting\<close>

text \<open>\<open>close\<close> is two steps: the flag is set before the lock is taken.\<close>

definition close_flag :: "sys \<Rightarrow> sys" where
  "close_flag s = s\<lparr>permits := permits s OR CLOSED\<rparr>"

definition close_waiters :: "hash_order \<Rightarrow> sys \<Rightarrow> sys" where
  "close_waiters h s =
     (let (\<sigma>, q, ws) = close_queue h (store s) (waiters s)
      in s\<lparr>store := \<sigma>, waiters := q, woken := woken s @ ws\<rparr>)"

definition close :: "hash_order \<Rightarrow> sys \<Rightarrow> sys" where
  "close h s = close_waiters h (close_flag s)"

definition forget_decide :: "usize \<Rightarrow> usize decision" where
  "forget_decide n curr_bits =
     (let curr_permits = drop_bit PERMIT_SHIFT curr_bits;
          removed = min curr_permits n;
          new_permits = curr_permits - removed;
          new_bits = push_bit PERMIT_SHIFT new_permits OR (curr_bits AND CLOSED)
      in Inr (new_bits, removed))"

definition forget_permits :: "interference list \<Rightarrow> usize \<Rightarrow> sys \<Rightarrow> usize \<times> sys" where
  "forget_permits env n s =
     (if n = 0 then (0, s)
      else let (removed, bits) = cas_loop (forget_decide n) env (permits s) (permits s)
           in (removed, s\<lparr>permits := bits\<rparr>))"

end
