(* ===== verification/Permits.thy ===== *)
theory Permits
  imports Semaphore
begin

text \<open>
  \<open>semaphore/permits.rs\<close>: permit objects, borrowed and owned. Both hold the semaphore they came
  from (here: its address) and a 32-bit count. Dropping one gives the count back.
\<close>

section \<open>Borrowed permits\<close>

record permit =
  p_sem :: nat
  p_permits :: u32

definition forget :: "permit \<Rightarrow> permit" where
  "forget p = p\<lparr>p_permits := 0\<rparr>"

definition num_permits :: "permit \<Rightarrow> usize" where
  "num_permits p = ucast (p_permits p)"

text \<open>\<open>merge\<close> returns the grown permit and the emptied one, which is then dropped.\<close>

definition merge :: "bool \<Rightarrow> permit \<Rightarrow> permit \<Rightarrow> (permit \<times> permit) outcome" where
  "merge overflow_checks self other =
     (if p_sem self \<noteq> p_sem other then Panic ''Cannot merge permits from different semaphores''
      else if overflow_checks \<and> unat (p_permits self) + unat (p_permits other) \<ge> 2 ^ 32
      then Panic ''attempt to add with overflow''
      else Done (self\<lparr>p_permits := p_permits self + p_permits other\<rparr>, other\<lparr>p_permits := 0\<rparr>))"

definition split_permit :: "u32 \<Rightarrow> permit \<Rightarrow> permit option \<times> permit" where
  "split_permit n self =
     (if n > p_permits self then (None, self)
      else (Some \<lparr>p_sem = p_sem self, p_permits = n\<rparr>, self\<lparr>p_permits := p_permits self - n\<rparr>))"

definition drop_permit :: "bool \<Rightarrow> permit \<Rightarrow> sys \<Rightarrow> unit outcome \<times> sys" where
  "drop_permit overflow_checks p s =
     (if p_permits p = 0 then (Done (), s)
      else let permits_to_add = push_bit PERMIT_SHIFT (ucast (p_permits p) :: usize)
           in if is_empty (waiters s) then (Done (), s\<lparr>permits := permits s + permits_to_add\<rparr>)
              else add_permits_locked overflow_checks (ucast (p_permits p)) s)"

section \<open>Owned permits\<close>

record owned_permit =
  o_sem :: nat
  o_permits :: u32

definition forget_owned :: "owned_permit \<Rightarrow> owned_permit" where
  "forget_owned p = p\<lparr>o_permits := 0\<rparr>"

definition num_permits_owned :: "owned_permit \<Rightarrow> usize" where
  "num_permits_owned p = ucast (o_permits p)"

definition merge_owned :: "bool \<Rightarrow> owned_permit \<Rightarrow> owned_permit \<Rightarrow> (owned_permit \<times> owned_permit) outcome" where
  "merge_owned overflow_checks self other =
     (if o_sem self \<noteq> o_sem other then Panic ''Cannot merge permits from different semaphores''
      else if overflow_checks \<and> unat (o_permits self) + unat (o_permits other) \<ge> 2 ^ 32
      then Panic ''attempt to add with overflow''
      else Done (self\<lparr>o_permits := o_permits self + o_permits other\<rparr>, other\<lparr>o_permits := 0\<rparr>))"

text \<open>The owned \<open>split\<close> takes a \<open>usize\<close> and refuses what \<open>u32::try_from\<close> refuses.\<close>

definition u32_try_from :: "usize \<Rightarrow> u32 option" where
  "u32_try_from n = (if unat n < 2 ^ 32 then Some (ucast n) else None)"

definition split_owned :: "usize \<Rightarrow> owned_permit \<Rightarrow> owned_permit option \<times> owned_permit" where
  "split_owned n self =
     (case u32_try_from n of
        None \<Rightarrow> (None, self)
      | Some k \<Rightarrow>
          if k > o_permits self then (None, self)
          else (Some \<lparr>o_sem = o_sem self, o_permits = k\<rparr>, self\<lparr>o_permits := o_permits self - k\<rparr>))"

definition semaphore_of :: "owned_permit \<Rightarrow> nat" where
  "semaphore_of p = o_sem p"

definition drop_owned_permit :: "bool \<Rightarrow> owned_permit \<Rightarrow> sys \<Rightarrow> unit outcome \<times> sys" where
  "drop_owned_permit overflow_checks p s =
     (if o_permits p = 0 then (Done (), s)
      else let permits_to_add = push_bit PERMIT_SHIFT (ucast (o_permits p) :: usize)
           in if is_empty (waiters s) then (Done (), s\<lparr>permits := permits s + permits_to_add\<rparr>)
              else add_permits_locked overflow_checks (ucast (o_permits p)) s)"

end
