(* ===== verification/Acquire.thy ===== *)
theory Acquire
  imports Permits
begin

text \<open>
  \<open>semaphore/methods.rs\<close> and \<open>semaphore/futures.rs\<close>: the non-blocking operations, which
  are retry loops on the permit word, and the futures of the waiting ones. A future is polled with
  the waker of its task; \<open>cas_ok\<close> says whether the single weak exchange of its fast path
  succeeds when it may.
\<close>

section \<open>Non-blocking acquisition\<close>

definition acquire_decide :: "usize \<Rightarrow> 'p \<Rightarrow> (TryAcquireError + 'p) decision" where
  "acquire_decide n_shifted p cur =
     (if cur AND CLOSED = CLOSED then Inl (Inl Closed)
      else if cur < n_shifted then Inl (Inl NoPermits)
      else Inr (cur - n_shifted, Inr p))"

text \<open>
  \<open>try_acquire\<close> makes one strong exchange first; an event before it can only be a write.
\<close>

definition try_acquire_retry_loop ::
  "interference list \<Rightarrow> sys \<Rightarrow> (TryAcquireError + permit) \<times> sys" where
  "try_acquire_retry_loop env s =
     (let (r, bits) = cas_loop
            (acquire_decide (push_bit PERMIT_SHIFT 1) \<lparr>p_sem = sem_addr s, p_permits = 1\<rparr>)
            env (permits s) (permits s)
      in (r, s\<lparr>permits := bits\<rparr>))"

definition try_acquire :: "interference list \<Rightarrow> sys \<Rightarrow> (TryAcquireError + permit) \<times> sys" where
  "try_acquire env s =
     (let cur = permits s
      in if cur AND CLOSED \<noteq> 0 then (Inl Closed, s)
         else if cur < push_bit PERMIT_SHIFT 1 then (Inl NoPermits, s)
         else let next = cur - push_bit PERMIT_SHIFT 1;
                  actual = (case env of Overwrite v # _ \<Rightarrow> v | _ \<Rightarrow> cur);
                  (bits, ok) = compare_exchange actual cur next
              in if ok then (Inr \<lparr>p_sem = sem_addr s, p_permits = 1\<rparr>, s\<lparr>permits := bits\<rparr>)
                 else try_acquire_retry_loop (tl env) (s\<lparr>permits := bits\<rparr>))"

definition try_acquire_many ::
  "interference list \<Rightarrow> u32 \<Rightarrow> sys \<Rightarrow> (TryAcquireError + permit) outcome \<times> sys" where
  "try_acquire_many env n s =
     (if n = 0 then (Done (Inr \<lparr>p_sem = sem_addr s, p_permits = 0\<rparr>), s)
      else if (ucast n :: usize) > MAX_PERMITS then (Panic ''try_acquire_many: n exceeds MAX_PERMITS'', s)
      else let n_shifted = push_bit PERMIT_SHIFT (ucast n);
               (r, bits) = cas_loop (acquire_decide n_shifted \<lparr>p_sem = sem_addr s, p_permits = n\<rparr>)
                 env (permits s) (permits s)
           in (Done r, s\<lparr>permits := bits\<rparr>))"

definition try_acquire_owned :: "interference list \<Rightarrow> sys \<Rightarrow> (TryAcquireError + owned_permit) \<times> sys" where
  "try_acquire_owned env s =
     (let (r, bits) = cas_loop
            (acquire_decide (push_bit PERMIT_SHIFT 1) \<lparr>o_sem = sem_addr s, o_permits = 1\<rparr>)
            env (permits s) (permits s)
      in (r, s\<lparr>permits := bits\<rparr>))"

definition try_acquire_many_owned ::
  "interference list \<Rightarrow> u32 \<Rightarrow> sys \<Rightarrow> (TryAcquireError + owned_permit) outcome \<times> sys" where
  "try_acquire_many_owned env n s =
     (if n = 0 then (Done (Inr \<lparr>o_sem = sem_addr s, o_permits = 0\<rparr>), s)
      else if (ucast n :: usize) > MAX_PERMITS
      then (Panic ''try_acquire_many_owned: n exceeds MAX_PERMITS'', s)
      else let n_shifted = push_bit PERMIT_SHIFT (ucast n);
               (r, bits) = cas_loop (acquire_decide n_shifted \<lparr>o_sem = sem_addr s, o_permits = n\<rparr>)
                 env (permits s) (permits s)
           in (Done r, s\<lparr>permits := bits\<rparr>))"

section \<open>The future of a borrowed permit\<close>

record acquire_future =
  f_sem :: nat
  f_needed :: usize
  f_priority :: isize
  f_handle :: "wid option"

definition acquire_many_with_priority :: "isize \<Rightarrow> u32 \<Rightarrow> sys \<Rightarrow> acquire_future" where
  "acquire_many_with_priority p n s =
     \<lparr>f_sem = sem_addr s, f_needed = ucast n, f_priority = p, f_handle = None\<rparr>"

definition acquire :: "sys \<Rightarrow> acquire_future" where
  "acquire s = acquire_many_with_priority (ISize 0) 1 s"

definition acquire_with_priority :: "isize \<Rightarrow> sys \<Rightarrow> acquire_future" where
  "acquire_with_priority p s = acquire_many_with_priority p 1 s"

definition acquire_many :: "u32 \<Rightarrow> sys \<Rightarrow> acquire_future" where
  "acquire_many n s = acquire_many_with_priority (ISize 0) n s"

datatype 'p poll = Ready "AcquireError + 'p" | Pending

text \<open>
  The fast path, on the word alone: \<open>Some\<close> when it decides the poll. The slow path queues the
  waiter, and the last part looks at the waiter's state.
\<close>

definition poll_fast :: "bool \<Rightarrow> usize \<Rightarrow> usize \<Rightarrow> (AcquireError + unit) option \<times> usize" where
  "poll_fast cas_ok n_shifted cur =
     (if cur AND CLOSED \<noteq> 0 then (Some (Inl acquire_error_closed), cur)
      else if cur \<ge> n_shifted \<and> cas_ok then (Some (Inr ()), cur - n_shifted)
      else (None, cur))"

definition poll_enqueue :: "usize \<Rightarrow> isize \<Rightarrow> sys \<Rightarrow> wid option \<times> sys" where
  "poll_enqueue n p s =
     (if permits s AND CLOSED \<noteq> 0 then (None, s)
      else let (w, \<sigma>, next, q) = push_waiter n p (store s) (next_wid s) (waiters s)
           in (Some w, s\<lparr>store := \<sigma>, next_wid := next, waiters := q\<rparr>))"

definition poll_wait :: "wid \<Rightarrow> waker \<Rightarrow> sys \<Rightarrow> (AcquireError + unit) option \<times> sys" where
  "poll_wait w k s =
     (if is_cancelled (store s w) then (Some (Inl acquire_error_closed), s)
      else if is_notified (store s w) then
        (if is_closed s then (Some (Inl acquire_error_closed), s) else (Some (Inr ()), s))
      else (None, s\<lparr>store := (store s)(w := set_waker (store s w) k)\<rparr>))"

definition poll :: "bool \<Rightarrow> waker \<Rightarrow> acquire_future \<Rightarrow> sys \<Rightarrow> permit poll \<times> acquire_future \<times> sys" where
  "poll cas_ok k f s =
     (let permit = \<lparr>p_sem = f_sem f, p_permits = ucast (f_needed f)\<rparr>;
          fast = (if f_handle f = None
                  then poll_fast cas_ok (push_bit PERMIT_SHIFT (f_needed f)) (permits s)
                  else (None, permits s))
      in case fast of
           (Some (Inl e), _) \<Rightarrow> (Ready (Inl e), f, s)
         | (Some (Inr _), bits) \<Rightarrow> (Ready (Inr permit), f, s\<lparr>permits := bits\<rparr>)
         | (None, _) \<Rightarrow>
             let (handle, s1) = (case f_handle f of
                    Some w \<Rightarrow> (Some w, s)
                  | None \<Rightarrow> poll_enqueue (f_needed f) (f_priority f) s)
             in case handle of
                  None \<Rightarrow> (Ready (Inl acquire_error_closed), f, s1)
                | Some w \<Rightarrow>
                    let f1 = f\<lparr>f_handle := Some w\<rparr>
                    in case poll_wait w k s1 of
                         (Some (Inl e), s2) \<Rightarrow> (Ready (Inl e), f1, s2)
                       | (Some (Inr _), s2) \<Rightarrow> (Ready (Inr permit), f1, s2)
                       | (None, s2) \<Rightarrow> (Pending, f1, s2))"

text \<open>Dropping the future: cancel the waiter, and remove it from the queue if it still waits.\<close>

definition drop_handle :: "wid option \<Rightarrow> sys \<Rightarrow> sys" where
  "drop_handle handle s =
     (case handle of
        None \<Rightarrow> s
      | Some w \<Rightarrow>
          let (c, ws) = cancel (store s w);
              s1 = s\<lparr>store := (store s)(w := c), woken := woken s @ ws\<rparr>
          in if is_waiting (store s1 w)
             then s1\<lparr>waiters := remove_waiter (store s1) w (waiters s1)\<rparr> else s1)"

definition drop_future :: "acquire_future \<Rightarrow> sys \<Rightarrow> sys" where
  "drop_future f s = drop_handle (f_handle f) s"

end
