(* ===== verification/Semaphore_Facts.thy ===== *)
theory Semaphore_Facts
  imports Acquire
begin

text \<open>
  The permit word as a count and a flag, the operations on it as word operations (interpretations
  of \<open>word_operation\<close>), and what \<open>add_permits_locked\<close> does in terms of the selection.
\<close>

section \<open>The permit word\<close>

definition word_count :: "usize \<Rightarrow> nat" where
  "word_count v = unat (drop_bit PERMIT_SHIFT v)"

definition word_closed :: "usize \<Rightarrow> bool" where
  "word_closed v \<longleftrightarrow> v AND CLOSED = CLOSED"

definition max_permits :: nat where
  "max_permits = 2 ^ 61 - 1"

abbreviation free :: "sys \<Rightarrow> nat" where
  "free s \<equiv> unat (available_permits s)"

named_theorems permit_word "the permit word as a count and a flag"

lemma unat_MAX_PERMITS [permit_word]: "unat MAX_PERMITS = max_permits"
  unfolding MAX_PERMITS_def max_permits_def
  by (simp only: unat_drop_bit_eq drop_bit_eq_div) (simp add: unsigned_minus_1_eq_mask mask_eq_exp_minus_1)

lemma word_count_eq [permit_word]: "word_count v = unat v div 2"
  unfolding word_count_def PERMIT_SHIFT_def by (rule unat_drop_bit_1)

lemma word_closed_eq [permit_word]: "word_closed v \<longleftrightarrow> odd (unat v)"
  by (simp add: word_closed_def CLOSED_def and_1_one_iff)

lemma and_CLOSED [permit_word]:
  "v AND CLOSED = CLOSED \<longleftrightarrow> odd (unat v)" "v AND CLOSED = 0 \<longleftrightarrow> even (unat v)"
  by (simp_all add: CLOSED_def and_1_one_iff and_1_zero_iff)

lemma free_eq [permit_word]: "free s = unat (permits s) div 2"
  unfolding available_permits_def PERMIT_SHIFT_def by (rule unat_drop_bit_1)

lemma is_closed_eq [permit_word]: "is_closed s \<longleftrightarrow> odd (unat (permits s))"
  by (simp add: is_closed_def and_CLOSED)

lemma word_split: "unat v = 2 * word_count v + (if word_closed v then 1 else 0)"
  by (simp add: permit_word)

lemma word_unatD:
  assumes "unat v = 2 * a + (if b then 1 else 0)"
  shows "word_count v = a" "word_closed v = b"
  using assms by (auto simp: permit_word)

lemma word_eqI: "word_count v = word_count w \<Longrightarrow> word_closed v = word_closed w \<Longrightarrow> v = w"
  using word_split [of v] word_split [of w] by (simp add: word_unat_eq_iff)

lemma unat_u32_less: "unat (n :: u32) < 2 ^ 32"
  using unsigned_less [of n, where ?'a = nat] by simp

lemma unat_usize_less: "unat (n :: usize) < 2 ^ 64"
  using unsigned_less [of n, where ?'a = nat] by simp

lemma unat_shift_u32 [permit_word]: "unat (push_bit PERMIT_SHIFT (ucast (n :: u32)) :: usize) = 2 * unat n"
  using unat_u32_less [of n] unat_push_bit_1 [of "ucast n"]
  unfolding PERMIT_SHIFT_def by (simp add: unat_ucast_u32 del: One_nat_def push_bit_of_Suc_0)

lemma unat_shift [permit_word]: "unat n < 2 ^ 63 \<Longrightarrow> unat (push_bit PERMIT_SHIFT n :: usize) = 2 * unat n"
  unfolding PERMIT_SHIFT_def by (rule unat_push_bit_1)

lemma word_count_less: "word_count v < 2 ^ 63"
  using unat_usize_less [of v] by (simp add: word_count_eq)

lemma word_add_permits:
  assumes "word_count v + unat n < 2 ^ 63"
  shows "word_count (v + push_bit PERMIT_SHIFT n) = word_count v + unat n"
    and "word_closed (v + push_bit PERMIT_SHIFT n) = word_closed v"
proof -
  have "unat (push_bit PERMIT_SHIFT n :: usize) = 2 * unat n"
    using assms by (simp add: unat_shift)
  then have "unat (v + push_bit PERMIT_SHIFT n) = unat v + 2 * unat n"
    using assms word_split [of v] by (subst unat_add_lt) (auto split: if_splits)
  then have "unat (v + push_bit PERMIT_SHIFT n)
      = 2 * (word_count v + unat n) + (if word_closed v then 1 else 0)"
    by (subst (asm) word_split) simp
  then show "word_count (v + push_bit PERMIT_SHIFT n) = word_count v + unat n"
    "word_closed (v + push_bit PERMIT_SHIFT n) = word_closed v"
    by (rule word_unatD)+
qed

lemma word_or_closed:
  "word_count (v OR CLOSED) = word_count v" "word_closed (v OR CLOSED)"
proof -
  have "drop_bit 1 (v OR 1) = drop_bit 1 v"
    by (rule bit_eqI) (auto simp: bit_simps)
  then show "word_count (v OR CLOSED) = word_count v"
    by (simp add: word_count_def PERMIT_SHIFT_def CLOSED_def)
  show "word_closed (v OR CLOSED)"
    by (simp add: word_closed_def CLOSED_def bit.conj_disj_distrib2)
qed

lemma new_with_configD:
  assumes "new_with_config addr n c = Done s"
  shows "unat n \<le> max_permits" "free s = unat n" "\<not> is_closed s"
    and "waiters s = wait_queue_new c" "next_wid s = 0" "woken s = []" "sem_addr s = addr"
proof -
  have s: "s = \<lparr>permits = push_bit PERMIT_SHIFT n, waiters = wait_queue_new c,
      store = (\<lambda>_. waiter_new 0 (ISize 0)), next_wid = 0, sem_addr = addr, woken = []\<rparr>"
    and n: "unat n \<le> max_permits"
    using assms by (auto simp: new_with_config_def word_less_nat_alt unat_MAX_PERMITS split: if_splits)
  have "unat (push_bit PERMIT_SHIFT n) = 2 * unat n"
    using n by (intro unat_shift) (simp add: max_permits_def)
  then show "free s = unat n" "\<not> is_closed s" by (simp_all add: s permit_word)
  show "unat n \<le> max_permits" "waiters s = wait_queue_new c" "next_wid s = 0" "woken s = []"
    "sem_addr s = addr" using n by (simp_all add: s)
qed

section \<open>Operations on the word\<close>

definition good_word :: "usize \<Rightarrow> bool" where
  "good_word v \<longleftrightarrow> word_count v \<le> max_permits"

text \<open>All or nothing: closed, too few permits, or exactly \<open>n\<close> permits taken.\<close>

definition acquire_post :: "nat \<Rightarrow> 'p \<Rightarrow> usize \<Rightarrow> TryAcquireError + 'p \<Rightarrow> usize \<Rightarrow> bool" where
  "acquire_post n p v r v' \<longleftrightarrow>
     (if word_closed v then r = Inl Closed \<and> v' = v
      else if word_count v < n then r = Inl NoPermits \<and> v' = v
      else r = Inr p \<and> word_count v' + n = word_count v \<and> \<not> word_closed v')"

lemma word_take_permits:
  assumes "unat m = 2 * n" "n \<le> word_count v"
  shows "word_count (v - m) + n = word_count v" "word_closed (v - m) = word_closed v"
proof -
  have "m \<le> v" using assms word_split [of v] by (simp add: word_le_nat_alt)
  then have "unat (v - m) = unat v - 2 * n" using assms(1) by (simp add: unat_sub)
  then have *: "unat (v - m) = 2 * (word_count v - n) + (if word_closed v then 1 else 0)"
    using assms(2) word_split [of v] by simp
  show "word_count (v - m) + n = word_count v" "word_closed (v - m) = word_closed v"
    using word_unatD [OF *] assms(2) by simp_all
qed

lemma acquire_step:
  assumes "unat m = 2 * n" "atomically (acquire_decide m p) v = (r, v')"
  shows "acquire_post n p v r v'"
proof -
  have "v < m \<longleftrightarrow> word_count v < n" if "\<not> word_closed v"
    using assms(1) word_split [of v] that by (simp add: word_less_nat_alt)
  with assms word_take_permits [OF assms(1), of v] show ?thesis
    by (auto simp: atomically_def acquire_decide_def acquire_post_def simp flip: word_closed_def
        split: if_splits)
qed

definition forget_post :: "nat \<Rightarrow> usize \<Rightarrow> usize \<Rightarrow> usize \<Rightarrow> bool" where
  "forget_post n v removed v' \<longleftrightarrow> unat removed = min (word_count v) n \<and>
     word_count v' + unat removed = word_count v \<and> word_closed v' = word_closed v"

lemma word_make:
  assumes "unat k < 2 ^ 63"
  shows "word_count (push_bit PERMIT_SHIFT k OR (v AND CLOSED)) = unat k"
    and "word_closed (push_bit PERMIT_SHIFT k OR (v AND CLOSED)) = word_closed v"
proof -
  let ?m = "push_bit PERMIT_SHIFT k :: usize" and ?f = "if word_closed v then 1 else 0"
  have "?m AND (v AND CLOSED) = 0"
    unfolding PERMIT_SHIFT_def CLOSED_def
    by (rule bit_eqI) (auto simp: bit_and_iff bit_push_bit_iff bit_1_iff simp del: push_bit_of_1
        push_bit_Suc One_nat_def)
  then have "?m OR (v AND CLOSED) = ?m + (v AND CLOSED)"
    by (simp add: disjunctive_add_eq_or)
  moreover have "unat (v AND CLOSED) = ?f"
    using and_CLOSED [of v] by (auto simp: word_closed_eq CLOSED_def and_one_eq unat_mod_distrib
        odd_iff_mod_2_eq_one even_iff_mod_2_eq_zero)
  ultimately have "unat (?m OR (v AND CLOSED)) = 2 * unat k + ?f"
    using assms by (simp add: unat_add_lt unat_shift)
  then show "word_count (?m OR (v AND CLOSED)) = unat k"
    "word_closed (?m OR (v AND CLOSED)) = word_closed v"
    by (rule word_unatD)+
qed

lemma forget_step:
  assumes "atomically (forget_decide n) v = (removed, v')"
  shows "forget_post (unat n) v removed v'"
proof -
  let ?c = "drop_bit PERMIT_SHIFT v"
  have r: "removed = min ?c n" and v': "v' = push_bit PERMIT_SHIFT (?c - removed) OR (v AND CLOSED)"
    using assms by (auto simp: atomically_def forget_decide_def Let_def)
  have "unat removed = min (unat ?c) (unat n)"
    by (simp add: r min_def word_le_nat_alt)
  moreover have "unat (?c - removed) = unat ?c - unat removed"
    by (simp add: r unat_sub)
  moreover have "unat ?c < 2 ^ 63"
    using word_count_less [of v] by (simp add: word_count_def)
  ultimately show ?thesis
    using word_make [of "?c - removed" v] by (simp add: forget_post_def v' word_count_def)
qed

interpretation acquire_op: word_operation "acquire_decide (push_bit PERMIT_SHIFT (ucast (n :: u32))) p"
    good_word "acquire_post (unat n) p" for n p
proof
  fix v v' r
  assume "good_word v" "atomically (acquire_decide (push_bit PERMIT_SHIFT (ucast n)) p) v = (r, v')"
  then have "acquire_post (unat n) p v r v'" by (intro acquire_step [OF unat_shift_u32])
  with \<open>good_word v\<close> show "good_word v'" "acquire_post (unat n) p v r v'"
    by (auto simp: good_word_def acquire_post_def split: if_splits)
qed

interpretation forget_op: word_operation "forget_decide n" good_word "forget_post (unat n)" for n
proof
  fix v r v'
  assume "good_word v" "atomically (forget_decide n) v = (r, v')"
  with forget_step have "forget_post (unat n) v r v'" by blast
  with \<open>good_word v\<close> show "good_word v'" "forget_post (unat n) v r v'"
    by (auto simp: good_word_def forget_post_def)
qed

end
