(* ===== verification/Release.thy ===== *)
theory Release
  imports Semaphore_Facts
begin

text \<open>
  Releasing permits, by \<open>add_permits\<close> or by dropping a permit, in terms of the selection it makes:
  the relation \<open>released s n ws s'\<close> says that \<open>n\<close> permits were released, \<open>ws\<close> were
  served and notified, and the rest went to the permit word.
\<close>

section \<open>The batch loop runs once\<close>

definition served_by ::
  "store \<Rightarrow> wait_queue \<Rightarrow> usize \<Rightarrow> wid list \<Rightarrow> wait_queue \<Rightarrow> selection \<Rightarrow> bool" where
  "served_by \<sigma> q n ws q' sl \<longleftrightarrow>
     schedule (priority_queues q) (set (active_priorities q)) (sel_init n \<sigma> q) ws (priority_queues q') sl \<and>
     wait_queue_inv (notify_all ws \<sigma>) q' \<and> config q' = config q \<and> closed q' = closed q"

lemma served_byD:
  assumes "served_by \<sigma> q n ws q' sl"
  shows "sel_store sl = notify_all ws \<sigma>" "sel_wakes sl = wake_list_of (wakers_of \<sigma> ws)"
    and "sel_assigned sl = need_words \<sigma> ws" "needs \<sigma> ws \<le> unat n"
    and "length (wakers_of \<sigma> ws) \<le> NUM_WAKERS" "unat (need_words \<sigma> ws) = needs \<sigma> ws"
    and "unat (n - need_words \<sigma> ws) = unat n - needs \<sigma> ws"
    and "sel_avail sl = n - need_words \<sigma> ws"
proof -
  have sel: "selected (priority_queues q) (sel_init n \<sigma> q) ws (priority_queues q') sl"
    using assms by (simp add: served_by_def schedule_def)
  then have sl: "sl = sel_after ws (length (all_waiters (priority_queues q)) -
      length (all_waiters (priority_queues q'))) (sel_init n \<sigma> q)" and ok: "sel_ok sl"
    unfolding selected_def by blast+
  show le: "needs \<sigma> ws \<le> unat n" using selectedD(3) [OF sel] by simp
  show w: "sel_wakes sl = wake_list_of (wakers_of \<sigma> ws)"
    by (simp add: sl) (simp add: sel_after_def)
  show "sel_store sl = notify_all ws \<sigma>" "sel_assigned sl = need_words \<sigma> ws"
    and "sel_avail sl = n - need_words \<sigma> ws" by (simp_all add: sl) (simp_all add: sel_after_def)
  show "length (wakers_of \<sigma> ws) \<le> NUM_WAKERS" using ok w by simp
  show n: "unat (need_words \<sigma> ws) = needs \<sigma> ws" using unat_need_words [OF le] .
  show "unat (n - need_words \<sigma> ws) = unat n - needs \<sigma> ws"
    using le n by (simp add: unat_sub word_le_nat_alt)
qed

lemma served_by_none:
  assumes "wait_queue_inv \<sigma> q" "is_empty q"
  shows "served_by \<sigma> q n [] q (sel_init n \<sigma> q)"
proof -
  have "distinct_keys (priority_queues q)"
    using assms(1) by (auto simp: wait_queue_inv_def queued_ok_def)
  with no_waiters [OF assms(1)] assms show ?thesis
    by (auto simp: served_by_def serve_simps is_empty_def intro: schedule_stop)
qed

lemma select_served:
  assumes "wait_queue_inv \<sigma> q"
  shows "\<exists>ws q' sl. select_waiters_to_notify n \<sigma> q =
      Some (wake_list_of (wakers_of \<sigma> ws), need_words \<sigma> ws, notify_all ws \<sigma>, q') \<and>
    served_by \<sigma> q n ws q' sl"
proof -
  obtain ws sl q' where *:
    "select_waiters_to_notify n \<sigma> q = Some (sel_wakes sl, sel_assigned sl, sel_store sl, q')"
    "schedule (priority_queues q) (set (active_priorities q)) (sel_init n \<sigma> q) ws (priority_queues q') sl"
    "wait_queue_inv (sel_store sl) q'" "config q' = config q" "closed q' = closed q"
    using select_correct [OF assms, of n] by blast
  then have "selected (priority_queues q) (sel_init n \<sigma> q) ws (priority_queues q') sl"
    by (simp add: schedule_def)
  from selectedD(1) [OF this] * have "served_by \<sigma> q n ws q' sl" by (simp add: served_by_def)
  with * served_byD [OF this] show ?thesis by auto
qed

lemma add_permits_loop_once:
  assumes inv: "wait_queue_inv (store s) (waiters s)" and pos: "0 < n"
  shows "\<exists>ws q' sl. served_by (store s) (waiters s) n ws q' sl \<and>
    add_permits_loop n s =
      (let s1 = s\<lparr>store := notify_all ws (store s), waiters := q'\<rparr>; k = need_words (store s) ws
       in if k = 0 \<or> wakers_of (store s) ws = [] then Some (Some (n - k), s1)
          else if is_closed s then Some (None, s1\<lparr>permits := permits s + push_bit PERMIT_SHIFT k\<rparr>)
          else Some (Some (n - k), s1\<lparr>woken := woken s @ wakers_of (store s) ws\<rparr>))"
proof (cases "is_empty (waiters s)")
  case True
  then have "add_permits_loop n s = Some (Some n, s)"
    using pos by (simp add: add_permits_loop.simps [of n s])
  with served_by_none [OF inv True, of n] show ?thesis
    by (intro exI [of _ "[]"] exI [of _ "waiters s"] exI [of _ "sel_init n (store s) (waiters s)"])
      (simp add: serve_simps)
next
  case False
  obtain ws q' sl where sel: "select_waiters_to_notify n (store s) (waiters s) =
      Some (wake_list_of (wakers_of (store s) ws), need_words (store s) ws, notify_all ws (store s), q')"
    "served_by (store s) (waiters s) n ws q' sl"
    using select_served [OF inv] by blast
  have closed: "is_closed (s\<lparr>store := \<sigma>, waiters := q\<rparr>) = is_closed s" for \<sigma> q
    by (simp add: is_closed_def)
  have wake: "wake_all (wake_list_of (wakers_of (store s) ws))
      = Some (wakers_of (store s) ws, wake_list_of [])"
    using served_byD(5) [OF sel(2)] by (rule wake_all_of)
  have "\<not> was_full (wake_list_of [])" by (simp add: NUM_WAKERS_def)
  with False pos sel(1) wake closed show ?thesis
    by (intro exI [of _ ws] exI [of _ q'] exI [of _ sl] conjI sel(2))
      (simp add: add_permits_loop.simps [of n s] Let_def del: wake_list_of_tests(3))
qed

section \<open>The effect of a release\<close>

definition released :: "sys \<Rightarrow> usize \<Rightarrow> wid list \<Rightarrow> sys \<Rightarrow> bool" where
  "released s n ws s' \<longleftrightarrow>
     (\<exists>sl. served_by (store s) (waiters s) n ws (waiters s') sl) \<and>
     store s' = notify_all ws (store s) \<and> next_wid s' = next_wid s \<and> sem_addr s' = sem_addr s \<and>
     is_closed s' = is_closed s \<and>
     woken s' = woken s @ (if need_words (store s) ws = 0 \<or> is_closed s then [] else wakers_of (store s) ws) \<and>
     (is_closed s \<and> ws \<noteq> [] \<or> free s' + needs (store s) ws = free s + unat n) \<and>
     free s' \<le> free s + unat n"

lemma released_word:
  assumes "free s + unat k \<le> max_permits"
  shows "free (s\<lparr>permits := permits s + push_bit PERMIT_SHIFT k\<rparr>) = free s + unat k"
    and "is_closed (s\<lparr>permits := permits s + push_bit PERMIT_SHIFT k\<rparr>) = is_closed s"
proof -
  have "word_count (permits s) + unat k < 2 ^ 63"
    using assms by (simp add: available_permits_def word_count_def max_permits_def)
  from word_add_permits [OF this] show
    "free (s\<lparr>permits := permits s + push_bit PERMIT_SHIFT k\<rparr>) = free s + unat k"
    "is_closed (s\<lparr>permits := permits s + push_bit PERMIT_SHIFT k\<rparr>) = is_closed s"
    by (simp_all add: available_permits_def word_count_def is_closed_def word_closed_def)
qed

lemma no_overflow:
  assumes "free s + unat k \<le> max_permits"
  shows "\<not> unat (drop_bit PERMIT_SHIFT (permits s)) + unat k \<ge> 2 ^ 64"
    and "\<not> drop_bit PERMIT_SHIFT (permits s) + k > MAX_PERMITS"
proof -
  have le: "unat (drop_bit PERMIT_SHIFT (permits s)) + unat k \<le> max_permits"
    using assms by (simp add: available_permits_def)
  then show "\<not> unat (drop_bit PERMIT_SHIFT (permits s)) + unat k \<ge> 2 ^ 64"
    by (simp add: max_permits_def)
  then show "\<not> drop_bit PERMIT_SHIFT (permits s) + k > MAX_PERMITS"
    using le by (simp add: word_less_nat_alt unat_MAX_PERMITS unat_add_lt)
qed

lemma add_permits_put_back:
  assumes "add_permits_loop n s = Some (Some r, s1)" "free s1 + unat r \<le> max_permits"
  shows "add_permits_locked chk n s = (Done (), s1\<lparr>permits := permits s1 + push_bit PERMIT_SHIFT r\<rparr>)"
proof (cases "0 < r")
  case True
  with assms(1) no_overflow [OF assms(2)] show ?thesis by (simp add: add_permits_locked_def Let_def)
next
  case False
  then have "r = 0" by (simp add: word_gt_0)
  with assms(1) show ?thesis by (simp add: add_permits_locked_def)
qed

lemma add_permits_locked_released:
  assumes inv: "wait_queue_inv (store s) (waiters s)" and pos: "0 < n"
    and bound: "free s + unat n \<le> max_permits"
  shows "\<exists>ws s'. add_permits_locked chk n s = (Done (), s') \<and> released s n ws s'"
proof -
  obtain ws q' sl where sv: "served_by (store s) (waiters s) n ws q' sl"
    and loop: "add_permits_loop n s =
      (let s1 = s\<lparr>store := notify_all ws (store s), waiters := q'\<rparr>; k = need_words (store s) ws
       in if k = 0 \<or> wakers_of (store s) ws = [] then Some (Some (n - k), s1)
          else if is_closed s then Some (None, s1\<lparr>permits := permits s + push_bit PERMIT_SHIFT k\<rparr>)
          else Some (Some (n - k), s1\<lparr>woken := woken s @ wakers_of (store s) ws\<rparr>))"
    using add_permits_loop_once [OF inv pos] by blast
  note sd = served_byD [OF sv]
  let ?k = "need_words (store s) ws"
  let ?s1 = "s\<lparr>store := notify_all ws (store s), waiters := q'\<rparr>"
  let ?quiet = "?k = 0 \<or> wakers_of (store s) ws = []"
  show ?thesis
  proof (cases "\<not> ?quiet \<and> is_closed s")
    case True
    let ?s' = "?s1\<lparr>permits := permits s + push_bit PERMIT_SHIFT ?k\<rparr>"
    have "free ?s1 + unat ?k \<le> max_permits" using bound sd(4,6) by (simp add: available_permits_def)
    moreover have "ws \<noteq> []" using True by (auto simp: serve_simps)
    ultimately have "released s n ws ?s'"
      using released_word [of ?s1 ?k] True sd(4,6) sv
      by (auto simp: released_def available_permits_def is_closed_def)
    moreover have "add_permits_locked chk n s = (Done (), ?s')"
      using True loop by (simp add: add_permits_locked_def)
    ultimately show ?thesis by blast
  next
    case False
    let ?s2 = "?s1\<lparr>woken := woken s @ (if ?quiet then [] else wakers_of (store s) ws)\<rparr>"
    let ?s' = "?s2\<lparr>permits := permits s + push_bit PERMIT_SHIFT (n - ?k)\<rparr>"
    have b: "free ?s2 + unat (n - ?k) \<le> max_permits"
      using bound sd(7) by (simp add: available_permits_def)
    have "add_permits_loop n s = Some (Some (n - ?k), ?s2)"
      using False loop by (auto simp: Let_def)
    then have "add_permits_locked chk n s = (Done (), ?s')"
      using add_permits_put_back [OF _ b] by simp
    moreover have "released s n ws ?s'"
      using released_word [OF b] False sd(4,7) sv
      by (auto simp: released_def available_permits_def is_closed_def)
    ultimately show ?thesis by blast
  qed
qed

lemma drop_permit_released:
  assumes inv: "wait_queue_inv (store s) (waiters s)"
    and bound: "free s + unat (p_permits p) \<le> max_permits"
  shows "\<exists>ws s'. drop_permit chk p s = (Done (), s') \<and> released s (ucast (p_permits p)) ws s'"
proof -
  let ?n = "ucast (p_permits p) :: usize"
  have n: "unat ?n = unat (p_permits p)" by (rule unat_ucast_u32)
  have b: "free s + unat ?n \<le> max_permits" using bound n by simp
  consider "p_permits p = 0" | "p_permits p \<noteq> 0" "is_empty (waiters s)"
    | "p_permits p \<noteq> 0" "\<not> is_empty (waiters s)" by blast
  then show ?thesis
  proof cases
    case 1
    have "served_by (store s) (waiters s) ?n [] (waiters s) (sel_init ?n (store s) (waiters s))"
      using inv 1 by (auto simp: served_by_def serve_simps wait_queue_inv_def
          intro: schedule_stop dest: queued_okD(1))
    then have "released s ?n [] s" using 1 by (auto simp: released_def serve_simps)
    moreover have "drop_permit chk p s = (Done (), s)" using 1 by (simp add: drop_permit_def)
    ultimately show ?thesis by blast
  next
    case 2
    let ?s' = "s\<lparr>permits := permits s + push_bit PERMIT_SHIFT ?n\<rparr>"
    have "released s ?n [] ?s'"
      using served_by_none [OF inv 2(2), of ?n] released_word [OF b]
      by (auto simp: released_def serve_simps)
    moreover have "drop_permit chk p s = (Done (), ?s')" using 2 by (simp add: drop_permit_def)
    ultimately show ?thesis by blast
  next
    case 3
    have "0 < ?n" using 3(1) n by (simp add: word_gt_0 word_unat_eq_iff)
    from add_permits_locked_released [OF inv this b, of chk] 3 show ?thesis
      by (simp add: drop_permit_def)
  qed
qed

lemma add_permits_released:
  assumes inv: "wait_queue_inv (store s) (waiters s)" and bound: "free s + unat n \<le> max_permits"
  shows "\<exists>ws s'. add_permits chk n s = (Done (), s') \<and> released s n ws s'"
proof (cases "n = 0")
  case True
  have "served_by (store s) (waiters s) n [] (waiters s) (sel_init n (store s) (waiters s))"
    using inv True by (auto simp: served_by_def serve_simps wait_queue_inv_def
        intro: schedule_stop dest: queued_okD(1))
  then have "released s n [] s" using True by (auto simp: released_def serve_simps)
  then show ?thesis using True by (auto simp: add_permits_def)
next
  case False
  then have "0 < n" by (simp add: word_gt_0)
  from add_permits_locked_released [OF inv this bound, of chk] False show ?thesis
    by (simp add: add_permits_def)
qed

text \<open>The batch loop takes one round, so the waiters and the queue are those of one selection.\<close>

lemma add_permits_selects:
  assumes inv: "wait_queue_inv (store s) (waiters s)" and s': "s' = snd (add_permits chk n s)"
  shows "\<exists>wl k. select_waiters_to_notify n (store s) (waiters s) = Some (wl, k, store s', waiters s')"
proof -
  obtain ws q' sl where sel: "select_waiters_to_notify n (store s) (waiters s) =
      Some (wake_list_of (wakers_of (store s) ws), need_words (store s) ws, notify_all ws (store s), q')"
    "served_by (store s) (waiters s) n ws q' sl"
    using select_served [OF inv] by blast
  consider "n = 0" | "n \<noteq> 0" "is_empty (waiters s)" | "n \<noteq> 0" "\<not> is_empty (waiters s)" by blast
  then show ?thesis
  proof cases
    case 1
    then show ?thesis by (simp add: s' add_permits_def select_waiters_to_notify_def)
  next
    case 2
    then have "add_permits_loop n s = Some (Some n, s)"
      by (simp add: add_permits_loop.simps [of n s] word_gt_0)
    with 2 have "store s' = store s" "waiters s' = waiters s"
      by (auto simp: s' add_permits_def add_permits_locked_def Let_def)
    with 2(2) show ?thesis by (simp add: select_waiters_to_notify_def is_empty_def)
  next
    case 3
    have wake: "wake_all (wake_list_of (wakers_of (store s) ws))
        = Some (wakers_of (store s) ws, wake_list_of [])"
      using served_byD(5) [OF sel(2)] by (rule wake_all_of)
    have "\<not> was_full (wake_list_of [])" by (simp add: NUM_WAKERS_def)
    with 3 sel(1) wake have "case add_permits_loop n s of None \<Rightarrow> False
        | Some (r, s1) \<Rightarrow> store s1 = notify_all ws (store s) \<and> waiters s1 = q'"
      by (simp add: add_permits_loop.simps [of n s] word_gt_0 Let_def del: wake_list_of_tests(3))
    with 3(1) have "store s' = notify_all ws (store s)" "waiters s' = q'"
      by (auto simp: s' add_permits_def add_permits_locked_def Let_def split: option.splits)
    with sel(1) show ?thesis by auto
  qed
qed

section \<open>Consequences\<close>

lemma served_by_waiters:
  assumes "served_by \<sigma> q n ws q' sl"
  shows "set ws \<subseteq> queued q" "distinct ws" "set ws \<inter> queued q' = {}" "queued q' \<subseteq> queued q"
    and "w \<in> set ws \<Longrightarrow> is_waiting (\<sigma> w)" "wait_queue_inv (notify_all ws \<sigma>) q'"
    and "live \<sigma> (queue_of (priority_queues q) p) =
      filter (\<lambda>w. priority (\<sigma> w) = p) ws @ live \<sigma> (queue_of (priority_queues q') p)"
proof -
  from assms have sel: "selected (priority_queues q) (sel_init n \<sigma> q) ws (priority_queues q') sl"
    and inv: "wait_queue_inv (notify_all ws \<sigma>) q'"
    by (simp_all add: served_by_def schedule_def)
  note D = selectedD [OF sel]
  show "set ws \<subseteq> queued q" "distinct ws" "set ws \<inter> queued q' = {}" "queued q' \<subseteq> queued q"
    "w \<in> set ws \<Longrightarrow> is_waiting (\<sigma> w)"
    using D(4,5,6) sel by (simp_all add: queued_def selected_def)
  show "wait_queue_inv (notify_all ws \<sigma>) q'" by (fact inv)
  show "live \<sigma> (queue_of (priority_queues q) p) =
      filter (\<lambda>w. priority (\<sigma> w) = p) ws @ live \<sigma> (queue_of (priority_queues q') p)"
    using sel by (simp add: selected_def)
qed

lemma served_by_keeps:
  assumes "served_by \<sigma> q n ws q' sl" "wait_queue_inv \<sigma> q" "w \<in> queued q" "w \<notin> set ws" "is_waiting (\<sigma> w)"
  shows "w \<in> queued q'"
proof -
  let ?p = "priority (\<sigma> w)"
  have "queued_ok \<sigma> (priority_queues q)" using assms(2) by (simp add: wait_queue_inv_def)
  from queued_okD(6) [OF this] assms(3,5) have "w \<in> set (live \<sigma> (queue_of (priority_queues q) ?p))"
    by (simp add: queued_def live_def waiter_tests)
  with served_by_waiters(7) [OF assms(1)] assms(4)
  have "w \<in> set (live \<sigma> (queue_of (priority_queues q') ?p))" by simp
  then show ?thesis
    using live_subset queue_of_subset unfolding queued_def by blast
qed

lemma releasedD:
  assumes "released s n ws s'"
  shows "set ws \<subseteq> queued (waiters s)" "distinct ws" "set ws \<inter> queued (waiters s') = {}"
    and "queued (waiters s') \<subseteq> queued (waiters s)" "w \<in> set ws \<Longrightarrow> is_waiting (store s w)"
    and "wait_queue_inv (store s') (waiters s')" "needs (store s) ws \<le> unat n"
    and "live (store s) (queue_of (priority_queues (waiters s)) p) =
      filter (\<lambda>w. priority (store s w) = p) ws @
      live (store s) (queue_of (priority_queues (waiters s')) p)"
proof -
  obtain sl where sv: "served_by (store s) (waiters s) n ws (waiters s') sl"
    and st: "store s' = notify_all ws (store s)"
    using assms by (auto simp: released_def)
  note W = served_by_waiters [OF sv]
  show "set ws \<subseteq> queued (waiters s)" "distinct ws" "set ws \<inter> queued (waiters s') = {}"
    "queued (waiters s') \<subseteq> queued (waiters s)" "w \<in> set ws \<Longrightarrow> is_waiting (store s w)"
    using W(1-5) by blast+
  show "wait_queue_inv (store s') (waiters s')" using W(6) by (simp add: st)
  show "needs (store s) ws \<le> unat n" using served_byD(4) [OF sv] .
  show "live (store s) (queue_of (priority_queues (waiters s)) p) =
      filter (\<lambda>w. priority (store s w) = p) ws @
      live (store s) (queue_of (priority_queues (waiters s')) p)" by (rule W(7))
qed

lemma released_keeps:
  assumes "released s n ws s'" "wait_queue_inv (store s) (waiters s)"
    and "w \<in> queued (waiters s)" "w \<notin> set ws" "is_waiting (store s w)"
  shows "w \<in> queued (waiters s')"
  using assms served_by_keeps by (fastforce simp: released_def)

end
