(* ===== verification/Acquire_Owned.thy ===== *)
theory Acquire_Owned
  imports Acquire
begin

text \<open>
  The futures of owned permits (\<open>AcquireOwned\<close> in \<open>semaphore/futures.rs\<close>, its
  constructors in \<open>semaphore/methods.rs\<close>). The code duplicates the borrowed version with the
  owned types, and so does the model; the last section relates the two: under the change of types
  \<open>borrow_permit\<close>/\<open>borrow_future\<close> every owned operation is the borrowed one.
\<close>

section \<open>The future of an owned permit\<close>

record acquire_owned_future =
  fo_sem :: nat
  fo_needed :: usize
  fo_priority :: isize
  fo_handle :: "wid option"

definition acquire_many_owned_with_priority :: "isize \<Rightarrow> u32 \<Rightarrow> sys \<Rightarrow> acquire_owned_future" where
  "acquire_many_owned_with_priority p n s =
     \<lparr>fo_sem = sem_addr s, fo_needed = ucast n, fo_priority = p, fo_handle = None\<rparr>"

definition acquire_owned :: "sys \<Rightarrow> acquire_owned_future" where
  "acquire_owned s = acquire_many_owned_with_priority (ISize 0) 1 s"

definition acquire_owned_with_priority :: "isize \<Rightarrow> sys \<Rightarrow> acquire_owned_future" where
  "acquire_owned_with_priority p s = acquire_many_owned_with_priority p 1 s"

definition acquire_many_owned :: "u32 \<Rightarrow> sys \<Rightarrow> acquire_owned_future" where
  "acquire_many_owned n s = acquire_many_owned_with_priority (ISize 0) n s"

definition poll_owned ::
  "bool \<Rightarrow> waker \<Rightarrow> acquire_owned_future \<Rightarrow> sys \<Rightarrow> owned_permit poll \<times> acquire_owned_future \<times> sys" where
  "poll_owned cas_ok k f s =
     (let permit = \<lparr>o_sem = fo_sem f, o_permits = ucast (fo_needed f)\<rparr>;
          fast = (if fo_handle f = None
                  then poll_fast cas_ok (push_bit PERMIT_SHIFT (fo_needed f)) (permits s)
                  else (None, permits s))
      in case fast of
           (Some (Inl e), _) \<Rightarrow> (Ready (Inl e), f, s)
         | (Some (Inr _), bits) \<Rightarrow> (Ready (Inr permit), f, s\<lparr>permits := bits\<rparr>)
         | (None, _) \<Rightarrow>
             let (handle, s1) = (case fo_handle f of
                    Some w \<Rightarrow> (Some w, s)
                  | None \<Rightarrow> poll_enqueue (fo_needed f) (fo_priority f) s)
             in case handle of
                  None \<Rightarrow> (Ready (Inl acquire_error_closed), f, s1)
                | Some w \<Rightarrow>
                    let f1 = f\<lparr>fo_handle := Some w\<rparr>
                    in case poll_wait w k s1 of
                         (Some (Inl e), s2) \<Rightarrow> (Ready (Inl e), f1, s2)
                       | (Some (Inr _), s2) \<Rightarrow> (Ready (Inr permit), f1, s2)
                       | (None, s2) \<Rightarrow> (Pending, f1, s2))"

definition drop_owned_future :: "acquire_owned_future \<Rightarrow> sys \<Rightarrow> sys" where
  "drop_owned_future f s = drop_handle (fo_handle f) s"

section \<open>Owned and borrowed\<close>

definition borrow_permit :: "owned_permit \<Rightarrow> permit" where
  "borrow_permit p = \<lparr>p_sem = o_sem p, p_permits = o_permits p\<rparr>"

definition borrow_future :: "acquire_owned_future \<Rightarrow> acquire_future" where
  "borrow_future f = \<lparr>f_sem = fo_sem f, f_needed = fo_needed f, f_priority = fo_priority f,
     f_handle = fo_handle f\<rparr>"

lemma borrow_permit_sel [simp]:
  "p_sem (borrow_permit p) = o_sem p" "p_permits (borrow_permit p) = o_permits p"
  "borrow_permit \<lparr>o_sem = a, o_permits = k\<rparr> = \<lparr>p_sem = a, p_permits = k\<rparr>"
  "borrow_permit (p\<lparr>o_permits := k\<rparr>) = (borrow_permit p)\<lparr>p_permits := k\<rparr>"
  by (simp_all add: borrow_permit_def)

lemma borrow_future_sel [simp]:
  "f_sem (borrow_future f) = fo_sem f" "f_needed (borrow_future f) = fo_needed f"
  "f_priority (borrow_future f) = fo_priority f" "f_handle (borrow_future f) = fo_handle f"
  "borrow_future (f\<lparr>fo_handle := h\<rparr>) = (borrow_future f)\<lparr>f_handle := h\<rparr>"
  by (simp_all add: borrow_future_def)

text \<open>A retry loop does not look at the permit it returns.\<close>

lemma acquire_decide_map:
  "acquire_decide n (g p) = map_sum (map_sum id g) (map_prod id (map_sum id g)) \<circ> acquire_decide n p"
  by (auto simp: acquire_decide_def fun_eq_iff)

lemma cas_loop_map:
  "cas_loop (map_sum g (map_prod id g) \<circ> d) env cell cur = map_prod g id (cas_loop d env cell cur)"
proof (induction d env cell cur rule: cas_loop.induct)
  case (1 d env cell cur)
  show ?case
  proof (cases "d cur")
    case (Inl r)
    then show ?thesis by (subst (1 2) cas_loop.simps) simp
  next
    case (Inr nr)
    obtain new r where nr: "nr = (new, r)" by (cases nr)
    obtain cell' res where cx:
      "compare_exchange_weak (case env of [] \<Rightarrow> Quiet | e # _ \<Rightarrow> e) cell cur new = (cell', res)"
      by (rule prod.exhaust)
    have IH: "cas_loop (map_sum g (map_prod id g) \<circ> d) (tl env) cell' v =
        map_prod g id (cas_loop d (tl env) cell' v)" if "res = Some v" for v
      using "1.IH" [OF Inr nr [symmetric] cx [symmetric] that] .
    show ?thesis
      using Inr nr cx IH by (subst (1 2) cas_loop.simps) (simp split: option.split)
  qed
qed

lemma cas_loop_acquire_map:
  "cas_loop (acquire_decide n (g p)) env cell cur =
     map_prod (map_sum id g) id (cas_loop (acquire_decide n p) env cell cur)"
  unfolding acquire_decide_map by (rule cas_loop_map)

lemma poll_owned_borrow:
  "poll cas_ok k (borrow_future f) s =
     (let (r, f', s') = poll_owned cas_ok k f s in (map_poll borrow_permit r, borrow_future f', s'))"
  by (auto simp: poll_def poll_owned_def Let_def split: option.split sum.split prod.split unit.split)

lemma drop_owned_permit_borrow: "drop_owned_permit c p s = drop_permit c (borrow_permit p) s"
  by (simp add: drop_owned_permit_def drop_permit_def)

lemma merge_owned_borrow:
  "merge c (borrow_permit p) (borrow_permit q) =
     map_outcome (map_prod borrow_permit borrow_permit) (merge_owned c p q)"
  by (simp add: merge_def merge_owned_def)

lemma split_owned_borrow:
  "unat n < 2 ^ 32 \<Longrightarrow>
   split_permit (ucast n) (borrow_permit p) = map_prod (map_option borrow_permit) borrow_permit (split_owned n p)"
  by (simp add: split_permit_def split_owned_def u32_try_from_def)

end
