(* ===== verification/Effects.thy ===== *)
theory Effects
  imports Release Acquire_Owned
begin

text \<open>
  The effect of every operation but the release on the whole state, in one equation or one
  relation each: the non-blocking acquisitions under interference and without it, a poll of a future,
  the drop of a future, and closing.
\<close>

section \<open>Non-blocking acquisition\<close>

lemma closed_word: "permits s AND CLOSED = 0 \<longleftrightarrow> \<not> is_closed s" "permits s AND CLOSED = CLOSED \<longleftrightarrow> is_closed s"
  by (simp_all add: permit_word)

lemma unat_shift_1: "unat (push_bit PERMIT_SHIFT 1 :: usize) = 2"
  using unat_shift [of 1] by simp

abbreviation try_acquire_word :: "sys \<Rightarrow> (TryAcquireError + permit) decision" where
  "try_acquire_word s \<equiv> acquire_decide (push_bit PERMIT_SHIFT 1) \<lparr>p_sem = sem_addr s, p_permits = 1\<rparr>"

lemma try_acquire_linear:
  assumes "try_acquire env s = (r, s')"
  shows "\<exists>u \<in> insert (permits s) (overwrites env). \<exists>v'.
    atomically (try_acquire_word s) u = (r, v') \<and> s' = s\<lparr>permits := v'\<rparr>"
proof -
  let ?d = "try_acquire_word s" and ?v = "permits s"
  let ?u = "case env of Overwrite v # _ \<Rightarrow> v | _ \<Rightarrow> ?v"
  have u: "insert ?u (overwrites (tl env)) \<subseteq> insert ?v (overwrites env)"
    by (auto split: list.split interference.split simp: overwrites_def)
  consider (quit) "?v AND CLOSED \<noteq> 0 \<or> ?v < push_bit PERMIT_SHIFT 1"
    | (take) "?v AND CLOSED = 0" "\<not> ?v < push_bit PERMIT_SHIFT 1" "?u = ?v"
    | (retry) "?v AND CLOSED = 0" "\<not> ?v < push_bit PERMIT_SHIFT 1" "?u \<noteq> ?v" by blast
  then show ?thesis
  proof cases
    case quit
    then have "atomically ?d ?v = (r, permits s) \<and> s' = s"
      using assms closed_word [of s]
      by (auto simp: try_acquire_def atomically_def acquire_decide_def split: if_splits)
    then show ?thesis by (intro bexI [of _ ?v] exI [of _ ?v]) auto
  next
    case take
    then have "atomically ?d ?v = (r, ?v - push_bit PERMIT_SHIFT 1) \<and>
        s' = s\<lparr>permits := ?v - push_bit PERMIT_SHIFT 1\<rparr>"
      using assms closed_word [of s]
      by (auto simp: try_acquire_def atomically_def acquire_decide_def compare_exchange_def Let_def)
    then show ?thesis by (intro bexI [of _ ?v]) auto
  next
    case retry
    then have "(r, s') = try_acquire_retry_loop (tl env) (s\<lparr>permits := ?u\<rparr>)"
      using assms by (auto simp: try_acquire_def compare_exchange_def Let_def)
    then obtain bits where "cas_loop ?d (tl env) ?u ?u = (r, bits)" "s' = s\<lparr>permits := bits\<rparr>"
      by (auto simp: try_acquire_retry_loop_def split: prod.splits)
    moreover obtain u' where "u' \<in> insert ?u (overwrites (tl env))"
      "cas_loop ?d (tl env) ?u ?u = atomically ?d u'"
      using cas_loop_linearizable by blast
    moreover from this(1) u have "u' \<in> insert ?v (overwrites env)" by (rule subsetD [rotated])
    ultimately show ?thesis by (intro bexI [of _ u'] exI [of _ bits]) simp_all
  qed
qed

text \<open>
  \<open>taken s0 n r s s'\<close>: seeing the word of \<open>s0\<close>, the operation took all of \<open>n\<close> permits
  or reported why not.
\<close>

definition taken :: "usize \<Rightarrow> u32 \<Rightarrow> (TryAcquireError + permit) \<Rightarrow> sys \<Rightarrow> sys \<Rightarrow> bool" where
  "taken seen n r s s' \<longleftrightarrow> (\<exists>v'. s' = s\<lparr>permits := v'\<rparr> \<and>
     acquire_post (unat n) \<lparr>p_sem = sem_addr s, p_permits = n\<rparr> seen r v')"

lemma try_acquire_taken:
  assumes "try_acquire env s = (r, s')"
  shows "\<exists>u \<in> insert (permits s) (overwrites env). taken u 1 r s s'"
proof -
  obtain u v' where u: "u \<in> insert (permits s) (overwrites env)"
    "atomically (try_acquire_word s) u = (r, v')" "s' = s\<lparr>permits := v'\<rparr>"
    using try_acquire_linear [OF assms] by blast
  from acquire_step [OF _ u(2), of 1] have
    "acquire_post (unat (1 :: u32)) \<lparr>p_sem = sem_addr s, p_permits = 1\<rparr> u r v'"
    unfolding unat_shift_1 by simp
  with u show ?thesis unfolding taken_def by blast
qed

lemma u32_not_above_max: "\<not> MAX_PERMITS < ucast (n :: u32)"
  using unat_u32_less [of n]
  by (simp add: not_less word_le_nat_alt unat_MAX_PERMITS unat_ucast_u32 max_permits_def)

lemma try_acquire_many_taken:
  assumes "n \<noteq> 0"
  shows "\<exists>r s'. try_acquire_many env n s = (Done r, s') \<and>
    (\<exists>u \<in> insert (permits s) (overwrites env). taken u n r s s')"
proof -
  let ?p = "\<lparr>p_sem = sem_addr s, p_permits = n\<rparr>"
  let ?d = "acquire_decide (push_bit PERMIT_SHIFT (ucast n)) ?p"
  obtain r v' where run: "cas_loop ?d env (permits s) (permits s) = (r, v')"
    by (rule prod.exhaust)
  then obtain u where u: "u \<in> insert (permits s) (overwrites env)" "atomically ?d u = (r, v')"
    using cas_loop_linearizable [of "permits s" env ?d] by metis
  from acquire_step [OF unat_shift_u32 u(2)] have "taken u n r s (s\<lparr>permits := v'\<rparr>)"
    by (auto simp: taken_def)
  with u run assms show ?thesis
    by (auto simp: try_acquire_many_def u32_not_above_max Let_def)
qed

lemma try_acquire_many_frame:
  assumes "try_acquire_many env n s = (r, s')"
  shows "store s' = store s" "waiters s' = waiters s" "next_wid s' = next_wid s"
  using assms by (auto simp: try_acquire_many_def Let_def split: if_splits prod.splits)

lemma takenD:
  assumes "taken (permits s) n r s s'"
  shows "store s' = store s" "waiters s' = waiters s" "next_wid s' = next_wid s"
    and "sem_addr s' = sem_addr s" "is_closed s' = is_closed s"
    and "r = Inr p \<Longrightarrow> \<not> is_closed s \<and> p = \<lparr>p_sem = sem_addr s, p_permits = n\<rparr> \<and> free s' + unat n = free s"
    and "r = Inl e \<Longrightarrow> s' = s \<and> (e = Closed \<longleftrightarrow> is_closed s) \<and> (e = NoPermits \<longrightarrow> free s < unat n)"
  using assms
  by (auto simp: taken_def acquire_post_def available_permits_def word_count_def is_closed_def
      word_closed_def split: if_splits)

lemma forget_permits_effect:
  assumes env: "overwrites env = {}" and f: "forget_permits env n s = (removed, s')"
  shows "store s' = store s" "waiters s' = waiters s" "next_wid s' = next_wid s"
    and "sem_addr s' = sem_addr s" "is_closed s' = is_closed s" "free s' + unat removed = free s"
proof -
  have "s' = s\<lparr>permits := permits s'\<rparr> \<and> word_closed (permits s') = word_closed (permits s) \<and>
    word_count (permits s') + unat removed = word_count (permits s)"
  proof (cases "n = 0")
    case True
    with f show ?thesis by (auto simp: forget_permits_def)
  next
    case False
    obtain v' where run: "cas_loop (forget_decide n) env (permits s) (permits s) = (removed, v')"
      and s': "s' = s\<lparr>permits := v'\<rparr>"
      using f False by (auto simp: forget_permits_def Let_def split: prod.splits)
    from run cas_loop_linearizable [of "permits s" env "forget_decide n"] env
    have "atomically (forget_decide n) (permits s) = (removed, v')" by simp
    then have "forget_post (unat n) (permits s) removed v'" by (rule forget_step)
    then show ?thesis by (simp add: s' forget_post_def)
  qed
  then show "store s' = store s" "waiters s' = waiters s" "next_wid s' = next_wid s"
    "sem_addr s' = sem_addr s" "is_closed s' = is_closed s" "free s' + unat removed = free s"
    by (simp_all add: available_permits_def word_count_def is_closed_def word_closed_def)
      (metis sys.select_convs sys.surjective sys.update_convs(1))+
qed

section \<open>Polling\<close>

lemma poll_eq:
  "poll cas_ok k f s =
     (case f_handle f of
        None \<Rightarrow>
          if is_closed s then (Ready (Inl acquire_error_closed), f, s)
          else if push_bit PERMIT_SHIFT (f_needed f) \<le> permits s \<and> cas_ok
          then (Ready (Inr \<lparr>p_sem = f_sem f, p_permits = ucast (f_needed f)\<rparr>), f,
                s\<lparr>permits := permits s - push_bit PERMIT_SHIFT (f_needed f)\<rparr>)
          else (Pending, f\<lparr>f_handle := Some (next_wid s)\<rparr>,
                s\<lparr>store := (store s)(next_wid s := set_waker (waiter_new (f_needed f) (f_priority f)) k),
                  next_wid := next_wid s + 1,
                  waiters := insert_waiter_optimized (waiters s) (next_wid s) (f_priority f)\<rparr>)
      | Some w \<Rightarrow>
          if is_cancelled (store s w) \<or> is_notified (store s w) \<and> is_closed s
          then (Ready (Inl acquire_error_closed), f, s)
          else if is_notified (store s w)
          then (Ready (Inr \<lparr>p_sem = f_sem f, p_permits = ucast (f_needed f)\<rparr>), f, s)
          else (Pending, f, s\<lparr>store := (store s)(w := set_waker (store s w) k)\<rparr>))"
proof (cases "f_handle f")
  case None
  note unfolds = poll_def poll_fast_def poll_enqueue_def push_waiter_def waiter_handle_new_def poll_wait_def waiter_tests
    closed_word
  consider "is_closed s" | "\<not> is_closed s" "push_bit PERMIT_SHIFT (f_needed f) \<le> permits s \<and> cas_ok"
    | "\<not> is_closed s" "\<not> (push_bit PERMIT_SHIFT (f_needed f) \<le> permits s \<and> cas_ok)"
    by blast
  then show ?thesis
  proof cases
    case 1
    with None show ?thesis by (simp add: unfolds)
  next
    case 2
    with None show ?thesis by (simp add: unfolds)
  next
    case 3
    with None show ?thesis by (auto simp: unfolds)
  qed
next
  case (Some w)
  then have "f\<lparr>f_handle := Some w\<rparr> = f" by (cases f) simp
  with Some show ?thesis
    by (auto simp: poll_def poll_wait_def)
qed

lemma fits_free:
  "unat n < 2 ^ 63 \<Longrightarrow> push_bit PERMIT_SHIFT n \<le> permits s \<longleftrightarrow> unat n \<le> free s"
  using unat_shift [of n] by (auto simp: word_le_nat_alt free_eq)

lemma free_taken:
  assumes "unat n < 2 ^ 63" "push_bit PERMIT_SHIFT n \<le> permits s"
  shows "free (s\<lparr>permits := permits s - push_bit PERMIT_SHIFT n\<rparr>) + unat n = free s"
    and "is_closed (s\<lparr>permits := permits s - push_bit PERMIT_SHIFT n\<rparr>) = is_closed s"
proof -
  have m: "unat (push_bit PERMIT_SHIFT n) = 2 * unat n" using assms(1) by (rule unat_shift)
  then have "unat n \<le> word_count (permits s)"
    using assms(2) by (simp add: word_le_nat_alt word_count_eq)
  from word_take_permits [OF m this] show
    "free (s\<lparr>permits := permits s - push_bit PERMIT_SHIFT n\<rparr>) + unat n = free s"
    "is_closed (s\<lparr>permits := permits s - push_bit PERMIT_SHIFT n\<rparr>) = is_closed s"
    by (simp_all add: available_permits_def word_count_def is_closed_def word_closed_def)
qed

section \<open>Dropping a future\<close>

text \<open>After \<open>cancel\<close> no waiter is waiting, so the removal from the queue never happens.\<close>

lemma drop_future_eq:
  "drop_future f s =
     (case f_handle f of
        None \<Rightarrow> s
      | Some w \<Rightarrow> s\<lparr>store := (store s)(w := fst (cancel (store s w))),
                     woken := woken s @ snd (cancel (store s w))\<rparr>)"
  using cancel_not_waiting
  by (auto simp: drop_future_def drop_handle_def Let_def split: option.split prod.split)
    (metis fst_conv)

section \<open>Closing\<close>

lemma close_waiters_eq:
  assumes inv: "wait_queue_inv (store s) (waiters s)" and h: "hash_order_ok h"
  shows "\<exists>ws. set ws = queued (waiters s) \<and> distinct ws \<and>
    close_waiters h s = s\<lparr>
      store := (\<lambda>w. if w \<in> queued (waiters s) then fst (cancel (store s w)) else store s w),
      waiters := (waiters s)\<lparr>closed := True, priority_queues := [], active_priorities := [],
        total_waiters := 0\<rparr>,
      woken := woken s @ concat (map (\<lambda>w. snd (cancel (store s w))) ws)\<rparr>"
proof -
  let ?ws = "fst (drain_all_waiters h (priority_queues (waiters s)))"
  note ms = drain_all_waiters_mset [OF h, of "priority_queues (waiters s)"]
  have set: "set ?ws = queued (waiters s)"
    using arg_cong [OF ms, of set_mset] by (simp add: queued_def)
  moreover have dist: "distinct ?ws"
    using distinct_mset_eq [OF ms] inv by (simp add: wait_queue_inv_def queued_ok_def)
  ultimately show ?thesis
    using cancel_all_eq [OF dist, of "store s"]
    by (intro exI [of _ ?ws]) (simp add: close_waiters_def close_queue_def drain_all_waiters_def)
qed

lemma close_eq:
  assumes "wait_queue_inv (store s) (waiters s)" "hash_order_ok h"
  shows "\<exists>ws. set ws = queued (waiters s) \<and> distinct ws \<and>
    close h s = s\<lparr>permits := permits s OR CLOSED,
      store := (\<lambda>w. if w \<in> queued (waiters s) then fst (cancel (store s w)) else store s w),
      waiters := (waiters s)\<lparr>closed := True, priority_queues := [], active_priorities := [],
        total_waiters := 0\<rparr>,
      woken := woken s @ concat (map (\<lambda>w. snd (cancel (store s w))) ws)\<rparr>"
  using close_waiters_eq [of "close_flag s" h] assms by (simp add: close_def close_flag_def cong: if_cong)

text \<open>Cancelling wakes the waiting ones.\<close>

lemma cancelled_wakers:
  assumes "\<forall>w \<in> set ws. is_waiting (\<sigma> w) \<or> is_cancelled (\<sigma> w)"
  shows "concat (map (\<lambda>w. snd (cancel (\<sigma> w))) ws) = wakers_of \<sigma> (filter (\<lambda>w. is_waiting (\<sigma> w)) ws)"
proof -
  have "snd (cancel a) = (if is_waiting a then wake_by_ref_under_lock (waker a) else [])"
    if "is_waiting a \<or> is_cancelled a" for a
    using that by (auto simp: cancel_cases waiter_tests)
  with assms show ?thesis by (induction ws) (simp_all add: serve_simps)
qed

lemma queued_waits: "wait_queue_inv \<sigma> q \<Longrightarrow> w \<in> queued q \<Longrightarrow> is_waiting (\<sigma> w) \<or> is_cancelled (\<sigma> w)"
  using queued_okD(5) by (auto simp: wait_queue_inv_def queued_def)

text \<open>Beside the served waiters only cancelled ones leave the queue.\<close>

lemma served_by_gone:
  assumes "wait_queue_inv \<sigma> q" "served_by \<sigma> q n ws q' sl" "w \<in> queued q" "w \<notin> queued q'" "w \<notin> set ws"
  shows "is_cancelled (\<sigma> w)"
  using served_by_keeps [OF assms(2,1,3,5)] queued_waits [OF assms(1,3)] assms(4) by blast

lemma close_flag_word: "free (close_flag s) = free s" "is_closed (close_flag s)"
  using word_or_closed [of "permits s"]
  by (simp_all add: close_flag_def available_permits_def word_count_def is_closed_def word_closed_def)

lemma close_word: "free (close h s) = free s" "is_closed (close h s)"
  using close_flag_word [of s]
  by (simp_all add: close_def close_waiters_def available_permits_def is_closed_def split: prod.split)

end
