(* ===== verification/Client.thy ===== *)
theory Client
  imports Effects
begin

text \<open>
  A semaphore and everybody who uses it, as a transition system: the futures that are still alive,
  the permits held, and two counters that exist only in the model, the permits ever issued to the
  semaphore and those withdrawn for good. One step is one whole operation of the program, by any
  client, in any order. Owned permits and futures behave as their borrowed counterparts (theory
  \<open>Acquire_Owned\<close>), so one kind of each is enough here.
\<close>

section \<open>States\<close>

text \<open>A future comes with a flag: whether it has returned \<open>Ready\<close>.\<close>

type_synonym task = "acquire_future \<times> bool"

record client =
  csys :: sys
  futs :: "task multiset"
  held :: "permit multiset"
  issued :: nat
  retired :: nat

definition reserved_by :: "store \<Rightarrow> task \<Rightarrow> nat" where
  "reserved_by \<sigma> t =
     (case (f_handle (fst t), snd t) of
        (Some w, False) \<Rightarrow> if is_notified (\<sigma> w) then unat (f_needed (fst t)) else 0
      | _ \<Rightarrow> 0)"

definition reserved :: "store \<Rightarrow> task multiset \<Rightarrow> nat" where
  "reserved \<sigma> F = sum_mset (image_mset (reserved_by \<sigma>) F)"

definition permits_in :: "permit multiset \<Rightarrow> nat" where
  "permits_in H = sum_mset (image_mset (\<lambda>p. unat (p_permits p)) H)"

section \<open>Steps\<close>

fun result_permit :: "permit poll \<Rightarrow> permit multiset" where
  "result_permit (Ready (Inr p)) = {#p#}"
| "result_permit _ = {#}"

fun result_failed :: "'p poll \<Rightarrow> bool" where
  "result_failed (Ready (Inl e)) = True"
| "result_failed _ = False"

definition acquired :: "(TryAcquireError + permit) \<Rightarrow> permit multiset" where
  "acquired r = (case r of Inl _ \<Rightarrow> {#} | Inr p \<Rightarrow> {#p#})"

text \<open>What the sum of a merged permit has lost: nothing, unless a build without overflow checks wraps.\<close>

definition merge_loss :: "permit \<Rightarrow> permit \<Rightarrow> permit \<Rightarrow> nat" where
  "merge_loss p q p' = unat (p_permits p) + unat (p_permits q) - unat (p_permits p')"

inductive step :: "client \<Rightarrow> client \<Rightarrow> bool" where
  acquire: "step c (c\<lparr>futs := add_mset (acquire_many_with_priority p n (csys c), False) (futs c)\<rparr>)"
| poll: "futs c = add_mset (f, False) F \<Longrightarrow> poll cas_ok k f (csys c) = (r, f', s') \<Longrightarrow>
    step c (c\<lparr>csys := s', futs := add_mset (f', r \<noteq> Pending) F, held := held c + result_permit r,
      retired := retired c + (if result_failed r then reserved_by (store (csys c)) (f, False) else 0)\<rparr>)"
| drop_future: "futs c = add_mset (f, d) F \<Longrightarrow>
    step c (c\<lparr>csys := drop_future f (csys c), futs := F,
      retired := retired c + reserved_by (store (csys c)) (f, d)\<rparr>)"
| try_acquire: "overwrites env = {} \<Longrightarrow> try_acquire env (csys c) = (r, s') \<Longrightarrow>
    step c (c\<lparr>csys := s', held := held c + acquired r\<rparr>)"
| try_acquire_many: "overwrites env = {} \<Longrightarrow> try_acquire_many env n (csys c) = (Done r, s') \<Longrightarrow>
    step c (c\<lparr>csys := s', held := held c + acquired r\<rparr>)"
| drop_permit: "held c = add_mset p H \<Longrightarrow> drop_permit chk p (csys c) = (Done (), s') \<Longrightarrow>
    step c (c\<lparr>csys := s', held := H\<rparr>)"
| forget: "held c = add_mset p H \<Longrightarrow> drop_permit chk (forget p) (csys c) = (Done (), s') \<Longrightarrow>
    step c (c\<lparr>csys := s', held := H, retired := retired c + unat (p_permits p)\<rparr>)"
| split: "held c = add_mset p H \<Longrightarrow> split_permit n p = (Some q, p') \<Longrightarrow>
    step c (c\<lparr>held := add_mset q (add_mset p' H)\<rparr>)"
| merge: "held c = add_mset p (add_mset q H) \<Longrightarrow> merge chk p q = Done (p', q') \<Longrightarrow>
    drop_permit chk q' (csys c) = (Done (), s') \<Longrightarrow>
    step c (c\<lparr>csys := s', held := add_mset p' H, retired := retired c + merge_loss p q p'\<rparr>)"
| add_permits: "issued c + unat n \<le> max_permits \<Longrightarrow> add_permits chk n (csys c) = (Done (), s') \<Longrightarrow>
    step c (c\<lparr>csys := s', issued := issued c + unat n\<rparr>)"
| forget_permits: "overwrites env = {} \<Longrightarrow> forget_permits env n (csys c) = (removed, s') \<Longrightarrow>
    step c (c\<lparr>csys := s', retired := retired c + unat removed\<rparr>)"
| close: "hash_order_ok h \<Longrightarrow> step c (c\<lparr>csys := close h (csys c)\<rparr>)"

definition initial :: "client \<Rightarrow> bool" where
  "initial c \<longleftrightarrow> (\<exists>addr n cfg. new_with_config addr n cfg = Done (csys c) \<and>
     issued c = unat n) \<and> futs c = {#} \<and> held c = {#} \<and> retired c = 0"

inductive reachable :: "client \<Rightarrow> bool" where
  start: "initial c \<Longrightarrow> reachable c"
| move: "reachable c \<Longrightarrow> step c c' \<Longrightarrow> reachable c'"

text \<open>
  In \<open>step\<close> the permits ever issued stay within \<open>MAX_PERMITS\<close>: the code has no such guard, it only checks, after
  it has added them, the permits that are free. \<open>step_any\<close> has every call, however many permits it adds and
  whether it returns or panics.
\<close>

inductive step_any :: "client \<Rightarrow> client \<Rightarrow> bool" where
  bounded: "step c c' \<Longrightarrow> step_any c c'"
| add_permits: "add_permits chk n (csys c) = (r, s') \<Longrightarrow>
    step_any c (c\<lparr>csys := s', issued := issued c + unat n\<rparr>)"
| drop_permit: "held c = add_mset p H \<Longrightarrow> drop_permit chk p (csys c) = (r, s') \<Longrightarrow>
    step_any c (c\<lparr>csys := s', held := H\<rparr>)"

inductive reachable_any :: "client \<Rightarrow> bool" where
  start: "initial c \<Longrightarrow> reachable_any c"
| move: "reachable_any c \<Longrightarrow> step_any c c' \<Longrightarrow> reachable_any c'"

section \<open>The invariant\<close>

definition handle_of :: "task \<Rightarrow> wid multiset" where
  "handle_of t = (case f_handle (fst t) of None \<Rightarrow> {#} | Some w \<Rightarrow> {#w#})"

definition handles :: "task multiset \<Rightarrow> wid multiset" where
  "handles F = sum_mset (image_mset handle_of F)"

definition pending_handles :: "task multiset \<Rightarrow> wid multiset" where
  "pending_handles F = handles (filter_mset (\<lambda>t. \<not> snd t) F)"

text \<open>
  A task asks for at most \<open>u32::MAX\<close> permits of this semaphore. Its waiter, once it has one,
  carries the same request; a finished task's waiter no longer waits.
\<close>

definition task_ok :: "sys \<Rightarrow> task \<Rightarrow> bool" where
  "task_ok s t \<longleftrightarrow> f_sem (fst t) = sem_addr s \<and> unat (f_needed (fst t)) < 2 ^ 32 \<and>
     (\<forall>w. f_handle (fst t) = Some w \<longrightarrow>
        w < next_wid s \<and> waiter_ok (store s w) \<and>
        permits_needed (store s w) = f_needed (fst t) \<and> priority (store s w) = f_priority (fst t) \<and>
        (snd t \<longrightarrow> \<not> is_waiting (store s w)))"

definition sys_ok :: "sys \<Rightarrow> bool" where
  "sys_ok s \<longleftrightarrow> wait_queue_inv (store s) (waiters s) \<and> queued (waiters s) \<subseteq> {..<next_wid s} \<and>
     (is_closed s \<longrightarrow> queued (waiters s) = {})"

text \<open>The waiters that wait are exactly the queued ones that are not cancelled.\<close>

definition waits_ok :: "sys \<Rightarrow> task multiset \<Rightarrow> bool" where
  "waits_ok s F \<longleftrightarrow> (\<forall>w. Multiset.count (handles F) w \<le> 1) \<and>
     (\<forall>w \<in># pending_handles F. is_waiting (store s w) \<longrightarrow> w \<in> queued (waiters s)) \<and>
     (\<forall>w \<in> queued (waiters s). is_waiting (store s w) \<longrightarrow> w \<in># pending_handles F)"

definition balance :: "client \<Rightarrow> nat" where
  "balance c = free (csys c) + permits_in (held c) + reserved (store (csys c)) (futs c) + retired c"

definition client_inv :: "client \<Rightarrow> bool" where
  "client_inv c \<longleftrightarrow> sys_ok (csys c) \<and> waits_ok (csys c) (futs c) \<and>
     (\<forall>t \<in># futs c. task_ok (csys c) t) \<and> (\<forall>p \<in># held c. p_sem p = sem_addr (csys c)) \<and>
     balance c = issued c \<and> issued c \<le> max_permits"

end
