(* ===== verification/Task_Inv.thy ===== *)
theory Task_Inv
  imports Client
begin

text \<open>
  The part of the invariants that is about one semaphore and the tasks that use it, whatever the
  granularity of their steps (\<open>core_inv\<close>): the queue is well formed, the waiters that wait
  are the live queued ones, and each belongs to one task. One lemma for each thing that may happen
  to the tasks: one is created, finishes, queues its waiter, stores its waker or is dropped, a
  selection notifies some, closing cancels all.
\<close>

section \<open>Sums over tasks and permits\<close>

named_theorems task_sums "sums over multisets of tasks and permits"

lemma sums_add [task_sums]:
  "reserved \<sigma> (add_mset t F) = reserved_by \<sigma> t + reserved \<sigma> F"
  "permits_in (add_mset p H) = unat (p_permits p) + permits_in H"
  "permits_in (H + H') = permits_in H + permits_in H'"
  "handles (add_mset t F) = handle_of t + handles F"
  "pending_handles (add_mset t F) = (if snd t then pending_handles F else handle_of t + pending_handles F)"
  by (simp_all add: reserved_def permits_in_def handles_def pending_handles_def)

lemma sums_empty [task_sums]:
  "reserved \<sigma> {#} = 0" "permits_in {#} = 0" "handles {#} = {#}" "pending_handles {#} = {#}"
  by (simp_all add: reserved_def permits_in_def handles_def pending_handles_def)

lemma handle_of_cases [task_sums]:
  "f_handle (fst t) = None \<Longrightarrow> handle_of t = {#}"
  "f_handle (fst t) = Some w \<Longrightarrow> handle_of t = {#w#}"
  by (simp_all add: handle_of_def)

lemma reserved_by_cases [task_sums]:
  "reserved_by \<sigma> (f, True) = 0"
  "f_handle f = None \<Longrightarrow> reserved_by \<sigma> (f, d) = 0"
  "f_handle f = Some w \<Longrightarrow>
     reserved_by \<sigma> (f, False) = (if is_notified (\<sigma> w) then unat (f_needed f) else 0)"
  by (simp_all add: reserved_by_def split: option.split bool.split)

lemma in_handles_iff: "w \<in># handles F \<longleftrightarrow> (\<exists>t \<in># F. f_handle (fst t) = Some w)"
  by (auto simp: handles_def handle_of_def split: option.splits)

lemma in_pending_handles_iff:
  "w \<in># pending_handles F \<longleftrightarrow> (\<exists>f. (f, False) \<in># F \<and> f_handle f = Some w)"
  by (auto simp: pending_handles_def in_handles_iff)

lemma pending_in_handles: "w \<in># pending_handles F \<Longrightarrow> w \<in># handles F"
  by (force simp: in_pending_handles_iff in_handles_iff)

lemma reserved_cong:
  assumes "\<And>w. w \<in># handles F \<Longrightarrow> is_notified (\<sigma>' w) = is_notified (\<sigma> w)"
  shows "reserved \<sigma>' F = reserved \<sigma> F"
proof -
  have "reserved_by \<sigma>' t = reserved_by \<sigma> t" if "t \<in># F" for t
    using assms that by (auto simp: reserved_by_def in_handles_iff split: option.split bool.split)
  then show ?thesis unfolding reserved_def by (metis image_mset_cong)
qed

text \<open>A handle belongs to one task only.\<close>

definition unique_handles :: "task multiset \<Rightarrow> bool" where
  "unique_handles F \<longleftrightarrow> (\<forall>w. Multiset.count (handles F) w \<le> 1)"

lemma unique_handles_add:
  assumes "unique_handles (add_mset t F)"
  shows "unique_handles F" "f_handle (fst t) = Some w \<Longrightarrow> w \<notin># handles F"
proof -
  show "unique_handles F"
    using assms unfolding unique_handles_def task_sums(4) by (metis add_leD2 count_union)
  assume h: "f_handle (fst t) = Some w"
  have "Multiset.count (handles (add_mset t F)) w \<le> 1"
    using assms by (simp add: unique_handles_def)
  then have "Multiset.count (handles F) w = 0"
    by (simp add: task_sums(4) handle_of_cases(2) [OF h])
  then show "w \<notin># handles F" by (simp add: not_in_iff)
qed

section \<open>How a waiter may change\<close>

definition evolves :: "waiter_state \<Rightarrow> waiter_state \<Rightarrow> bool" where
  "evolves a b \<longleftrightarrow> permits_needed b = permits_needed a \<and> priority b = priority a \<and>
     (waiter_ok a \<longrightarrow> waiter_ok b) \<and> (is_waiting b \<longrightarrow> is_waiting a)"

lemma evolves_intros [simp]:
  "evolves a a" "evolves a (fst (cancel a))" "evolves a (set_waker a k)"
  "evolves (\<sigma> w) (notify_all ws \<sigma> w)"
  by (auto simp: evolves_def cancel_cases waiter_ok_def waiter_tests notify_all_def)

lemma task_ok_evolves:
  assumes "task_ok s t" "sem_addr s' = sem_addr s" "next_wid s \<le> next_wid s'"
    and "\<And>w. f_handle (fst t) = Some w \<Longrightarrow> evolves (store s w) (store s' w)"
  shows "task_ok s' t"
  using assms by (fastforce simp: task_ok_def evolves_def)

section \<open>Notified waiters reserve their permits\<close>

lemma pending_handlesE:
  assumes "w \<in># pending_handles F"
  obtains f F' where "F = add_mset (f, False) F'" "f_handle f = Some w"
  using assms by (auto simp: in_pending_handles_iff dest!: multi_member_split)

lemma reserved_notify_one:
  assumes "unique_handles F" "w \<in># pending_handles F" "\<not> is_notified (\<sigma> w)"
    and "\<And>t. t \<in># F \<Longrightarrow> f_handle (fst t) = Some w \<Longrightarrow> permits_needed (\<sigma> w) = f_needed (fst t)"
  shows "reserved (notify_all [w] \<sigma>) F = reserved \<sigma> F + unat (permits_needed (\<sigma> w))"
proof -
  obtain f F' where F: "F = add_mset (f, False) F'" "f_handle f = Some w"
    using assms(2) by (rule pending_handlesE)
  with assms(1) have "w \<notin># handles F'" using unique_handles_add(2) [of "(f, False)" F' w] by simp
  then have "reserved (notify_all [w] \<sigma>) F' = reserved \<sigma> F'"
    by (intro reserved_cong) (auto simp: notify_all_def)
  with F assms(3) assms(4) [of "(f, False)"] show ?thesis
    by (simp add: task_sums is_notified_def)
qed

lemma reserved_notify_all:
  assumes "unique_handles F" "distinct ws" "set ws \<subseteq> set_mset (pending_handles F)"
    and "\<And>w. w \<in> set ws \<Longrightarrow> is_waiting (\<sigma> w)"
    and "\<And>t w. t \<in># F \<Longrightarrow> f_handle (fst t) = Some w \<Longrightarrow> permits_needed (\<sigma> w) = f_needed (fst t)"
  shows "reserved (notify_all ws \<sigma>) F = reserved \<sigma> F + needs \<sigma> ws"
  using assms(2-4)
proof (induction ws rule: rev_induct)
  case Nil
  then show ?case by (simp add: serve_simps)
next
  case (snoc w ws)
  have "\<not> is_notified (notify_all ws \<sigma> w)" using snoc.prems by (simp add: waiter_tests)
  with snoc assms reserved_notify_one [of F w "notify_all ws \<sigma>"] show ?case
    by (simp add: serve_simps flip: notify_all_append)
qed

text \<open>Which waiters wait, when one task changes.\<close>

lemma waits_ok_change:
  assumes waits: "waits_ok s (add_mset x F)" and uniq: "unique_handles (X + F)"
    and own: "\<And>w. w \<in># pending_handles X \<Longrightarrow> is_waiting (store s' w) \<Longrightarrow> w \<in> queued (waiters s')"
    and other: "\<And>w. w \<in># handles F \<Longrightarrow> store s' w = store s w"
      "queued (waiters s) \<subseteq> queued (waiters s')"
    and conv: "\<And>w. w \<in> queued (waiters s') \<Longrightarrow> is_waiting (store s' w) \<Longrightarrow>
      w \<in># pending_handles X \<or> w \<in> queued (waiters s) \<and> is_waiting (store s w) \<and> w \<notin># handle_of x"
  shows "waits_ok s' (X + F)"
proof -
  have split: "pending_handles (X + F) = pending_handles X + pending_handles F"
    by (simp add: pending_handles_def handles_def)
  have "w \<in> queued (waiters s')" if "w \<in># pending_handles F" "is_waiting (store s' w)" for w
  proof -
    have "w \<in># pending_handles (add_mset x F)" using that(1) by (simp add: task_sums)
    moreover have "is_waiting (store s w)" using that other(1) pending_in_handles by fastforce
    ultimately show ?thesis using waits other(2) by (auto simp: waits_ok_def)
  qed
  moreover have "w \<in># pending_handles F"
    if "w \<in> queued (waiters s)" "is_waiting (store s w)" "w \<notin># handle_of x" for w
  proof -
    have "w \<in># pending_handles (add_mset x F)" using that waits by (simp add: waits_ok_def)
    then show ?thesis using that(3) by (simp add: task_sums split: if_splits)
  qed
  ultimately show ?thesis
    using uniq own conv unfolding waits_ok_def split unique_handles_def by (simp, blast)
qed

lemma task_okD:
  assumes "task_ok s (f, d)"
  shows "f_sem f = sem_addr s" "unat (f_needed f) < 2 ^ 32"
    and "unat (ucast (f_needed f) :: u32) = unat (f_needed f)"
    and "f_handle f = Some w \<Longrightarrow> w < next_wid s \<and> waiter_ok (store s w) \<and>
      permits_needed (store s w) = f_needed f \<and> priority (store s w) = f_priority f"
  using assms by (auto simp: task_ok_def unsigned_ucast_eq take_bit_nat_eq_self)

section \<open>The core invariant\<close>

definition core_inv :: "sys \<Rightarrow> task multiset \<Rightarrow> bool" where
  "core_inv s F \<longleftrightarrow> wait_queue_inv (store s) (waiters s) \<and> queued (waiters s) \<subseteq> {..<next_wid s} \<and>
     waits_ok s F \<and> (\<forall>t \<in># F. task_ok s t)"

lemma core_invD:
  assumes "core_inv s F"
  shows "wait_queue_inv (store s) (waiters s)" "queued (waiters s) \<subseteq> {..<next_wid s}"
    and "waits_ok s F" "t \<in># F \<Longrightarrow> task_ok s t" "unique_handles F"
    and "w \<in># handles F \<Longrightarrow> w < next_wid s"
proof -
  show *: "wait_queue_inv (store s) (waiters s)" "queued (waiters s) \<subseteq> {..<next_wid s}" "waits_ok s F"
    "t \<in># F \<Longrightarrow> task_ok s t"
    using assms by (simp_all add: core_inv_def)
  show "unique_handles F" using *(3) by (simp add: waits_ok_def unique_handles_def)
  show "w < next_wid s" if "w \<in># handles F"
    using that assms by (force simp: core_inv_def in_handles_iff task_ok_def)
qed

lemma core_frame:
  assumes "core_inv s F" "store s' = store s" "waiters s' = waiters s" "next_wid s' = next_wid s"
    "sem_addr s' = sem_addr s"
  shows "core_inv s' F"
  using assms by (simp add: core_inv_def waits_ok_def task_ok_def)

lemma core_empty:
  assumes "wait_queue_inv (store s) (waiters s)" "queued (waiters s) = {}"
  shows "core_inv s {#}"
  using assms by (simp add: core_inv_def waits_ok_def task_sums)

text \<open>A task joins that has not been polled.\<close>

lemma core_spawn:
  assumes "core_inv s F" "f_handle f = None" "f_sem f = sem_addr s" "unat (f_needed f) < 2 ^ 32"
  shows "core_inv s (add_mset (f, False) F)"
proof -
  have "task_ok s (f, False)" using assms(2-4) by (simp add: task_ok_def)
  with assms(1,2) show ?thesis by (simp add: core_inv_def waits_ok_def task_sums)
qed

text \<open>
  One task \<open>x\<close> changes, or goes; \<open>X\<close> is what it becomes. The only waiter that changes is its own, and
  the only one that may be queued or stop being one of the waiting ones is its own.
\<close>

lemma core_change:
  assumes core: "core_inv s (add_mset x F)"
    and q: "wait_queue_inv (store s') (waiters s')" "queued (waiters s') \<subseteq> {..<next_wid s'}"
    and s': "sem_addr s' = sem_addr s" "next_wid s \<le> next_wid s'" "queued (waiters s) \<subseteq> queued (waiters s')"
      "\<And>v. v \<in># handles F \<Longrightarrow> store s' v = store s v"
    and X: "\<And>y. y \<in># X \<Longrightarrow> task_ok s' y" "unique_handles (X + F)"
    and own: "\<And>w. w \<in># pending_handles X \<Longrightarrow> is_waiting (store s' w) \<Longrightarrow> w \<in> queued (waiters s')"
    and conv: "\<And>w. w \<in> queued (waiters s') \<Longrightarrow> is_waiting (store s' w) \<Longrightarrow>
      w \<in># pending_handles X \<or> w \<in> queued (waiters s) \<and> is_waiting (store s w) \<and> w \<notin># handle_of x"
  shows "core_inv s' (X + F)" "reserved (store s') (X + F) = reserved (store s') X + reserved (store s) F"
proof -
  have "task_ok s' t" if t: "t \<in># F" for t
  proof (rule task_ok_evolves)
    show "task_ok s t" using core_invD(4) [OF core] t by simp
    show "evolves (store s w) (store s' w)" if "f_handle (fst t) = Some w" for w
      using s'(4) [of w] t that by (force simp: in_handles_iff)
  qed (use s' in simp_all)
  moreover have "waits_ok s' (X + F)"
    using waits_ok_change [OF core_invD(3) [OF core] X(2) own s'(4,3) conv] .
  ultimately show "core_inv s' (X + F)" using q X(1) by (auto simp: core_inv_def)
  have "reserved (store s') F = reserved (store s) F"
    using s'(4) by (intro reserved_cong) simp
  then show "reserved (store s') (X + F) = reserved (store s') X + reserved (store s) F"
    by (simp add: reserved_def)
qed

lemma core_own:
  assumes "core_inv s (add_mset (f, d) F)"
  shows "f_handle f = Some w \<Longrightarrow> w \<notin># handles F" "unique_handles F" "task_ok s (f, d)"
  using unique_handles_add [of "(f, d)" F] core_invD(5) [OF assms] core_invD(4) [OF assms]
  by (auto dest: core_invD(5))

text \<open>A task finishes: its waiter, if any, no longer waits.\<close>

lemma core_finish:
  assumes core: "core_inv s (add_mset (f, d) F)"
    and w: "\<And>w. f_handle f = Some w \<Longrightarrow> \<not> is_waiting (store s w)"
  shows "core_inv s (add_mset (f, True) F)"
proof -
  have "core_inv s ({#(f, True)#} + F)"
  proof (rule core_change(1) [OF core])
    show "task_ok s y" if "y \<in># {#(f, True)#}" for y
      using that core_own(3) [OF core] w by (auto simp: task_ok_def)
    show "unique_handles ({#(f, True)#} + F)"
      using core_invD(5) [OF core] by (simp add: unique_handles_def task_sums handle_of_def)
    show "v \<in># pending_handles {#(f, True)#} \<or> v \<in> queued (waiters s) \<and> is_waiting (store s v) \<and>
        v \<notin># handle_of (f, d)"
      if "v \<in> queued (waiters s)" "is_waiting (store s v)" for v
      using that w by (auto simp: handle_of_def split: option.splits)
  qed (use core_invD(1,2) [OF core] in \<open>simp_all add: task_sums\<close>)
  then show ?thesis by simp
qed

text \<open>A task without a waiter queues one.\<close>

lemma core_push:
  assumes core: "core_inv s (add_mset (f, False) F)" and f: "f_handle f = None"
    and x: "permits_needed x = f_needed f" "priority x = f_priority f" "state x = WAITING"
    and s': "s' = s\<lparr>store := (store s)(next_wid s := x), next_wid := next_wid s + 1,
      waiters := insert_waiter_optimized (waiters s) (next_wid s) (f_priority f)\<rparr>"
  shows "core_inv s' (add_mset (f\<lparr>f_handle := Some (next_wid s)\<rparr>, False) F)"
    and "reserved (store s') (add_mset (f\<lparr>f_handle := Some (next_wid s)\<rparr>, False) F) =
      reserved (store s) (add_mset (f, False) F)"
proof -
  let ?w = "next_wid s" and ?y = "(f\<lparr>f_handle := Some (next_wid s)\<rparr>, False)"
  let ?q = "insert_waiter_optimized (waiters s) ?w (f_priority f)"
  note I = core_invD [OF core]
  have new: "?w \<notin> queued (waiters s)" "?w \<notin># handles F"
    using I(2) I(6) [of ?w] by (auto simp: task_sums)
  have st: "store s' v = store s v" if "v \<noteq> ?w" for v using that by (simp add: s')
  have w: "is_waiting (store s' ?w)" "priority (store s' ?w) = f_priority f"
    by (simp_all add: s' x waiter_tests)
  have "wait_queue_inv (store s') (waiters s)"
    using wait_queue_inv_cong [OF I(1)] new(1) st by metis
  from insert_waiter_inv [OF this new(1) w(2,1)]
  have q: "wait_queue_inv (store s') ?q" "queued ?q = insert ?w (queued (waiters s))" .
  have y: "task_ok s' ?y" using I(4) [of "(f, False)"] x by (simp add: task_ok_def s' waiter_ok_def)
  have "Multiset.count (handles F) v \<le> 1" for v
    using I(5) f by (simp add: unique_handles_def task_sums)
  then have uniq: "unique_handles ({#?y#} + F)"
    using new(2) by (simp add: unique_handles_def task_sums not_in_iff)
  have c: "core_inv s' ({#?y#} + F) \<and>
      reserved (store s') ({#?y#} + F) = reserved (store s') {#?y#} + reserved (store s) F"
  proof (intro conjI)
    have own: "v \<in> queued (waiters s')" if "v \<in># pending_handles {#?y#}" for v
      using that q(2) by (simp add: s' task_sums)
    have conv: "v \<in># pending_handles {#?y#} \<or> v \<in> queued (waiters s) \<and> is_waiting (store s v) \<and>
        v \<notin># handle_of (f, False)" if "v \<in> queued (waiters s')" "is_waiting (store s' v)" for v
      using that q(2) f st by (cases "v = ?w") (simp_all add: s' task_sums)
    have st': "store s' v = store s v" if "v \<in># handles F" for v using that new(2) st by metis
    note * = core_change [OF core, of s' "{#?y#}", OF _ _ _ _ _ st' _ uniq own conv]
    show "core_inv s' ({#?y#} + F)"
      by (rule *(1)) (use q I(2) y in \<open>auto simp: s'\<close>)
    show "reserved (store s') ({#?y#} + F) = reserved (store s') {#?y#} + reserved (store s) F"
      by (rule *(2)) (use q I(2) y in \<open>auto simp: s'\<close>)
  qed
  then show "core_inv s' (add_mset ?y F)" by simp
  have "reserved (store s') {#?y#} = 0" using w(1) by (simp add: task_sums waiter_tests)
  with c f show "reserved (store s') (add_mset ?y F) = reserved (store s) (add_mset (f, False) F)"
    by (simp add: task_sums)
qed

text \<open>A waiting task stores the waker of its task.\<close>

lemma core_set_waker:
  assumes core: "core_inv s (add_mset (f, False) F)" and f: "f_handle f = Some w"
    and s': "s' = s\<lparr>store := (store s)(w := set_waker (store s w) k)\<rparr>"
  shows "core_inv s' (add_mset (f, False) F)"
    and "reserved (store s') (add_mset (f, False) F) = reserved (store s) (add_mset (f, False) F)"
proof -
  have same: "is_waiting (store s' v) = is_waiting (store s v)"
    "is_cancelled (store s' v) = is_cancelled (store s v)"
    "is_notified (store s' v) = is_notified (store s v)"
    "evolves (store s v) (store s' v)" for v
    by (simp_all add: s' waiter_tests)
  have "wait_queue_inv (store s') (waiters s)"
    unfolding s' using core_invD(1) [OF core] queued_okD(5) [of "store s" "priority_queues (waiters s)" w]
    by (simp, intro wait_queue_inv_upd) (auto simp: wait_queue_inv_def queued_def waiter_tests)
  moreover have "task_ok s' t" if "t \<in># add_mset (f, False) F" for t
    using core_invD(4) [OF core that] by (rule task_ok_evolves) (use same in \<open>simp_all add: s'\<close>)
  ultimately show "core_inv s' (add_mset (f, False) F)"
    using core same by (simp add: core_inv_def waits_ok_def s')
  show "reserved (store s') (add_mset (f, False) F) = reserved (store s) (add_mset (f, False) F)"
    using same by (intro reserved_cong)
qed

text \<open>A task goes.\<close>

lemma core_drop:
  assumes core: "core_inv s (add_mset (f, d) F)"
  shows "core_inv (drop_future f s) F" "reserved (store (drop_future f s)) F = reserved (store s) F"
proof -
  let ?s' = "drop_future f s"
  have frame: "waiters ?s' = waiters s" "next_wid ?s' = next_wid s" "sem_addr ?s' = sem_addr s"
    by (simp_all add: drop_future_eq split: option.split)
  have other: "store ?s' v = store s v" if "f_handle f \<noteq> Some v" for v
    using that by (simp add: drop_future_eq split: option.split)
  have own: "is_cancelled (store ?s' w)" if "f_handle f = Some w" for w
    using that core_own(3) [OF core] cancel_cancelled [of "store s w"] by (simp add: drop_future_eq task_ok_def)
  have "wait_queue_inv (store ?s') (waiters s)"
  proof (cases "f_handle f")
    case (Some w)
    then have "store ?s' = (store s)(w := fst (cancel (store s w)))" by (simp add: drop_future_eq)
    with own [OF Some] core_invD(1) [OF core] show ?thesis
      by (simp, intro wait_queue_inv_upd) simp_all
  qed (use core_invD(1) [OF core] in \<open>simp add: drop_future_eq\<close>)
  then have q: "wait_queue_inv (store ?s') (waiters ?s')" "queued (waiters ?s') \<subseteq> {..<next_wid ?s'}"
    using core_invD(2) [OF core] by (simp_all add: frame)
  have conv: "v \<in># pending_handles {#} \<or> v \<in> queued (waiters s) \<and> is_waiting (store s v) \<and> v \<notin># handle_of (f, d)"
    if "v \<in> queued (waiters ?s')" "is_waiting (store ?s' v)" for v
  proof -
    have "f_handle f \<noteq> Some v" using that(2) own [of v] by (auto simp: waiter_tests)
    with that other [of v] show ?thesis by (auto simp: frame handle_of_def split: option.split)
  qed
  have st: "store ?s' v = store s v" if "v \<in># handles F" for v
    using that other core_own(1) [OF core] by blast
  have uniq: "unique_handles ({#} + F)" using core_own(2) [OF core] by simp
  note * = core_change [OF core q _ _ _ st _ uniq _ conv]
  show "core_inv ?s' F"
    using *(1) by (simp add: frame task_sums)
  show "reserved (store ?s') F = reserved (store s) F"
    using *(2) by (simp add: frame task_sums)
qed

text \<open>A selection notifies the waiters it serves, which reserves their permits.\<close>

lemma core_select:
  assumes core: "core_inv s F" and sv: "served_by (store s) (waiters s) n ws q' sl"
    and s': "store s' = notify_all ws (store s)" "waiters s' = q'" "next_wid s' = next_wid s"
      "sem_addr s' = sem_addr s"
  shows "core_inv s' F" "reserved (store s') F = reserved (store s) F + needs (store s) ws"
proof -
  note I = core_invD [OF core] and R = served_by_waiters [OF sv]
  have pend: "set ws \<subseteq> set_mset (pending_handles F)"
    using R(1,5) I(3) by (auto simp: waits_ok_def)
  have same: "is_waiting (store s' w) \<longleftrightarrow> is_waiting (store s w) \<and> w \<notin> set ws" for w
    by (auto simp: s' notify_all_def waiter_tests)
  have "waits_ok s' F"
    using I(3) R(4) served_by_keeps [OF sv I(1)] by (auto simp: waits_ok_def same s'(2))
  moreover have "task_ok s' t" if "t \<in># F" for t
    using I(4) [OF that] by (rule task_ok_evolves) (simp_all add: s')
  moreover have "wait_queue_inv (store s') (waiters s')" "queued (waiters s') \<subseteq> {..<next_wid s'}"
    using R(4,6) I(2) by (auto simp: s')
  ultimately show "core_inv s' F" by (simp add: core_inv_def)
  have "permits_needed (store s w) = f_needed (fst t)" if "t \<in># F" "f_handle (fst t) = Some w" for t w
    using I(4) [OF that(1)] that(2) by (simp add: task_ok_def)
  from reserved_notify_all [OF I(5) R(2) pend R(5) this]
  show "reserved (store s') F = reserved (store s) F + needs (store s) ws" by (simp add: s')
qed

text \<open>Closing empties the queue and cancels every waiter in it.\<close>

lemma core_close:
  assumes core: "core_inv s F" and h: "hash_order_ok h"
  shows "core_inv (close_waiters h s) F" "reserved (store (close_waiters h s)) F = reserved (store s) F"
    and "queued (waiters (close_waiters h s)) = {}"
    and "w \<notin> queued (waiters s) \<Longrightarrow> store (close_waiters h s) w = store s w"
    and "w \<in> queued (waiters s) \<Longrightarrow> is_cancelled (store (close_waiters h s) w)"
proof -
  let ?s' = "close_waiters h s"
  note I = core_invD [OF core]
  obtain ws where "?s' = s\<lparr>
      store := (\<lambda>w. if w \<in> queued (waiters s) then fst (cancel (store s w)) else store s w),
      waiters := (waiters s)\<lparr>closed := True, priority_queues := [], active_priorities := [],
        total_waiters := 0\<rparr>,
      woken := woken s @ concat (map (\<lambda>w. snd (cancel (store s w))) ws)\<rparr>"
    using close_waiters_eq [OF I(1) h] by blast
  then have frame: "next_wid ?s' = next_wid s" "sem_addr ?s' = sem_addr s"
    and st: "store ?s' = (\<lambda>w. if w \<in> queued (waiters s) then fst (cancel (store s w)) else store s w)"
    and q: "priority_queues (waiters ?s') = []" "active_priorities (waiters ?s') = []"
      "total_waiters (waiters ?s') = 0"
    by simp_all
  have waits: "is_waiting (store s w) \<or> is_cancelled (store s w)" if "w \<in> queued (waiters s)" for w
    using that queued_waits [OF I(1)] by blast
  have "\<not> is_waiting (store ?s' w)" if "w \<in># pending_handles F" for w
    using that I(3) cancel_not_waiting by (auto simp: st waits_ok_def)
  then have "waits_ok ?s' F"
    using I(5) by (auto simp: waits_ok_def unique_handles_def queued_def q)
  moreover have "task_ok ?s' t" if "t \<in># F" for t
    using I(4) [OF that] by (rule task_ok_evolves) (simp_all add: frame st)
  ultimately show "core_inv ?s' F"
    by (simp add: core_inv_def wait_queue_inv_def queued_ok_def queued_def q)
  show "reserved (store ?s') F = reserved (store s) F"
  proof (rule reserved_cong)
    show "is_notified (store ?s' w) = is_notified (store s w)" for w
      using waits [of w] by (auto simp: st cancel_cases waiter_tests)
  qed
  show "queued (waiters ?s') = {}" by (simp add: queued_def q)
  show "w \<notin> queued (waiters s) \<Longrightarrow> store ?s' w = store s w" by (simp add: st)
  show "is_cancelled (store ?s' w)" if "w \<in> queued (waiters s)"
    using waits [OF that] that by (auto simp: st cancel_cases waiter_tests)
qed

end
