(* ===== verification/Client_Inv.thy ===== *)
theory Client_Inv
  imports Task_Inv
begin

text \<open>
  Every step keeps the client invariant: the core invariant of the tasks, an empty queue once the
  semaphore is closed, and every permit ever issued is free, held, reserved for a notified task, or
  withdrawn.
\<close>

section \<open>The invariant and its parts\<close>

lemma client_inv_iff:
  "client_inv c \<longleftrightarrow> core_inv (csys c) (futs c) \<and> (is_closed (csys c) \<longrightarrow> queued (waiters (csys c)) = {}) \<and>
     (\<forall>p \<in># held c. p_sem p = sem_addr (csys c)) \<and> balance c = issued c \<and> issued c \<le> max_permits"
  by (auto simp: client_inv_def core_inv_def sys_ok_def)

lemma client_invD:
  assumes "client_inv c"
  shows "sys_ok (csys c)" "waits_ok (csys c) (futs c)" "unique_handles (futs c)"
    and "t \<in># futs c \<Longrightarrow> task_ok (csys c) t"
    and "p \<in># held c \<Longrightarrow> p_sem p = sem_addr (csys c)"
    and "balance c = issued c" "issued c \<le> max_permits"
    and "wait_queue_inv (store (csys c)) (waiters (csys c))"
    and "free (csys c) + permits_in (held c) \<le> max_permits"
    and "core_inv (csys c) (futs c)"
proof -
  show core: "core_inv (csys c) (futs c)" using assms by (simp add: client_inv_iff)
  have *: "sys_ok (csys c)" "\<forall>p \<in># held c. p_sem p = sem_addr (csys c)" "balance c = issued c"
    "issued c \<le> max_permits"
    using assms unfolding client_inv_def by blast+
  then show "sys_ok (csys c)" "balance c = issued c" "issued c \<le> max_permits"
    and "p \<in># held c \<Longrightarrow> p_sem p = sem_addr (csys c)"
    by blast+
  show "wait_queue_inv (store (csys c)) (waiters (csys c))" "waits_ok (csys c) (futs c)"
    "t \<in># futs c \<Longrightarrow> task_ok (csys c) t" "unique_handles (futs c)"
    using core_invD(1,3,4,5) [OF core] by blast+
  show "free (csys c) + permits_in (held c) \<le> max_permits" using *(3,4) by (simp add: balance_def)
qed

lemma client_invI:
  assumes inv: "client_inv c" and core: "core_inv s' F"
    and closed: "is_closed s' \<Longrightarrow> queued (waiters s') = {}"
    and addr: "sem_addr s' = sem_addr (csys c)"
    and held: "\<And>p. p \<in># H \<Longrightarrow> p_sem p = sem_addr (csys c)"
    and bal: "free s' + permits_in H + reserved (store s') F + r = i" "i \<le> max_permits"
  shows "client_inv (c\<lparr>csys := s', futs := F, held := H, issued := i, retired := r\<rparr>)"
  using assms by (simp add: client_inv_iff balance_def)

section \<open>Steps that only move permits\<close>

text \<open>A change of the permit word that keeps the flag.\<close>

lemma client_inv_word:
  assumes inv: "client_inv c"
    and s': "store s' = store (csys c)" "waiters s' = waiters (csys c)" "next_wid s' = next_wid (csys c)"
      "sem_addr s' = sem_addr (csys c)" "is_closed s' = is_closed (csys c)"
    and held: "\<And>p. p \<in># H \<Longrightarrow> p_sem p = sem_addr (csys c)"
    and bal: "free s' + permits_in H + r = free (csys c) + permits_in (held c) + retired c"
  shows "client_inv (c\<lparr>csys := s', held := H, retired := r\<rparr>)"
proof -
  have "core_inv s' (futs c)" using client_invD(10) [OF inv] s'(1-4) by (rule core_frame)
  moreover have "is_closed s' \<Longrightarrow> queued (waiters s') = {}"
    using inv s'(2,5) by (simp add: client_inv_iff)
  moreover have "free s' + permits_in H + reserved (store s') (futs c) + r = issued c"
    using bal s'(1) client_invD(6) [OF inv] by (simp add: balance_def)
  ultimately show ?thesis using held s'(4) client_invD(7) [OF inv] by (simp add: client_inv_iff balance_def)
qed

lemma inv_taken:
  assumes inv: "client_inv c" and t: "taken (permits (csys c)) n r (csys c) s'"
  shows "client_inv (c\<lparr>csys := s', held := held c + acquired r\<rparr>)"
proof -
  note D = takenD [OF t]
  have "free s' + permits_in (held c + acquired r) = free (csys c) + permits_in (held c)"
    using D(6,7) by (cases r) (auto simp: acquired_def task_sums)
  moreover have "p_sem p = sem_addr (csys c)" if "p \<in># held c + acquired r" for p
    using that D(6) client_invD(5) [OF inv] by (cases r) (auto simp: acquired_def)
  ultimately show ?thesis
    using client_inv_word [OF inv D(1-5), of "held c + acquired r" "retired c"] by simp
qed

lemma inv_forget_permits:
  assumes inv: "client_inv c" and env: "overwrites env = {}"
    and f: "forget_permits env n (csys c) = (removed, s')"
  shows "client_inv (c\<lparr>csys := s', retired := retired c + unat removed\<rparr>)"
proof -
  note fp = forget_permits_effect [OF env f]
  show ?thesis
    using client_inv_word [OF inv fp(1-5), of "held c" "retired c + unat removed"] client_invD(5) [OF inv] fp(6)
    by simp
qed

section \<open>Steps that release permits\<close>

lemma released_closed_none:
  assumes "sys_ok s" "released s n ws s'" "is_closed s"
  shows "ws = []"
  using assms releasedD(1) [OF assms(2)] by (simp add: sys_ok_def)

lemma inv_released:
  assumes inv: "client_inv c" and rel: "released (csys c) n ws s'"
    and held: "\<And>p. p \<in># H \<Longrightarrow> p_sem p = sem_addr (csys c)"
    and bal: "unat n + permits_in H + issued c = permits_in (held c) + i" "i \<le> max_permits"
  shows "client_inv (c\<lparr>csys := s', held := H, issued := i\<rparr>)"
proof -
  let ?s = "csys c" and ?F = "futs c"
  note I = client_invD [OF inv]
  obtain sl where sv: "served_by (store ?s) (waiters ?s) n ws (waiters s') sl"
    and st: "store s' = notify_all ws (store ?s)" and frame: "next_wid s' = next_wid ?s"
      "sem_addr s' = sem_addr ?s" "is_closed s' = is_closed ?s"
    and free: "is_closed ?s \<and> ws \<noteq> [] \<or> free s' + needs (store ?s) ws = free ?s + unat n"
    using rel by (auto simp: released_def)
  note C = core_select [OF I(10) sv st refl frame(1,2)]
  have "is_closed s' \<Longrightarrow> queued (waiters s') = {}"
    using I(1) served_by_waiters(4) [OF sv] frame(3) by (auto simp: sys_ok_def)
  moreover have "free s' + permits_in H + reserved (store s') ?F + retired c = i"
    using C(2) free released_closed_none [OF I(1) rel] bal(1) I(6) by (auto simp: balance_def)
  ultimately show ?thesis
    using client_invI [OF inv C(1) _ frame(2) held, of H "retired c" i] bal(2) by simp
qed

section \<open>Steps of one future\<close>

lemma inv_acquire:
  assumes inv: "client_inv c"
  shows "client_inv (c\<lparr>futs := add_mset (acquire_many_with_priority p n (csys c), False) (futs c)\<rparr>)"
proof -
  let ?f = "acquire_many_with_priority p n (csys c)"
  have h: "f_handle ?f = None" by (simp add: acquire_many_with_priority_def)
  have "core_inv (csys c) (add_mset (?f, False) (futs c))"
    using client_invD(10) [OF inv] h unat_u32_less [of n]
    by (intro core_spawn) (simp_all add: acquire_many_with_priority_def unat_ucast_u32)
  with inv h show ?thesis by (simp add: client_inv_iff balance_def task_sums)
qed

text \<open>A task that returns without touching the store.\<close>

lemma inv_future_done:
  assumes inv: "client_inv c" and F: "futs c = add_mset (f, d) F"
    and s': "store s' = store (csys c)" "waiters s' = waiters (csys c)" "next_wid s' = next_wid (csys c)"
      "sem_addr s' = sem_addr (csys c)" "is_closed s' = is_closed (csys c)"
    and w: "\<And>w. f_handle f = Some w \<Longrightarrow> \<not> is_waiting (store (csys c) w)"
    and held: "\<And>p. p \<in># H \<Longrightarrow> p_sem p = sem_addr (csys c)"
    and bal: "free s' + permits_in H + r =
      free (csys c) + permits_in (held c) + reserved_by (store (csys c)) (f, d) + retired c"
  shows "client_inv (c\<lparr>csys := s', futs := add_mset (f, True) F, held := H, retired := r\<rparr>)"
proof -
  note I = client_invD [OF inv]
  have "core_inv (csys c) (add_mset (f, True) F)"
    using I(10) w unfolding F by (rule core_finish)
  then have "core_inv s' (add_mset (f, True) F)" using s'(1-4) by (rule core_frame)
  moreover have "is_closed s' \<Longrightarrow> queued (waiters s') = {}" using I(1) s'(2,5) by (simp add: sys_ok_def)
  moreover have "free s' + permits_in H + reserved (store s') (add_mset (f, True) F) + r = issued c"
    using bal I(6) by (simp add: balance_def F task_sums s'(1))
  ultimately show ?thesis
    using client_invI [OF inv _ _ s'(4) held, of "add_mset (f, True) F" H r "issued c"] I(7) by simp
qed

text \<open>A task that goes on waiting.\<close>

lemma inv_future_waits:
  assumes inv: "client_inv c" and F: "futs c = add_mset (f, False) F"
    and core: "core_inv s' (add_mset (f', False) F)"
      "reserved (store s') (add_mset (f', False) F) = reserved (store (csys c)) (add_mset (f, False) F)"
    and s': "is_closed s' \<Longrightarrow> queued (waiters s') = {}" "sem_addr s' = sem_addr (csys c)"
      "free s' = free (csys c)"
  shows "client_inv (c\<lparr>csys := s', futs := add_mset (f', False) F\<rparr>)"
  using client_invI [OF inv core(1) s'(1,2), of "held c" "retired c" "issued c"] client_invD(5-7) [OF inv] core(2) s'(3) F
  by (simp add: balance_def)

lemma inv_poll_queued:
  assumes inv: "client_inv c" and F: "futs c = add_mset (f, False) F" and f: "f_handle f = None"
    and closed: "\<not> is_closed (csys c)"
    and s': "s' = (csys c)\<lparr>store := (store (csys c))(next_wid (csys c) :=
        set_waker (waiter_new (f_needed f) (f_priority f)) k),
      next_wid := next_wid (csys c) + 1,
      waiters := insert_waiter_optimized (waiters (csys c)) (next_wid (csys c)) (f_priority f)\<rparr>"
  shows "client_inv (c\<lparr>csys := s', futs := add_mset (f\<lparr>f_handle := Some (next_wid (csys c))\<rparr>, False) F\<rparr>)"
proof -
  have core: "core_inv (csys c) (add_mset (f, False) F)" using client_invD(10) [OF inv] F by simp
  note C = core_push [OF core f _ _ _ s']
  have frame: "is_closed s' = is_closed (csys c)" "sem_addr s' = sem_addr (csys c)" "free s' = free (csys c)"
    by (simp_all add: s' is_closed_def available_permits_def)
  show ?thesis
    by (rule inv_future_waits [OF inv F C]) (use closed frame in simp_all)
qed

lemma inv_set_waker:
  assumes inv: "client_inv c" and F: "futs c = add_mset (f, False) F" and f: "f_handle f = Some w"
    and s': "s' = (csys c)\<lparr>store := (store (csys c))(w := set_waker (store (csys c) w) k)\<rparr>"
  shows "client_inv (c\<lparr>csys := s', futs := add_mset (f, False) F\<rparr>)"
proof -
  have core: "core_inv (csys c) (add_mset (f, False) F)" using client_invD(10) [OF inv] F by simp
  note C = core_set_waker [OF core f s']
  have frame: "is_closed s' = is_closed (csys c)" "sem_addr s' = sem_addr (csys c)" "free s' = free (csys c)"
    "waiters s' = waiters (csys c)"
    by (simp_all add: s' is_closed_def available_permits_def)
  show ?thesis
    by (rule inv_future_waits [OF inv F C]) (use inv frame in \<open>simp_all add: client_inv_iff\<close>)
qed

lemma inv_poll:
  assumes inv: "client_inv c" and F: "futs c = add_mset (f, False) F"
    and p: "poll cas_ok k f (csys c) = (r, f', s')"
  shows "client_inv (c\<lparr>csys := s', futs := add_mset (f', r \<noteq> Pending) F,
    held := held c + result_permit r,
    retired := retired c + (if result_failed r then reserved_by (store (csys c)) (f, False) else 0)\<rparr>)"
proof -
  let ?s = "csys c" and ?x = "(f, False)"
  let ?permit = "\<lparr>p_sem = f_sem f, p_permits = ucast (f_needed f)\<rparr>"
  note I = client_invD [OF inv]
  have "task_ok ?s ?x" using I(4) [of ?x] F by simp
  note T = task_okD [OF this]
  have n63: "unat (f_needed f) < 2 ^ 63" using T(2) by simp
  note ready = inv_future_done [OF inv F]
  have hold: "p_sem p = sem_addr ?s" if "p \<in># held c + {#?permit#}" for p
    using that I(5) T by auto
  show ?thesis
  proof (cases "f_handle f")
    case None
    let ?fits = "push_bit PERMIT_SHIFT (f_needed f) \<le> permits ?s \<and> cas_ok"
    note p = p [unfolded poll_eq None option.case]
    consider "is_closed ?s" | "\<not> is_closed ?s" "?fits" | "\<not> is_closed ?s" "\<not> ?fits" by blast
    then show ?thesis
    proof cases
      case 1
      with p have "r = Ready (Inl acquire_error_closed)" "f' = f" "s' = ?s" by auto
      then show ?thesis using ready [of ?s "held c" "retired c"] I(5) None by (simp add: task_sums)
    next
      case 2
      with p have "(r, f', s') = (Ready (Inr ?permit), f,
          ?s\<lparr>permits := permits ?s - push_bit PERMIT_SHIFT (f_needed f)\<rparr>)"
        by (simp only: if_False if_True simp_thms)
      moreover note free_taken [OF n63, of ?s]
      ultimately show ?thesis
        using ready [of s' "held c + {#?permit#}" "retired c", OF _ _ _ _ _ _ hold] T None 2(2)
        by (simp add: task_sums)
    next
      case 3
      with p have "r = Pending" "f' = f\<lparr>f_handle := Some (next_wid ?s)\<rparr>" and s':
        "s' = ?s\<lparr>store := (store ?s)(next_wid ?s := set_waker (waiter_new (f_needed f) (f_priority f)) k),
           next_wid := next_wid ?s + 1,
           waiters := insert_waiter_optimized (waiters ?s) (next_wid ?s) (f_priority f)\<rparr>"
        by (simp_all only: if_False simp_thms prod.inject)
      then show ?thesis using inv_poll_queued [OF inv F None 3(1) s'] by simp
    qed
  next
    case (Some w)
    let ?w = "store ?s w"
    let ?over = "is_cancelled ?w \<or> is_notified ?w \<and> is_closed ?s"
    note p = p [unfolded poll_eq Some option.case]
    consider "?over" | "\<not> ?over" "is_notified ?w" | "\<not> ?over" "\<not> is_notified ?w" by blast
    then show ?thesis
    proof cases
      case 1
      with p have "r = Ready (Inl acquire_error_closed)" "f' = f" "s' = ?s" by auto
      moreover have "\<not> is_waiting ?w" using 1 by (auto simp: waiter_tests)
      ultimately show ?thesis
        using ready [of ?s "held c" "retired c + reserved_by (store ?s) ?x"] I(5) Some by simp
    next
      case 2
      with p have "r = Ready (Inr ?permit)" "f' = f" "s' = ?s" by auto
      then show ?thesis
        using ready [of ?s "held c + {#?permit#}" "retired c", OF _ _ _ _ _ _ hold] T Some 2(2)
        by (simp add: task_sums waiter_tests)
    next
      case 3
      with p have "r = Pending" "f' = f" and s': "s' = ?s\<lparr>store := (store ?s)(w := set_waker ?w k)\<rparr>"
        by (simp_all only: if_False simp_thms prod.inject)
      then show ?thesis using inv_set_waker [OF inv F Some s'] by simp
    qed
  qed
qed

lemma inv_drop_future:
  assumes inv: "client_inv c" and F: "futs c = add_mset (f, d) F"
  shows "client_inv (c\<lparr>csys := drop_future f (csys c), futs := F,
    retired := retired c + reserved_by (store (csys c)) (f, d)\<rparr>)"
proof -
  let ?s = "csys c" and ?s' = "drop_future f (csys c)"
  note I = client_invD [OF inv]
  have frame: "waiters ?s' = waiters ?s" "sem_addr ?s' = sem_addr ?s" "is_closed ?s' = is_closed ?s"
    "free ?s' = free ?s"
    by (simp_all add: drop_future_eq is_closed_def available_permits_def split: option.split)
  note C = core_drop [of ?s f d F, OF I(10) [unfolded F]]
  have "is_closed ?s' \<Longrightarrow> queued (waiters ?s') = {}" using I(1) frame by (simp add: sys_ok_def)
  from client_invI [OF inv C(1) this frame(2), of "held c" "retired c + reserved_by (store ?s) (f, d)" "issued c"]
  show ?thesis using I(5-7) C(2) frame(4) F by (simp add: balance_def task_sums)
qed

section \<open>Closing\<close>

lemma inv_close:
  assumes inv: "client_inv c" and h: "hash_order_ok h"
  shows "client_inv (c\<lparr>csys := close h (csys c)\<rparr>)"
proof -
  let ?s = "close_flag (csys c)"
  note I = client_invD [OF inv]
  have frame: "store ?s = store (csys c)" "waiters ?s = waiters (csys c)" "next_wid ?s = next_wid (csys c)"
    "sem_addr ?s = sem_addr (csys c)"
    by (simp_all add: close_flag_def)
  note C = core_close [OF core_frame [OF I(10) frame] h]
  have "sem_addr (close h (csys c)) = sem_addr (csys c)"
    by (simp add: close_def close_waiters_def frame split: prod.split)
  with C(1-3) client_invI [OF inv, of "close h (csys c)" "futs c" "held c" "retired c" "issued c"] I(5-7)
  show ?thesis by (simp add: close_def [symmetric] frame balance_def close_word)
qed

section \<open>Every step\<close>

lemma inv_start: "initial c \<Longrightarrow> client_inv c"
proof -
  assume "initial c"
  then obtain addr n cfg where *: "new_with_config addr n cfg = Done (csys c)" "issued c = unat n"
    "futs c = {#}" "held c = {#}" "retired c = 0"
    by (auto simp: initial_def)
  from new_with_configD [OF *(1)] * show "client_inv c"
    by (simp add: client_inv_iff core_empty balance_def task_sums wait_queue_inv_new)
qed

lemma client_drop_released:
  assumes inv: "client_inv c" and held: "p \<in># held c"
  shows "\<exists>ws s'. drop_permit chk p (csys c) = (Done (), s') \<and> released (csys c) (ucast (p_permits p)) ws s'"
proof -
  have "unat (p_permits p) \<le> permits_in (held c)"
    using held by (auto simp: task_sums dest!: multi_member_split)
  then show ?thesis
    using client_invD(9) [OF inv] by (intro drop_permit_released client_invD(8) [OF inv]) simp
qed

lemma client_add_released:
  assumes inv: "client_inv c" and "issued c + unat n \<le> max_permits"
  shows "\<exists>ws s'. add_permits chk n (csys c) = (Done (), s') \<and> released (csys c) n ws s'"
  using assms(2) client_invD(6) [OF inv]
  by (intro add_permits_released client_invD(8) [OF inv]) (simp add: balance_def)

lemma inv_drop_permit:
  assumes inv: "client_inv c" and held: "held c = add_mset p H"
    and d: "drop_permit chk p (csys c) = (Done (), s')"
  shows "client_inv (c\<lparr>csys := s', held := H\<rparr>)"
proof -
  note I = client_invD [OF inv]
  from client_drop_released [OF inv, of p chk] d held
  obtain ws where "released (csys c) (ucast (p_permits p)) ws s'" by auto
  from inv_released [OF inv this, of H "issued c"] show ?thesis
    using I(5,7) held by (simp add: task_sums unat_ucast_u32)
qed

lemma inv_held:
  assumes inv: "client_inv c" and "permits_in H + r = permits_in (held c) + retired c"
    and "\<forall>p \<in># H. p_sem p = sem_addr (csys c)"
  shows "client_inv (c\<lparr>held := H, retired := r\<rparr>)"
  using client_inv_word [OF inv, of "csys c" H r] assms(2,3) by simp

lemma drop_permit_empty: "p_permits p = 0 \<Longrightarrow> drop_permit chk p s = (Done (), s)"
  by (simp add: drop_permit_def)

lemma split_permitD:
  assumes "split_permit n p = (Some q, p')"
  shows "p_sem q = p_sem p" "p_sem p' = p_sem p" "p_permits q = n"
    and "unat (p_permits q) + unat (p_permits p') = unat (p_permits p)"
  using assms by (auto simp: split_permit_def unat_sub word_le_nat_alt not_less split: if_splits)

lemma mergeD:
  assumes "merge chk p q = Done (p', q')"
  shows "p_sem p = p_sem q" "p_sem p' = p_sem p" "p_permits q' = 0"
    and "unat (p_permits p') + merge_loss p q p' = unat (p_permits p) + unat (p_permits q)"
    and "chk \<Longrightarrow> merge_loss p q p' = 0"
proof -
  have sem: "p_sem p = p_sem q" and p': "p' = p\<lparr>p_permits := p_permits p + p_permits q\<rparr>"
    and q': "q' = q\<lparr>p_permits := 0\<rparr>"
    and fits: "chk \<longrightarrow> unat (p_permits p) + unat (p_permits q) < 2 ^ 32"
    using assms by (auto simp: merge_def split: if_splits)
  show "p_sem p = p_sem q" by (rule sem)
  show "p_sem p' = p_sem p" "p_permits q' = 0" by (simp_all add: p' q')
  have "unat (p_permits p') \<le> unat (p_permits p) + unat (p_permits q)"
    by (simp add: p' unat_word_ariths)
  then show "unat (p_permits p') + merge_loss p q p' = unat (p_permits p) + unat (p_permits q)"
    by (simp add: merge_loss_def)
  show "merge_loss p q p' = 0" if chk using fits that by (simp add: merge_loss_def p' unat_word_ariths)
qed

lemma step_inv:
  assumes "step c c'" "client_inv c"
  shows "client_inv c'"
  using assms
proof cases
  case (poll f F cas_ok k r f' s')
  with inv_poll [OF assms(2) poll(2,3)] show ?thesis by simp
next
  case (drop_future f d F)
  with inv_drop_future [OF assms(2) drop_future(2)] show ?thesis by simp
next
  case (try_acquire env r s')
  with inv_taken [OF assms(2)] try_acquire_taken [OF try_acquire(3)] show ?thesis by simp
next
  case (try_acquire_many env n r s')
  show ?thesis
  proof (cases "n = 0")
    case True
    with try_acquire_many(3) have "r = Inr \<lparr>p_sem = sem_addr (csys c), p_permits = 0\<rparr>" "s' = csys c"
      by (auto simp: try_acquire_many_def)
    with try_acquire_many(1) inv_held [OF assms(2), of "held c + acquired r" "retired c"]
      client_invD(5) [OF assms(2)] show ?thesis
      by (auto simp: acquired_def task_sums)
  next
    case False
    from try_acquire_many_taken [OF this, of env "csys c"] try_acquire_many
    have "taken (permits (csys c)) n r (csys c) s'" by auto
    with inv_taken [OF assms(2)] try_acquire_many(1) show ?thesis by simp
  qed
next
  case (drop_permit p H chk s')
  with inv_drop_permit [OF assms(2) drop_permit(2,3)] show ?thesis by simp
next
  case (forget p H chk s')
  then have "s' = csys c" by (simp add: drop_permit_empty forget_def)
  with forget inv_held [OF assms(2), of H "retired c + unat (p_permits p)"]
    client_invD(5) [OF assms(2)] show ?thesis
    by (simp add: task_sums)
next
  case (split p H n q p')
  with split_permitD [OF split(3)] inv_held [OF assms(2), of "add_mset q (add_mset p' H)" "retired c"]
    client_invD(5) [OF assms(2)] show ?thesis
    by (auto simp: task_sums)
next
  case (merge p q H chk p' q' s')
  note m = mergeD [OF merge(3)]
  have s': "s' = csys c" using merge(4) m(3) by (simp add: drop_permit_empty)
  have "p_sem p = sem_addr (csys c)" "\<forall>x \<in># H. p_sem x = sem_addr (csys c)"
    using assms(2) merge(2) by (simp_all add: client_inv_def)
  with m(2) have "\<forall>x \<in># add_mset p' H. p_sem x = sem_addr (csys c)" by simp
  moreover have "permits_in (add_mset p' H) + (retired c + merge_loss p q p') = permits_in (held c) + retired c"
    using merge(2) m(4) by (simp add: task_sums)
  ultimately show ?thesis
    using inv_held [OF assms(2), of "add_mset p' H" "retired c + merge_loss p q p'"] merge(1) s' by simp
next
  case (add_permits n chk s')
  note I = client_invD [OF assms(2)]
  from client_add_released [OF assms(2) add_permits(2), of chk] add_permits(3)
  obtain ws where "released (csys c) n ws s'" by auto
  from inv_released [OF assms(2) this, of "held c" "issued c + unat n"] I(5) add_permits show ?thesis
    by simp
next
  case (forget_permits env n removed s')
  with inv_forget_permits [OF assms(2) forget_permits(2,3)] show ?thesis by simp
next
  case (close h)
  with inv_close [OF assms(2)] show ?thesis by simp
qed (use inv_acquire in blast)

lemma reachable_inv: "reachable c \<Longrightarrow> client_inv c"
  by (induction rule: reachable.induct) (auto intro: inv_start step_inv)

text \<open>A run in which at most \<open>MAX_PERMITS\<close> permits have been issued by its end has only steps that \<open>step\<close> has.\<close>

lemma step_any_issued: "step_any c c' \<Longrightarrow> issued c \<le> issued c'"
  by (auto elim!: step_any.cases step.cases)

lemma step_any_bounded:
  assumes "step_any c c'" "client_inv c" "issued c' \<le> max_permits"
  shows "step c c'"
  using assms(1)
proof cases
  case (add_permits chk n r s')
  with assms(3) have n: "issued c + unat n \<le> max_permits" by simp
  from client_add_released [OF assms(2) n, of chk] add_permits n step.add_permits show ?thesis by fastforce
next
  case (drop_permit p H chk r s')
  from client_drop_released [OF assms(2), of p chk] drop_permit step.drop_permit show ?thesis by fastforce
qed

lemma reachable_any_bounded: "reachable_any c \<Longrightarrow> issued c \<le> max_permits \<Longrightarrow> reachable c"
proof (induction rule: reachable_any.induct)
  case (move c c')
  then have "reachable c" using step_any_issued [OF move(2)] by simp
  with step_any_bounded [OF move(2) reachable_inv move(4)] show ?case by (auto intro: reachable.move)
qed (rule reachable.start)

lemma reachable_reachable_any: "reachable c \<Longrightarrow> reachable_any c"
  by (induction rule: reachable.induct) (auto intro: reachable_any.intros step_any.bounded)

end
