(* ===== verification/Client_Order.thy ===== *)
theory Client_Order
  imports Client_Inv
begin

text \<open>
  What a step does to the semaphore, whoever makes it (\<open>effect\<close>), and two more invariants of
  the reachable states that rest on it: every queue is in arrival order or in reverse arrival order,
  as its priority's strategy says, and the waiter of an unfinished task is cancelled only by closing.
\<close>

section \<open>The effect of a step on the semaphore\<close>

inductive effect :: "sys \<Rightarrow> sys \<Rightarrow> bool" where
  word: "store s' = store s \<Longrightarrow> waiters s' = waiters s \<Longrightarrow> next_wid s' = next_wid s \<Longrightarrow>
    is_closed s' = is_closed s \<Longrightarrow> effect s s'"
| park: "effect s (s\<lparr>store := (store s)(w := set_waker (store s w) k)\<rparr>)"
| enqueue: "\<not> is_closed s \<Longrightarrow> effect s (s\<lparr>store := (store s)(next_wid s := set_waker (waiter_new n p) k),
    next_wid := next_wid s + 1, waiters := insert_waiter_optimized (waiters s) (next_wid s) p\<rparr>)"
| drop: "effect s (drop_future f s)"
| release: "released s n ws s' \<Longrightarrow> effect s s'"
| close: "hash_order_ok h \<Longrightarrow> effect s (close h s)"

inductive_cases effectE: "effect s s'"

lemma taken_effect: "taken (permits s) n r s s' \<Longrightarrow> effect s s'"
  by (rule effect.word) (auto dest: takenD)

lemma poll_effect:
  assumes "poll cas_ok k f s = (r, f', s')" "unat (f_needed f) < 2 ^ 32"
  shows "effect s s'"
proof (cases "f_handle f")
  case None
  let ?fits = "push_bit PERMIT_SHIFT (f_needed f) \<le> permits s \<and> cas_ok"
  note p = assms(1) [unfolded poll_eq None option.case]
  consider "is_closed s" | "\<not> is_closed s" "?fits" | "\<not> is_closed s" "\<not> ?fits" by blast
  then show ?thesis
  proof cases
    case 1
    with p show ?thesis by (auto intro: effect.word)
  next
    case 2
    with p have "s' = s\<lparr>permits := permits s - push_bit PERMIT_SHIFT (f_needed f)\<rparr>" by auto
    with free_taken(2) [of "f_needed f" s] 2(2) assms(2) show ?thesis by (intro effect.word) simp_all
  next
    case 3
    with p have "s' = s\<lparr>store := (store s)(next_wid s := set_waker (waiter_new (f_needed f) (f_priority f)) k),
        next_wid := next_wid s + 1,
        waiters := insert_waiter_optimized (waiters s) (next_wid s) (f_priority f)\<rparr>"
      by (simp only: if_False simp_thms prod.inject)
    with effect.enqueue [OF 3(1)] show ?thesis by simp
  qed
next
  case (Some w)
  then have "s' = s \<or> s' = s\<lparr>store := (store s)(w := set_waker (store s w) k)\<rparr>"
    using assms(1) by (auto simp: poll_eq split: if_splits)
  then show ?thesis by (auto intro: effect.word effect.park)
qed

lemma step_effect:
  assumes "step c c'" "client_inv c"
  shows "effect (csys c) (csys c')"
  using assms(1)
proof cases
  case (poll f F cas_ok k r f' s')
  have "task_ok (csys c) (f, False)" using client_invD(4) [OF assms(2)] poll(2) by simp
  then have "effect (csys c) s'" by (intro poll_effect [OF poll(3)]) (rule task_okD(2))
  with poll(1) show ?thesis by simp
next
  case (try_acquire env r s')
  with taken_effect try_acquire_taken [OF try_acquire(3)] show ?thesis by auto
next
  case (try_acquire_many env n r s')
  show ?thesis
  proof (cases "n = 0")
    case True
    with try_acquire_many show ?thesis by (auto simp: try_acquire_many_def intro: effect.word)
  next
    case False
    from try_acquire_many_taken [OF this, of env "csys c"] try_acquire_many taken_effect
    show ?thesis by auto
  qed
next
  case (drop_permit p H chk s')
  from client_drop_released [OF assms(2), of p chk] drop_permit show ?thesis
    by (auto intro: effect.release)
next
  case (add_permits n chk s')
  from client_add_released [OF assms(2) add_permits(2), of chk] add_permits show ?thesis
    by (auto intro: effect.release)
next
  case (forget_permits env n removed s')
  obtain v' where "s' = csys c \<or> s' = (csys c)\<lparr>permits := v'\<rparr> \<and> word_closed v' = is_closed (csys c)"
    using forget_permits(2,3) cas_loop_linearizable [of "permits (csys c)" env "forget_decide n"]
      forget_step [of n "permits (csys c)"]
    by (fastforce simp: forget_permits_def Let_def forget_post_def is_closed_def word_closed_def
        split: if_splits prod.splits)
  with forget_permits(1) show ?thesis
    by (auto intro: effect.word simp: is_closed_def word_closed_def)
next
  case (merge p q H chk p' q' s')
  with mergeD(3) [OF merge(3)] have "s' = csys c" by (simp add: drop_permit_empty)
  with merge(1) show ?thesis by (auto intro: effect.word)
qed (auto intro: effect.intros simp: drop_permit_empty forget_def)

section \<open>Queues are in arrival order\<close>

definition arrival_order :: "QueueStrategy \<Rightarrow> wid \<Rightarrow> wid \<Rightarrow> bool" where
  "arrival_order st v w = (case st of Fifo \<Rightarrow> v < w | Lifo \<Rightarrow> w < v)"

definition ordered :: "sys \<Rightarrow> bool" where
  "ordered s \<longleftrightarrow> (\<forall>p. sorted_wrt (arrival_order (resolve_strategy (config (waiters s)) p))
     (queue_of (priority_queues (waiters s)) p))"

lemma sorted_wrt_subseq: "subseq xs ys \<Longrightarrow> sorted_wrt P ys \<Longrightarrow> sorted_wrt P xs"
  by (induction rule: list_emb.induct) (auto dest: subseq_set)

lemma sorted_enqueue:
  assumes "sorted_wrt (arrival_order st) q" "\<And>v. v \<in> set q \<Longrightarrow> v < w"
  shows "sorted_wrt (arrival_order st) (enqueue st w q)"
  using assms by (auto simp: enqueue_def arrival_order_def sorted_wrt_append split: QueueStrategy.split)

lemma released_queues:
  assumes "released s n ws s'"
  shows "subseq (queue_of (priority_queues (waiters s')) p) (queue_of (priority_queues (waiters s)) p)"
    and "config (waiters s') = config (waiters s)"
  using assms by (auto simp: released_def served_by_def schedule_def selected_def)

lemma effect_ordered:
  assumes "effect s s'" "sys_ok s" "ordered s"
  shows "ordered s'" "config (waiters s') = config (waiters s)"
proof -
  have "ordered s' \<and> config (waiters s') = config (waiters s)"
    using assms(1)
  proof cases
    case (enqueue n p k)
    have "v < next_wid s" if "v \<in> set (queue_of (priority_queues (waiters s)) p')" for v p'
      using that queue_of_subset [of "priority_queues (waiters s)" p'] assms(2)
      by (auto simp: sys_ok_def queued_def)
    with enqueue assms(3) show ?thesis
      by (auto simp: ordered_def insert_waiter_queues intro!: sorted_enqueue)
  next
    case (drop f)
    then have "waiters s' = waiters s" by (simp add: drop_future_eq split: option.split)
    with assms(3) show ?thesis by (simp add: ordered_def)
  next
    case (release n ws)
    with assms(3) released_queues [OF release] show ?thesis
      by (auto simp: ordered_def intro: sorted_wrt_subseq)
  next
    case (close h)
    have "wait_queue_inv (store s) (waiters s)" using assms(2) by (simp add: sys_ok_def)
    from close_eq [OF this close(2)] close(1) show ?thesis by (auto simp: ordered_def)
  qed (use assms(3) in \<open>simp_all add: ordered_def\<close>)
  then show "ordered s'" "config (waiters s') = config (waiters s)" by blast+
qed

lemma start_ordered: "initial c \<Longrightarrow> ordered (csys c)"
  by (auto simp: initial_def ordered_def wait_queue_new_def dest!: new_with_configD(4))

lemma reachable_ordered: "reachable c \<Longrightarrow> ordered (csys c)"
proof (induction rule: reachable.induct)
  case (move c c')
  from reachable_inv [OF move(1)] have inv: "client_inv c" .
  show ?case
    using effect_ordered(1) [OF step_effect [OF move(2) inv] client_invD(1) [OF inv] move(3)] .
qed (rule start_ordered)

section \<open>Cancellation means closing\<close>

definition cancelled_ok :: "client \<Rightarrow> bool" where
  "cancelled_ok c \<longleftrightarrow> (\<forall>w \<in># pending_handles (futs c).
     is_cancelled (store (csys c) w) \<longrightarrow> is_closed (csys c))"

lemma effect_closed: "effect s s' \<Longrightarrow> is_closed s \<Longrightarrow> is_closed s'"
  by (cases rule: effect.cases)
    (auto simp: is_closed_def drop_future_eq released_def close_word [unfolded is_closed_def]
      split: option.split)

text \<open>Without closing, no operation cancels a waiter but the drop of its own future.\<close>

lemma released_cancelled:
  "released s n ws s' \<Longrightarrow> is_cancelled (store s' w) \<Longrightarrow> is_cancelled (store s w)"
  by (auto simp: released_def notify_all_def waiter_tests split: if_splits)

lemma poll_cancelled:
  assumes "poll cas_ok k f s = (r, f', s')"
  shows "is_cancelled (store s' w) \<Longrightarrow> is_cancelled (store s w)"
    and "f_handle f' = Some w \<Longrightarrow> f_handle f = Some w \<or> is_waiting (store s' w)"
  using assms by (auto simp: poll_eq waiter_tests split: option.splits if_splits)

lemma step_cancelled:
  assumes "step c c'" "client_inv c" "w \<in># pending_handles (futs c')"
    and "is_cancelled (store (csys c') w)" "\<not> is_closed (csys c')"
  shows "is_cancelled (store (csys c) w) \<and> w \<in># pending_handles (futs c)"
  using assms(1)
proof cases
  case (poll f F cas_ok k r f' s')
  note P = poll_cancelled [OF poll(3), of w]
  have "f_handle f = Some w" if "f_handle f' = Some w"
    using P(2) [OF that] assms(4) poll(1) by (auto simp: waiter_tests)
  then show ?thesis
    using P(1) assms(3,4) poll(1,2)
    by (auto simp: task_sums handle_of_def split: if_splits option.splits)
next
  case (drop_future f d F)
  have "f_handle f \<noteq> Some w"
    using assms(3) drop_future client_invD(3) [OF assms(2)] unique_handles_add(2) [of "(f, d)" F w]
    by (auto dest: pending_in_handles)
  with assms(3,4) drop_future(1,2) show ?thesis
    by (auto simp: drop_future_eq task_sums split: option.splits if_splits)
next
  case (drop_permit p H chk s')
  with client_drop_released [OF assms(2), of p chk] released_cancelled assms(3,4) show ?thesis
    by fastforce
next
  case (add_permits n chk s')
  with client_add_released [OF assms(2) add_permits(2), of chk] released_cancelled assms(3,4) show ?thesis
    by fastforce
next
  case (close h)
  with assms(5) close_word(2) show ?thesis by simp
next
  case (merge p q H chk p' q' s')
  with mergeD(3) [OF merge(3)] assms(3,4) show ?thesis by (simp add: drop_permit_empty)
qed (use assms(3,4) in \<open>auto simp: task_sums handle_of_def acquire_many_with_priority_def
    drop_permit_empty forget_def forget_permits_def Let_def
    dest!: takenD(1) try_acquire_taken try_acquire_many_frame(1) split: if_splits prod.splits\<close>)

lemma reachable_cancelled: "reachable c \<Longrightarrow> cancelled_ok c"
proof (induction rule: reachable.induct)
  case (start c)
  then show ?case by (simp add: cancelled_ok_def initial_def task_sums)
next
  case (move c c')
  from reachable_inv [OF move(1)] have inv: "client_inv c" .
  show ?case
    unfolding cancelled_ok_def
  proof (intro ballI impI, rule ccontr)
    fix w
    assume w: "w \<in># pending_handles (futs c')" "is_cancelled (store (csys c') w)" "\<not> is_closed (csys c')"
    from step_cancelled [OF move(2) inv w] move(3) have "is_closed (csys c)"
      by (auto simp: cancelled_ok_def)
    from effect_closed [OF step_effect [OF move(2) inv] this] w(3) show False by simp
  qed
qed

text \<open>A cancelled waiter stays so, and nobody else gets its place in the store.\<close>

lemma effect_cancelled:
  assumes "effect s s'" "is_cancelled (store s w)" "w < next_wid s" "wait_queue_inv (store s) (waiters s)"
  shows "is_cancelled (store s' w) \<and> w < next_wid s'"
  using assms(1)
proof cases
  case (drop f)
  with assms(2,3) show ?thesis by (auto simp: drop_future_eq cancel_cases waiter_tests split: option.split)
next
  case (release n ws)
  then have "store s' = notify_all ws (store s)" "next_wid s' = next_wid s" by (auto simp: released_def)
  moreover have "w \<notin> set ws" using releasedD(5) [OF release, of w] assms(2) by (auto simp: waiter_tests)
  ultimately show ?thesis using assms(2,3) by simp
next
  case (close h)
  have "is_cancelled (fst (cancel (store s w)))" using assms(2) by (auto simp: cancel_cases waiter_tests)
  then show ?thesis using close_eq [OF assms(4) close(2)] assms(2,3) close(1) by auto
qed (use assms(2,3) in \<open>auto simp: set_waker_def set_under_lock_def waiter_tests\<close>)

lemma cancelled_for_good:
  assumes "step_any\<^sup>*\<^sup>* c c'" "reachable_any c" "issued c' \<le> max_permits"
    and "is_cancelled (store (csys c) w)" "w < next_wid (csys c)"
  shows "reachable c' \<and> is_cancelled (store (csys c') w)"
proof -
  have "reachable_any c' \<and> (issued c' \<le> max_permits \<longrightarrow> is_cancelled (store (csys c') w) \<and> w < next_wid (csys c'))"
    using assms(1)
  proof (induction rule: rtranclp_induct)
    case (step y z)
    have "is_cancelled (store (csys z) w) \<and> w < next_wid (csys z)" if z: "issued z \<le> max_permits"
    proof -
      from z step_any_issued [OF step(2)] have "issued y \<le> max_permits" by simp
      with step(3) have y: "client_inv y" "is_cancelled (store (csys y) w)" "w < next_wid (csys y)"
        by (auto intro: reachable_inv reachable_any_bounded)
      from effect_cancelled [OF step_effect [OF step_any_bounded [OF step(2) y(1) z] y(1)] y(2,3) client_invD(8) [OF y(1)]] show ?thesis .
    qed
    with step(2,3) show ?case by (auto intro: reachable_any.move)
  qed (use assms(2,4,5) in simp)
  with assms(3) show ?thesis by (auto intro: reachable_any_bounded)
qed

end
