(* ===== verification/Scenarios.thy ===== *)
theory Scenarios
  imports Client_Order
begin

text \<open>
  Steps of the transition system as executable functions, and the concrete runs that the witnesses
  of the properties use.
\<close>

section \<open>Executable steps\<close>

definition do_acquire :: "isize \<Rightarrow> u32 \<Rightarrow> client \<Rightarrow> client" where
  "do_acquire p n c = c\<lparr>futs := add_mset (acquire_many_with_priority p n (csys c), False) (futs c)\<rparr>"

definition do_poll :: "bool \<Rightarrow> waker \<Rightarrow> acquire_future \<Rightarrow> client \<Rightarrow> client" where
  "do_poll cas_ok k f c =
     (let (r, f', s') = poll cas_ok k f (csys c)
      in c\<lparr>csys := s', futs := add_mset (f', r \<noteq> Pending) (futs c - {#(f, False)#}),
           held := held c + result_permit r,
           retired := retired c + (if result_failed r then reserved_by (store (csys c)) (f, False) else 0)\<rparr>)"

definition do_drop_future :: "acquire_future \<Rightarrow> client \<Rightarrow> client" where
  "do_drop_future f c =
     c\<lparr>csys := drop_future f (csys c), futs := futs c - {#(f, False)#},
       retired := retired c + reserved_by (store (csys c)) (f, False)\<rparr>"

definition do_try_acquire_many :: "u32 \<Rightarrow> client \<Rightarrow> client" where
  "do_try_acquire_many n c =
     (case try_acquire_many [] n (csys c) of
        (Done r, s') \<Rightarrow> c\<lparr>csys := s', held := held c + acquired r\<rparr>
      | _ \<Rightarrow> c)"

definition do_drop_permit :: "permit \<Rightarrow> client \<Rightarrow> client" where
  "do_drop_permit p c = c\<lparr>csys := snd (drop_permit True p (csys c)), held := held c - {#p#}\<rparr>"

definition do_close :: "client \<Rightarrow> client" where
  "do_close c = c\<lparr>csys := close id (csys c)\<rparr>"

lemma do_step:
  "step c (do_acquire p n c)"
  "(f, False) \<in># futs c \<Longrightarrow> step c (do_poll cas_ok k f c)"
  "(f, False) \<in># futs c \<Longrightarrow> step c (do_drop_future f c)"
  "n \<noteq> 0 \<Longrightarrow> step c (do_try_acquire_many n c)"
  "step c (do_close c)"
proof -
  show "step c (do_acquire p n c)" by (simp add: do_acquire_def step.acquire)
  show "step c (do_poll cas_ok k f c)" if "(f, False) \<in># futs c"
    using that step.poll [of c f "futs c - {#(f, False)#}" cas_ok k]
    by (auto simp: do_poll_def split: prod.split)
  show "step c (do_drop_future f c)" if "(f, False) \<in># futs c"
    using that step.drop_future [of c f False "futs c - {#(f, False)#}"]
    by (simp add: do_drop_future_def)
  show "step c (do_try_acquire_many n c)" if "n \<noteq> 0"
    using try_acquire_many_taken [OF that, of "[]" "csys c"] step.try_acquire_many [of "[]" n c]
    by (auto simp: do_try_acquire_many_def)
  show "step c (do_close c)"
    by (simp add: do_close_def hash_order_ok_def step.close)
qed

lemma do_drop_permit_step:
  assumes "reachable c" "p \<in># held c"
  shows "step c (do_drop_permit p c)"
proof -
  from client_drop_released [OF reachable_inv [OF assms(1)] assms(2), of True]
  obtain s' where "drop_permit True p (csys c) = (Done (), s')" by blast
  with assms(2) step.drop_permit [of c p "held c - {#p#}" True s'] show ?thesis
    by (simp add: do_drop_permit_def)
qed

lemmas reachable_step = reachable.move [OF _ do_step(1)] reachable.move [OF _ do_step(2)]
  reachable.move [OF _ do_step(3)] reachable.move [OF _ do_step(4)] reachable.move [OF _ do_step(5)]

section \<open>A run with two waiting tasks\<close>

text \<open>
  One permit, taken; a task of priority 0 and then a task of priority 5 wait for it; the permit is
  dropped and goes to the second.
\<close>

definition demo_start :: client where
  "demo_start =
     \<lparr>csys = \<lparr>permits = 2, waiters = wait_queue_new config_default,
              store = (\<lambda>_. waiter_new 0 (ISize 0)), next_wid = 0, sem_addr = 7, woken = []\<rparr>,
      futs = {#}, held = {#}, issued = 1, retired = 0\<rparr>"

definition demo_future :: "isize \<Rightarrow> wid option \<Rightarrow> acquire_future" where
  "demo_future p h = \<lparr>f_sem = 7, f_needed = 1, f_priority = p, f_handle = h\<rparr>"

definition demo_permit :: permit where
  "demo_permit = \<lparr>p_sem = 7, p_permits = 1\<rparr>"

definition demo_waiting :: client where
  "demo_waiting = do_poll True 21 (demo_future (ISize 5) None) (do_acquire (ISize 5) 1
     (do_poll True 20 (demo_future (ISize 0) None) (do_acquire (ISize 0) 1
       (do_try_acquire_many 1 demo_start))))"

definition demo_served :: client where
  "demo_served = do_drop_permit demo_permit demo_waiting"

lemma demo_start_reachable: "reachable demo_start"
proof (rule reachable.start)
  have "new_with_config 7 1 config_default = Done (csys demo_start)"
    by (simp add: new_with_config_def demo_start_def PERMIT_SHIFT_def MAX_PERMITS_def word_less_nat_alt
        unat_drop_bit_eq drop_bit_eq_div unsigned_minus_1_eq_mask mask_eq_exp_minus_1)
  moreover have "issued demo_start = unat (1 :: usize)" "futs demo_start = {#}" "held demo_start = {#}"
    "retired demo_start = 0"
    by (simp_all add: demo_start_def)
  ultimately show "initial demo_start" unfolding initial_def by blast
qed

lemma demo_waiting_reachable: "reachable demo_waiting"
proof -
  let ?c1 = "do_acquire (ISize 0) 1 (do_try_acquire_many 1 demo_start)"
  let ?c2 = "do_acquire (ISize 5) 1 (do_poll True 20 (demo_future (ISize 0) None) ?c1)"
  have "(demo_future (ISize 0) None, False) \<in># futs ?c1" by code_simp
  moreover have "(demo_future (ISize 5) None, False) \<in># futs ?c2" by code_simp
  ultimately show ?thesis
    unfolding demo_waiting_def by (intro reachable_step demo_start_reachable) simp_all
qed

lemma demo_served_reachable: "reachable demo_served"
proof -
  have "demo_permit \<in># held demo_waiting" by code_simp
  from reachable.move [OF demo_waiting_reachable do_drop_permit_step [OF demo_waiting_reachable this]]
  show ?thesis by (simp add: demo_served_def)
qed

end
