(* ===== verification/Service.thy ===== *)
theory Service
  imports Scenarios
begin

text \<open>
  What the semaphore promises about service: which waiters a selection serves, in which order and
  when it stops, and what a release of permits does to the whole state.
\<close>

section \<open>Properties of a selection\<close>

lemma demo_queue_inv:
  "wait_queue_inv (store (csys demo_waiting)) (waiters (csys demo_waiting))"
  using client_invD(8) [OF reachable_inv [OF demo_waiting_reachable]] .

lemma served_by_all:
  assumes inv: "wait_queue_inv \<sigma> q" and sv: "served_by \<sigma> q n ws q' sl"
  shows "distinct ws" "set ws \<subseteq> queued q" "\<And>w. w \<in> set ws \<Longrightarrow> is_waiting (\<sigma> w)"
    and "queued q' \<subseteq> queued q - set ws"
    and "sorted_wrt (\<lambda>v w. priority (\<sigma> w) \<le> priority (\<sigma> v)) ws"
    and "live \<sigma> (queue_of (priority_queues q) p) =
      filter (\<lambda>w. priority (\<sigma> w) = p) ws @ live \<sigma> (queue_of (priority_queues q') p)"
    and "sel_avail sl = 0 \<or> \<not> can_push (sel_wakes sl) \<or>
      (\<forall>w \<in> queued q'. is_waiting (\<sigma> w) \<longrightarrow> (\<exists>p z. priority (\<sigma> w) \<le> p \<and>
         stands \<sigma> (priority_queues q) ws p z \<and> permits_needed (\<sigma> z) > sel_avail sl \<and>
         (p = priority (\<sigma> w) \<or> (\<forall>v \<in> set ws. p \<le> priority (\<sigma> v)))))"
    and "\<lbrakk>x \<in> set ws; w \<in> queued q'; is_waiting (\<sigma> w); priority (\<sigma> x) < priority (\<sigma> w)\<rbrakk> \<Longrightarrow>
      \<exists>z. stands \<sigma> (priority_queues q) ws (priority (\<sigma> w)) z \<and>
        unat (permits_needed (\<sigma> z)) > unat (sel_avail sl) +
          needs \<sigma> (filter (\<lambda>x. priority (\<sigma> x) < priority (\<sigma> w)) ws)"
    and "subseq (queue_of (priority_queues q') p) (queue_of (priority_queues q) p)"
proof -
  let ?m = "priority_queues q" and ?m' = "priority_queues q'"
  have sch: "schedule ?m (set (active_priorities q)) (sel_init n \<sigma> q) ws ?m' sl"
    and inv': "wait_queue_inv (notify_all ws \<sigma>) q'"
    using sv by (simp_all add: served_by_def)
  have sel: "selected ?m (sel_init n \<sigma> q) ws ?m' sl" using sch by (simp add: schedule_def)
  note D = selectedD [OF sel]
  show "distinct ws" "set ws \<subseteq> queued q" "\<And>w. w \<in> set ws \<Longrightarrow> is_waiting (\<sigma> w)"
    "queued q' \<subseteq> queued q - set ws"
    using D(4-6) sel by (auto simp: queued_def selected_def)
  show "subseq (queue_of ?m' p) (queue_of ?m p)" using sel by (simp add: selected_def)
  show "sorted_wrt (\<lambda>v w. priority (\<sigma> w) \<le> priority (\<sigma> v)) ws" using sch by (simp add: schedule_def)
  show "live \<sigma> (queue_of ?m p) = filter (\<lambda>w. priority (\<sigma> w) = p) ws @ live \<sigma> (queue_of ?m' p)"
    using sel by (simp add: selected_def)
  have live': "w \<in> set (live \<sigma> (queue_of ?m' (priority (\<sigma> w)))) \<and> priority (\<sigma> w) \<in> set (active_priorities q)"
    if w: "w \<in> queued q'" "is_waiting (\<sigma> w)" for w
  proof -
    have "queued_ok (notify_all ws \<sigma>) ?m'" using inv' by (simp add: wait_queue_inv_def)
    from queued_okD(6) [OF this] w(1) have "w \<in> set (queue_of ?m' (priority (\<sigma> w)))"
      by (simp add: queued_def)
    moreover from this D(8) have "queue_of ?m (priority (\<sigma> w)) \<noteq> []" by fastforce
    ultimately show ?thesis
      using w(2) inv by (auto simp: live_def waiter_tests wait_queue_inv_def)
  qed
  have nonempty: "live \<sigma> (queue_of ?m' (priority (\<sigma> w))) \<noteq> []" if "w \<in> queued q'" "is_waiting (\<sigma> w)" for w
    using live' [OF that] by auto
  have ex: "exhausted \<sigma> ?m (set (active_priorities q)) ws ?m' sl" using sch by (simp add: schedule_def)
  have "\<exists>p z. priority (\<sigma> w) \<le> p \<and> stands \<sigma> ?m ws p z \<and> permits_needed (\<sigma> z) > sel_avail sl \<and>
      (p = priority (\<sigma> w) \<or> (\<forall>v \<in> set ws. p \<le> priority (\<sigma> v)))"
    if "sel_avail sl \<noteq> 0" "can_push (sel_wakes sl)" "w \<in> queued q'" "is_waiting (\<sigma> w)" for w
    using ex that(1,2) live' [OF that(3,4)] nonempty [OF that(3,4)] unfolding exhausted_def by blast
  then show "sel_avail sl = 0 \<or> \<not> can_push (sel_wakes sl) \<or>
      (\<forall>w \<in> queued q'. is_waiting (\<sigma> w) \<longrightarrow> (\<exists>p z. priority (\<sigma> w) \<le> p \<and>
         stands \<sigma> ?m ws p z \<and> permits_needed (\<sigma> z) > sel_avail sl \<and>
         (p = priority (\<sigma> w) \<or> (\<forall>v \<in> set ws. p \<le> priority (\<sigma> v)))))" by blast
  have "overtaking_blocked \<sigma> ?m (set (active_priorities q)) ws ?m' (sel_avail sl)"
    using sch by (simp add: schedule_def)
  then show "\<lbrakk>x \<in> set ws; w \<in> queued q'; is_waiting (\<sigma> w); priority (\<sigma> x) < priority (\<sigma> w)\<rbrakk> \<Longrightarrow>
      \<exists>z. stands \<sigma> ?m ws (priority (\<sigma> w)) z \<and> unat (permits_needed (\<sigma> z)) > unat (sel_avail sl) +
        needs \<sigma> (filter (\<lambda>x. priority (\<sigma> x) < priority (\<sigma> w)) ws)"
    using live' [of w] nonempty [of w] unfolding overtaking_blocked_def by blast
qed

text \<open>On the two sides of the waiter at which a selection stands.\<close>

lemma stands_sides:
  assumes inv: "wait_queue_inv \<sigma> q" and sv: "served_by \<sigma> q n ws q' sl" and st: "stands \<sigma> (priority_queues q) ws p z"
  shows "\<exists>pre post. queue_of (priority_queues q) p = pre @ z # post \<and>
    (\<forall>v \<in> set pre. \<not> is_waiting (notify_all ws \<sigma> v)) \<and> (\<forall>v \<in> set (z # post). \<not> is_notified (notify_all ws \<sigma> v))"
proof -
  let ?Q = "queue_of (priority_queues q) p"
  obtain pre post where Q: "?Q = pre @ z # post" and served: "live \<sigma> pre = filter (\<lambda>w. priority (\<sigma> w) = p) ws"
    using st by (auto simp: stands_def)
  have ok: "queued_ok \<sigma> (priority_queues q)" using inv by (simp add: wait_queue_inv_def)
  have "\<not> is_waiting (notify_all ws \<sigma> v)" if "v \<in> set pre" for v
  proof (cases "v \<in> set ws")
    case False
    then have "v \<notin> set (live \<sigma> pre)" by (simp add: served)
    with that False show ?thesis by (auto simp: live_def waiter_tests)
  qed (simp add: waiter_tests)
  moreover have "\<not> is_notified (notify_all ws \<sigma> v)" if v: "v \<in> set (z # post)" for v
  proof -
    have "v \<notin> set pre" using v queued_okD(3) [OF ok, of p] Q by auto
    moreover have "priority (\<sigma> v) = p" using v Q by (intro queued_okD(4) [OF ok]) auto
    moreover have "v \<in> set (live \<sigma> pre)" if "v \<in> set ws" using that \<open>priority (\<sigma> v) = p\<close> by (simp add: served)
    ultimately have "v \<notin> set ws" using live_subset [of \<sigma> pre] by blast
    moreover have "v \<in> queued q" using v Q queue_of_subset [of "priority_queues q" p] by (auto simp: queued_def)
    ultimately show ?thesis using queued_waits [OF inv, of v] by (auto simp: waiter_tests)
  qed
  ultimately show ?thesis using Q by blast
qed

text \<open>C3: on every well-formed queue \<open>select_waiters_to_notify\<close> never panics, hits no
  out-of-range index and underflows no counter. It serves a list of distinct waiting waiters of the
  queue: exactly these become notified, lose their waker to the batch (at most 32, in order) and
  leave the queue; beside them only cancelled waiters leave it, so no waiting one is lost, and those that stay
  keep their order; the permits assigned are exactly what the served ones asked for, at most what was
  available; and the queue is well formed again, with the configuration it had.\<close>

theorem select_serves:
  assumes "wait_queue_inv \<sigma> q"
  shows "\<exists>wl assigned q' ws. select_waiters_to_notify a \<sigma> q = Some (wl, assigned, notify_all ws \<sigma>, q') \<and>
    wait_queue_inv (notify_all ws \<sigma>) q' \<and> distinct ws \<and> set ws \<subseteq> queued q \<and>
    (\<forall>w \<in> set ws. is_waiting (\<sigma> w)) \<and> queued q' \<subseteq> queued q - set ws \<and>
    (\<forall>w \<in> queued q. w \<in> set ws \<or> w \<in> queued q' \<or> is_cancelled (\<sigma> w)) \<and>
    (\<forall>p. subseq (queue_of (priority_queues q') p) (queue_of (priority_queues q) p)) \<and>
    wake_contents wl = wakers_of \<sigma> ws \<and> length (wakers_of \<sigma> ws) \<le> NUM_WAKERS \<and>
    unat assigned = needs \<sigma> ws \<and> needs \<sigma> ws \<le> unat a \<and> config q' = config q \<and> closed q' = closed q"
proof -
  obtain ws q' sl where sel: "select_waiters_to_notify a \<sigma> q =
      Some (wake_list_of (wakers_of \<sigma> ws), need_words \<sigma> ws, notify_all ws \<sigma>, q')"
    and sv: "served_by \<sigma> q a ws q' sl"
    using select_served [OF assms] by blast
  have "\<forall>w \<in> queued q. w \<in> set ws \<or> w \<in> queued q' \<or> is_cancelled (\<sigma> w)"
    using served_by_gone [OF assms sv] by blast
  with sel served_byD [OF sv] served_by_all(1-4,9) [OF assms sv] sv show ?thesis
    by (intro exI [of _ ws] exI [of _ q'] exI) (auto simp: served_by_def)
qed

theorem select_serves_witness:
  "\<exists>wl assigned q' ws. select_waiters_to_notify 1 (store (csys demo_waiting)) (waiters (csys demo_waiting)) =
     Some (wl, assigned, notify_all ws (store (csys demo_waiting)), q') \<and>
   unat assigned = needs (store (csys demo_waiting)) ws \<and> needs (store (csys demo_waiting)) ws \<le> 1"
  using select_serves [OF demo_queue_inv, of 1] by fastforce

text \<open>C4: the order of service. Waiters are served by descending priority; within a priority the
  served ones are a prefix of the live (uncancelled) queue, in order, and the rest keep their order.
  A waiter is served before a waiting one of higher priority only if that one's queue is held up: the
  first request of that queue behind the served ones (\<open>z\<close>: all live waiters before it are served, it is not;
  it may be a cancelled one) is larger than everything the lower priorities got plus everything left over.\<close>

theorem select_order:
  assumes "wait_queue_inv \<sigma> q" "select_waiters_to_notify a \<sigma> q = Some (wl, assigned, \<sigma>', q')"
  shows "\<exists>ws. \<sigma>' = notify_all ws \<sigma> \<and> unat assigned = needs \<sigma> ws \<and>
    sorted_wrt (\<lambda>v w. priority (\<sigma> w) \<le> priority (\<sigma> v)) ws \<and>
    (\<forall>p. live \<sigma> (queue_of (priority_queues q) p) =
       filter (\<lambda>w. priority (\<sigma> w) = p) ws @ live \<sigma> (queue_of (priority_queues q') p)) \<and>
    (\<forall>x \<in> set ws. \<forall>w \<in> queued q'. is_waiting (\<sigma> w) \<longrightarrow> priority (\<sigma> x) < priority (\<sigma> w) \<longrightarrow>
       (\<exists>pre z post. queue_of (priority_queues q) (priority (\<sigma> w)) = pre @ z # post \<and>
          live \<sigma> pre = filter (\<lambda>v. priority (\<sigma> v) = priority (\<sigma> w)) ws \<and> z \<notin> set ws \<and>
          unat (permits_needed (\<sigma> z)) > unat a - unat assigned +
            needs \<sigma> (filter (\<lambda>x. priority (\<sigma> x) < priority (\<sigma> w)) ws)))"
proof -
  obtain ws sl where *: "assigned = need_words \<sigma> ws" "\<sigma>' = notify_all ws \<sigma>"
    and sv: "served_by \<sigma> q a ws q' sl"
    using select_served [OF assms(1), of a] assms(2) by auto
  note D = served_byD [OF sv]
  have left: "unat (sel_avail sl) = unat a - unat assigned" using D(6-8) * by simp
  have "\<exists>pre z post. queue_of (priority_queues q) (priority (\<sigma> w)) = pre @ z # post \<and>
      live \<sigma> pre = filter (\<lambda>v. priority (\<sigma> v) = priority (\<sigma> w)) ws \<and> z \<notin> set ws \<and>
      unat (permits_needed (\<sigma> z)) > unat a - unat assigned + needs \<sigma> (filter (\<lambda>x. priority (\<sigma> x) < priority (\<sigma> w)) ws)"
    if "x \<in> set ws" "w \<in> queued q'" "is_waiting (\<sigma> w)" "priority (\<sigma> x) < priority (\<sigma> w)" for x w
  proof -
    note overtaken = that
    obtain z where z: "stands \<sigma> (priority_queues q) ws (priority (\<sigma> w)) z"
      "unat (permits_needed (\<sigma> z)) > unat a - unat assigned + needs \<sigma> (filter (\<lambda>x. priority (\<sigma> x) < priority (\<sigma> w)) ws)"
      using served_by_all(8) [OF assms(1) sv overtaken] left by auto
    from stands_sides [OF assms(1) sv z(1)] have "z \<notin> set ws" by (auto simp: waiter_tests)
    with z show ?thesis unfolding stands_def by blast
  qed
  then show ?thesis
    using * D(6) served_by_all(5,6) [OF assms(1) sv] by (intro exI [of _ ws] conjI) simp_all
qed

theorem select_order_witness:
  "\<exists>wl assigned \<sigma>' q' ws. select_waiters_to_notify 1 (store (csys demo_waiting)) (waiters (csys demo_waiting)) =
     Some (wl, assigned, \<sigma>', q') \<and> \<sigma>' = notify_all ws (store (csys demo_waiting)) \<and>
   live (store (csys demo_waiting)) (queue_of (priority_queues (waiters (csys demo_waiting))) (ISize 5)) =
     filter (\<lambda>w. priority (store (csys demo_waiting) w) = ISize 5) ws @
     live (store (csys demo_waiting)) (queue_of (priority_queues q') (ISize 5))"
  using select_served [OF demo_queue_inv, of 1] select_order [OF demo_queue_inv, of 1] by metis

text \<open>C20: a selection does not stop early: it ends with all permits assigned, or with 32 wakers in the batch,
  or every waiter left waiting is held up: the first request that has not been served in its own queue
  (\<open>z\<close>: nobody before it still waits, it and all behind it have not been notified), or in one of higher priority
  below which nobody has been served, is larger than what is left.\<close>

theorem select_exhausts:
  assumes "wait_queue_inv \<sigma> q" "select_waiters_to_notify a \<sigma> q = Some (wl, assigned, \<sigma>', q')"
  shows "unat assigned = unat a \<or> was_full wl \<or>
    (\<forall>w \<in> queued q'. is_waiting (\<sigma>' w) \<longrightarrow>
      (\<exists>p pre z post. priority (\<sigma> w) \<le> p \<and> queue_of (priority_queues q) p = pre @ z # post \<and>
        (\<forall>v \<in> set pre. \<not> is_waiting (\<sigma>' v)) \<and> (\<forall>v \<in> set (z # post). \<not> is_notified (\<sigma>' v)) \<and>
        unat (permits_needed (\<sigma> z)) > unat a - unat assigned \<and>
        (p = priority (\<sigma> w) \<or>
         (\<forall>v. is_waiting (\<sigma> v) \<and> is_notified (\<sigma>' v) \<longrightarrow> p \<le> priority (\<sigma> v)))))"
proof -
  obtain ws sl where *: "wl = wake_list_of (wakers_of \<sigma> ws)" "assigned = need_words \<sigma> ws"
      "\<sigma>' = notify_all ws \<sigma>"
    and sv: "served_by \<sigma> q a ws q' sl"
    using select_served [OF assms(1), of a] assms(2) by auto
  note D = served_byD [OF sv]
  have left: "unat (sel_avail sl) = unat a - unat assigned" using D(6-8) * by simp
  have le: "unat assigned \<le> unat a" using D(4,6) * by simp
  have "unat assigned = unat a" if "sel_avail sl = 0" using that left le by simp
  moreover have "was_full wl" if "\<not> can_push (sel_wakes sl)" using that D(2,5) * by simp
  moreover have "\<exists>p pre z post. priority (\<sigma> w) \<le> p \<and> queue_of (priority_queues q) p = pre @ z # post \<and>
        (\<forall>v \<in> set pre. \<not> is_waiting (\<sigma>' v)) \<and> (\<forall>v \<in> set (z # post). \<not> is_notified (\<sigma>' v)) \<and>
        unat (permits_needed (\<sigma> z)) > unat a - unat assigned \<and>
        (p = priority (\<sigma> w) \<or> (\<forall>v. is_waiting (\<sigma> v) \<and> is_notified (\<sigma>' v) \<longrightarrow> p \<le> priority (\<sigma> v)))"
    if more: "sel_avail sl \<noteq> 0" "can_push (sel_wakes sl)" and w: "w \<in> queued q'" "is_waiting (\<sigma>' w)" for w
  proof -
    have "is_waiting (\<sigma> w)" using w(2) * by (auto simp: notify_all_def waiter_tests split: if_splits)
    with served_by_all(7) [OF assms(1) sv] more w(1) obtain p z where z: "priority (\<sigma> w) \<le> p"
      "stands \<sigma> (priority_queues q) ws p z" "permits_needed (\<sigma> z) > sel_avail sl"
      "p = priority (\<sigma> w) \<or> (\<forall>v \<in> set ws. p \<le> priority (\<sigma> v))" by blast
    have "v \<in> set ws" if "is_waiting (\<sigma> v)" "is_notified (\<sigma>' v)" for v
      using that * by (auto simp: notify_all_def waiter_tests split: if_splits)
    with z stands_sides [OF assms(1) sv z(2)] left * show ?thesis
      unfolding word_less_nat_alt by metis
  qed
  ultimately show ?thesis by blast
qed

text \<open>A waiter of priority 0 that asks for three permits holds up one that asks for one.\<close>

definition demo_held_up :: client where
  "demo_held_up = do_poll True 21 (demo_future (ISize 0) None) (do_acquire (ISize 0) 1
     (do_poll True 20 ((demo_future (ISize 0) None)\<lparr>f_needed := 3\<rparr>) (do_acquire (ISize 0) 3
       (do_try_acquire_many 1 demo_start))))"

lemma demo_held_up_inv: "wait_queue_inv (store (csys demo_held_up)) (waiters (csys demo_held_up))"
proof -
  let ?f = "(demo_future (ISize 0) None)\<lparr>f_needed := 3\<rparr>"
  let ?c1 = "do_acquire (ISize 0) 3 (do_try_acquire_many 1 demo_start)"
  let ?c2 = "do_acquire (ISize 0) 1 (do_poll True 20 ?f ?c1)"
  have "(?f, False) \<in># futs ?c1" "(demo_future (ISize 0) None, False) \<in># futs ?c2" by code_simp+
  then have "reachable demo_held_up"
    unfolding demo_held_up_def by (intro reachable_step demo_start_reachable) simp_all
  from client_invD(8) [OF reachable_inv [OF this]] show ?thesis .
qed

theorem select_exhausts_witness:
  "\<exists>wl assigned \<sigma>' q'. select_waiters_to_notify 2 (store (csys demo_held_up)) (waiters (csys demo_held_up)) =
     Some (wl, assigned, \<sigma>', q') \<and> assigned = 0 \<and> is_waiting (\<sigma>' 1) \<and> 1 \<in> queued q' \<and>
   (\<exists>pre z post. [0, 1] = pre @ z # post \<and> unat (permits_needed (store (csys demo_held_up) z)) > 2)"
proof -
  let ?\<sigma> = "store (csys demo_held_up)" and ?q = "waiters (csys demo_held_up)"
  let ?r = "the (select_waiters_to_notify 2 ?\<sigma> ?q)"
  obtain wl assigned \<sigma>' q' where sel: "select_waiters_to_notify 2 ?\<sigma> ?q = Some (wl, assigned, \<sigma>', q')"
    using select_served [OF demo_held_up_inv, of 2] by blast
  have "\<not> was_full (fst ?r)" "fst (snd ?r) = 0" "is_waiting (fst (snd (snd ?r)) 1)" "1 \<in> queued (snd (snd (snd ?r)))"
    by code_simp+
  with sel have out: "\<not> was_full wl" "assigned = 0" "is_waiting (\<sigma>' 1)" "1 \<in> queued q'" by simp_all
  have q: "queue_of (priority_queues ?q) p = (if p = ISize 0 then [0, 1] else [])" for p
  proof -
    have "priority_queues ?q = [(ISize 0, [0, 1])]" by code_simp
    then show ?thesis by (simp add: queue_of_def)
  qed
  have "unat (0 :: usize) \<noteq> unat (2 :: usize)" by simp
  with select_exhausts [OF demo_held_up_inv sel] out obtain p pre z post where
    "queue_of (priority_queues ?q) p = pre @ z # post" "unat (permits_needed (?\<sigma> z)) > unat (2 :: usize) - unat assigned"
    by blast
  with q [of p] out(2) have "[0, 1] = pre @ z # post \<and> unat (permits_needed (?\<sigma> z)) > 2"
    by (auto split: if_splits)
  with sel out show ?thesis by blast
qed



section \<open>Properties of a release\<close>

text \<open>C6: \<open>add_permits\<close> on an open semaphore, as long as free plus added permits stay within
  \<open>MAX_PERMITS\<close>: it returns without a panic in both build profiles; it serves exactly the waiters that one selection
  with all the added permits serves, and leaves the waiters and the queue as that selection does; every permit
  added is either assigned to a served waiter or free afterwards; the tasks of the served waiters
  are woken (each once, in order of service), unless all of them asked for no permits, when nobody is
  woken; and the queue stays well formed.\<close>

theorem add_permits_accounting:
  assumes "wait_queue_inv (store s) (waiters s)" "\<not> is_closed s" "free s + unat n \<le> max_permits"
  shows "\<exists>ws s'. add_permits chk n s = (Done (), s') \<and>
    (\<exists>wl k. select_waiters_to_notify n (store s) (waiters s) = Some (wl, k, store s', waiters s')) \<and>
    free s' + needs (store s) ws = free s + unat n \<and> store s' = notify_all ws (store s) \<and>
    distinct ws \<and> set ws \<subseteq> queued (waiters s) \<and> (\<forall>w \<in> set ws. is_waiting (store s w)) \<and>
    woken s' = woken s @ (if needs (store s) ws = 0 then [] else wakers_of (store s) ws) \<and>
    wait_queue_inv (store s') (waiters s') \<and> \<not> is_closed s'"
proof -
  obtain ws s' where *: "add_permits chk n s = (Done (), s')" "released s n ws s'"
    using add_permits_released [OF assms(1,3), of chk] by blast
  have "\<exists>wl k. select_waiters_to_notify n (store s) (waiters s) = Some (wl, k, store s', waiters s')"
    using add_permits_selects [OF assms(1) refl, of n chk] *(1) by simp
  moreover obtain sl where sv: "served_by (store s) (waiters s) n ws (waiters s') sl"
    using *(2) by (auto simp: released_def)
  have "need_words (store s) ws = 0 \<longleftrightarrow> needs (store s) ws = 0"
    using served_byD(6) [OF sv] by (metis unat_0 word_unat_eq_iff)
  ultimately show ?thesis using * releasedD [OF *(2)] assms(2)
    by (intro exI [of _ ws] exI [of _ s'] conjI) (auto simp: released_def)
qed

theorem add_permits_accounting_witness:
  "\<exists>s'. add_permits False 3 (csys demo_waiting) = (Done (), s') \<and> free s' \<le> 3"
proof -
  have "\<not> is_closed (csys demo_waiting)" "free (csys demo_waiting) = 0" by code_simp+
  with add_permits_accounting [OF demo_queue_inv, of 3 False] show ?thesis
    by (auto simp: max_permits_def)
qed

text \<open>C23: dropping a permit is \<open>add_permits\<close> of its count, on every state: the semaphore it leaves is the same,
  and so is the outcome, but for the check that the fast path for an empty queue skips: there a drop
  always returns, where \<open>add_permits\<close> panics (after it has changed the word as the drop does) if the free
  permits then exceed \<open>MAX_PERMITS\<close>. An empty (forgotten) permit changes nothing.\<close>

theorem drop_permit_is_add_permits:
  "snd (drop_permit chk p s) = snd (add_permits chk (num_permits p) s) \<and>
   fst (drop_permit chk p s) = (if is_empty (waiters s) then Done () else fst (add_permits chk (num_permits p) s)) \<and>
   (is_empty (waiters s) \<longrightarrow>
     (if p_permits p = 0 \<or> free s + unat (p_permits p) \<le> max_permits
      then fst (add_permits chk (num_permits p) s) = Done ()
      else fst (add_permits chk (num_permits p) s) = Panic ''number of added permits would overflow MAX_PERMITS'')) \<and>
   drop_permit chk (forget p) s = (Done (), s)"
proof -
  let ?n = "ucast (p_permits p) :: usize"
  have n: "unat ?n = unat (p_permits p)" by (rule unat_ucast_u32)
  have zero: "?n = 0 \<longleftrightarrow> p_permits p = 0" using n by (simp add: word_unat_eq_iff)
  have "unat (drop_bit PERMIT_SHIFT (permits s)) < 2 ^ 63"
    using unsigned_less [of "permits s", where ?'a = nat]
    by (simp add: PERMIT_SHIFT_def drop_bit_eq_div unat_div)
  then have sum: "unat (drop_bit PERMIT_SHIFT (permits s)) + unat ?n < 2 ^ 64"
    using unat_u32_less [of "p_permits p"] n by simp
  then have max: "drop_bit PERMIT_SHIFT (permits s) + ?n > MAX_PERMITS \<longleftrightarrow> \<not> free s + unat (p_permits p) \<le> max_permits"
    using n by (simp add: word_less_nat_alt unat_MAX_PERMITS unat_add_lt available_permits_def not_le)
  have "add_permits_locked chk ?n s =
      (if free s + unat (p_permits p) \<le> max_permits then Done ()
       else Panic ''number of added permits would overflow MAX_PERMITS'',
       s\<lparr>permits := permits s + push_bit PERMIT_SHIFT ?n\<rparr>)" if "is_empty (waiters s)" "p_permits p \<noteq> 0"
  proof -
    have "?n > 0" using that(2) zero by (simp add: word_gt_0)
    with that(1) have "add_permits_loop ?n s = Some (Some ?n, s)" by (simp add: add_permits_loop.simps [of ?n s])
    with \<open>?n > 0\<close> sum max show ?thesis by (simp add: add_permits_locked_def Let_def not_le)
  qed
  then show ?thesis
    using zero by (auto simp: drop_permit_def add_permits_def num_permits_def forget_def Let_def)
qed

theorem drop_permit_is_add_permits_witness:
  "drop_permit True demo_permit (csys demo_waiting) = add_permits True 1 (csys demo_waiting) \<and>
   fst (add_permits True 1 (csys demo_start)) = Done ()"
proof
  have "\<not> is_empty (waiters (csys demo_waiting))" "num_permits demo_permit = 1"
    by code_simp+
  with drop_permit_is_add_permits [of True demo_permit "csys demo_waiting"]
  show "drop_permit True demo_permit (csys demo_waiting) = add_permits True 1 (csys demo_waiting)"
    by (simp add: prod_eq_iff)
  have "is_empty (waiters (csys demo_start))" "num_permits demo_permit = 1" "free (csys demo_start) = 1"
    "unat (p_permits demo_permit) = 1" by code_simp+
  with drop_permit_is_add_permits [of True demo_permit "csys demo_start"]
  show "fst (add_permits True 1 (csys demo_start)) = Done ()" by (simp add: max_permits_def)
qed

text \<open>In every reachable state a held permit can be dropped without a panic, whatever the
  profile, and the drop follows the same accounting.\<close>

theorem drop_never_panics:
  assumes "reachable c" "p \<in># held c"
  shows "\<exists>s'. drop_permit chk p (csys c) = (Done (), s') \<and>
    step c (c\<lparr>csys := s', held := held c - {#p#}\<rparr>)"
  using client_drop_released [OF reachable_inv [OF assms(1)] assms(2), of chk] assms(2)
    step.drop_permit [of c p "held c - {#p#}" chk]
  by fastforce

theorem drop_never_panics_witness:
  "\<exists>s'. drop_permit False demo_permit (csys demo_waiting) = (Done (), s')"
proof -
  have "demo_permit \<in># held demo_waiting" by code_simp
  from drop_never_panics [OF demo_waiting_reachable this, of False] show ?thesis by blast
qed

end
