(* ===== verification/Operations.thy ===== *)
theory Operations
  imports Scenarios
begin

text \<open>
  What each public operation promises: constructors, non-blocking acquisition under interference,
  polling, dropping a future, closing, forgetting, and the arithmetic of permit objects.
\<close>

section \<open>Constructors\<close>

text \<open>A constructor panics exactly when asked for more than \<open>MAX_PERMITS\<close> = 2^61 - 1 permits;
  otherwise the semaphore is open, has exactly the permits asked for and an empty queue, and every
  priority uses the strategy the constructor names.\<close>

theorem constructors:
  "if unat n \<le> max_permits
   then (\<exists>s. new_with_config addr n cfg = Done s \<and> free s = unat n \<and> \<not> is_closed s \<and>
          is_empty (waiters s) \<and> queued (waiters s) = {} \<and> config (waiters s) = cfg) \<and>
        (\<exists>s. new_fifo addr n = Done s \<and> free s = unat n \<and> \<not> is_closed s \<and>
          (\<forall>p. resolve_strategy (config (waiters s)) p = Fifo)) \<and>
        (\<exists>s. new_lifo addr n = Done s \<and> free s = unat n \<and> \<not> is_closed s \<and>
          (\<forall>p. resolve_strategy (config (waiters s)) p = Lifo))
   else \<exists>msg. new_with_config addr n cfg = Panic msg \<and> new_semaphore addr n st = Panic msg \<and>
          new_fifo addr n = Panic msg \<and> new_lifo addr n = Panic msg"
proof (cases "unat n \<le> max_permits")
  case False
  then have "n > MAX_PERMITS" by (simp add: word_less_nat_alt unat_MAX_PERMITS)
  with False show ?thesis
    by (simp add: new_with_config_def new_semaphore_def new_fifo_def new_lifo_def)
next
  case True
  then have n: "\<not> n > MAX_PERMITS" by (simp add: word_less_nat_alt unat_MAX_PERMITS)
  have ex: "\<exists>s. new_with_config addr n c = Done s \<and> free s = unat n \<and> \<not> is_closed s \<and>
      is_empty (waiters s) \<and> queued (waiters s) = {} \<and> config (waiters s) = c" for c
  proof -
    obtain s where s: "new_with_config addr n c = Done s" using n by (simp add: new_with_config_def)
    from new_with_configD [OF s] s show ?thesis
      by (intro exI [of _ s]) (simp add: is_empty_def wait_queue_new_def queued_def)
  qed
  have strat: "resolve_strategy (default_strategy config_new st) p = st" for st p
    by (simp add: resolve_strategy_def default_strategy_def config_new_def)
  have "new_fifo addr n = new_with_config addr n (default_strategy config_new Fifo)"
    "new_lifo addr n = new_with_config addr n (default_strategy config_new Lifo)"
    using n by (simp_all add: new_fifo_def new_lifo_def new_semaphore_def)
  with True ex [of cfg] ex [of "default_strategy config_new Fifo"]
    ex [of "default_strategy config_new Lifo"] strat show ?thesis
    by fastforce
qed

section \<open>Non-blocking acquisition\<close>

text \<open>\<open>try_acquire\<close> is linearizable: whatever other threads do to the permit word while it
  retries (writes and spurious failures of the weak exchange), it acts like one indivisible step
  on some value the word had, and then it is all or nothing: closed, no permit, or exactly
  one permit taken, with the closed flag untouched.\<close>

theorem try_acquire_linearizable:
  "\<exists>u \<in> insert (permits s) (overwrites env). \<exists>r v'. try_acquire env s = (r, s\<lparr>permits := v'\<rparr>) \<and>
     (if word_closed u then r = Inl Closed \<and> v' = u
      else if word_count u = 0 then r = Inl NoPermits \<and> v' = u
      else r = Inr \<lparr>p_sem = sem_addr s, p_permits = 1\<rparr> \<and> word_count v' + 1 = word_count u \<and>
        \<not> word_closed v')"
proof -
  obtain r s' where run: "try_acquire env s = (r, s')" by (rule prod.exhaust)
  from try_acquire_taken [OF this] run show ?thesis
    by (fastforce simp: taken_def acquire_post_def split: if_splits)
qed

text \<open>C10: the same for \<open>try_acquire_many\<close> with any number of permits but zero, which never panics
  since a 32-bit count is below \<open>MAX_PERMITS\<close>; asking for zero permits succeeds with an empty permit
  and changes nothing, even on a closed semaphore.\<close>

theorem try_acquire_many_linearizable:
  "\<exists>u \<in> insert (permits s) (overwrites env). \<exists>r s'. try_acquire_many env n s = (Done r, s') \<and>
     (if n = 0 then r = Inr \<lparr>p_sem = sem_addr s, p_permits = 0\<rparr> \<and> s' = s
      else s' = s\<lparr>permits := permits s'\<rparr> \<and>
       (if word_closed u then r = Inl Closed \<and> permits s' = u
        else if word_count u < unat n then r = Inl NoPermits \<and> permits s' = u
        else r = Inr \<lparr>p_sem = sem_addr s, p_permits = n\<rparr> \<and>
          word_count (permits s') + unat n = word_count u \<and> \<not> word_closed (permits s')))"
proof (cases "n = 0")
  case True
  then show ?thesis by (intro bexI [of _ "permits s"]) (simp_all add: try_acquire_many_def)
next
  case False
  then show ?thesis
    using try_acquire_many_taken [OF False, of env s]
    by (fastforce simp: taken_def acquire_post_def split: if_splits)
qed

text \<open>C25: \<open>forget_permits\<close> is linearizable too: on some value the word had, it removes the
  smaller of what is there and what is asked, reports that number and keeps the flag.\<close>

theorem forget_permits_linearizable:
  "\<exists>u \<in> insert (permits s) (overwrites env). \<exists>removed s'. forget_permits env n s = (removed, s') \<and>
     (if n = 0 then removed = 0 \<and> s' = s
      else s' = s\<lparr>permits := permits s'\<rparr> \<and> unat removed = min (word_count u) (unat n) \<and>
        word_count (permits s') + unat removed = word_count u \<and>
        word_closed (permits s') = word_closed u)"
proof (cases "n = 0")
  case True
  then show ?thesis by (intro bexI [of _ "permits s"]) (simp_all add: forget_permits_def)
next
  case False
  obtain removed v' where run: "cas_loop (forget_decide n) env (permits s) (permits s) = (removed, v')"
    by (rule prod.exhaust)
  then obtain u where u: "u \<in> insert (permits s) (overwrites env)"
    "atomically (forget_decide n) u = (removed, v')"
    using cas_loop_linearizable [of "permits s" env "forget_decide n"] by metis
  from forget_step [OF u(2)] u(1) run False show ?thesis
    by (intro bexI [of _ u]) (simp_all add: forget_permits_def forget_post_def)
qed

text \<open>No interference by well-behaved threads can push the word out of bounds: if the word and
  everything the others write hold at most \<open>MAX_PERMITS\<close> permits, so does the word afterwards.\<close>

theorem retry_loops_keep_bounds:
  assumes "good_word (permits s)" "\<forall>u \<in> overwrites env. good_word u"
  shows "good_word (permits (snd (try_acquire_many env n s))) \<and>
    good_word (permits (snd (forget_permits env m s)))"
proof (rule conjI)
  have good: "u \<in> overwrites env \<Longrightarrow> good_word u" for u using assms(2) by blast
  have "good_word v'" if "cas_loop (acquire_decide (push_bit PERMIT_SHIFT (ucast n))
      \<lparr>p_sem = sem_addr s, p_permits = n\<rparr>) env (permits s) (permits s) = (r, v')" for r v'
    using acquire_op.loop_correct [OF assms(1) good that] by blast
  then show "good_word (permits (snd (try_acquire_many env n s)))"
    using assms(1) by (simp add: try_acquire_many_def u32_not_above_max Let_def split: prod.split)
  have "good_word v'" if "cas_loop (forget_decide m) env (permits s) (permits s) = (r, v')" for r v'
    using forget_op.loop_correct [OF assms(1) good that] by blast
  then show "good_word (permits (snd (forget_permits env m s)))"
    using assms(1) by (simp add: forget_permits_def Let_def split: prod.split)
qed

theorem retry_loops_keep_bounds_witness:
  "good_word (permits (snd (try_acquire_many [Spurious, Overwrite 9, Quiet] 2 (csys demo_start))))"
proof -
  have "good_word (permits (csys demo_start))" "good_word 9"
    by (simp_all add: good_word_def word_count_eq max_permits_def demo_start_def)
  with retry_loops_keep_bounds [of "csys demo_start" "[Spurious, Overwrite 9, Quiet]" 2 0]
  show ?thesis by (simp add: overwrites_def)
qed

section \<open>Futures\<close>

text \<open>C11: the first poll of a future, in all its cases: an error if the semaphore is closed, and
  nothing changes; the permits at once if enough are free and the single weak exchange succeeds,
  and the word loses exactly these; otherwise the task is queued under a fresh identity, at the end
  its priority's strategy says, with the polling task's waker, and no permit moves.\<close>

theorem first_poll:
  assumes "f_handle f = None" "unat (f_needed f) < 2 ^ 32"
  shows "case poll cas_ok k f s of (r, f', s') \<Rightarrow>
    if is_closed s then r = Ready (Inl acquire_error_closed) \<and> s' = s
    else if unat (f_needed f) \<le> free s \<and> cas_ok
    then r = Ready (Inr \<lparr>p_sem = f_sem f, p_permits = ucast (f_needed f)\<rparr>) \<and>
      s' = s\<lparr>permits := permits s'\<rparr> \<and> free s' + unat (f_needed f) = free s \<and> \<not> is_closed s'
    else r = Pending \<and> f' = f\<lparr>f_handle := Some (next_wid s)\<rparr> \<and> permits s' = permits s \<and>
      waker (store s' (next_wid s)) = Some k \<and> is_waiting (store s' (next_wid s)) \<and>
      queue_of (priority_queues (waiters s')) (f_priority f) =
        (case resolve_strategy (config (waiters s)) (f_priority f) of
           Fifo \<Rightarrow> queue_of (priority_queues (waiters s)) (f_priority f) @ [next_wid s]
         | Lifo \<Rightarrow> next_wid s # queue_of (priority_queues (waiters s)) (f_priority f)) \<and>
      (\<forall>p. p \<noteq> f_priority f \<longrightarrow> queue_of (priority_queues (waiters s')) p = queue_of (priority_queues (waiters s)) p)"
proof -
  have n: "unat (f_needed f) < 2 ^ 63" using assms(2) by simp
  note fits = fits_free [OF n, of s]
  consider "is_closed s" | "\<not> is_closed s" "unat (f_needed f) \<le> free s \<and> cas_ok"
    | "\<not> is_closed s" "\<not> (unat (f_needed f) \<le> free s \<and> cas_ok)" by blast
  then show ?thesis
  proof cases
    case 1
    with assms(1) show ?thesis by (simp add: poll_eq)
  next
    case 2
    with free_taken [OF n, of s] assms(1) fits show ?thesis by (simp add: poll_eq)
  next
    case 3
    with assms(1) fits show ?thesis
      by (auto simp: poll_eq insert_waiter_queues enqueue_def waiter_tests split: QueueStrategy.split)
  qed
qed

theorem first_poll_witness:
  "fst (poll True 9 (demo_future (ISize 0) None) (csys demo_start)) = Ready (Inr demo_permit) \<and>
   fst (poll False 9 (demo_future (ISize 0) None) (csys demo_start)) = Pending"
proof -
  have f: "f_handle (demo_future (ISize 0) None) = None" "unat (f_needed (demo_future (ISize 0) None)) = 1"
    "f_sem (demo_future (ISize 0) None) = 7" "f_needed (demo_future (ISize 0) None) = 1"
    by (simp_all add: demo_future_def)
  have s: "\<not> is_closed (csys demo_start)" "free (csys demo_start) = 1" by code_simp+
  note first = first_poll [OF f(1), where k = 9 and s = "csys demo_start"]
  from first [where cas_ok = True] first [where cas_ok = False]
  show ?thesis using f s by (auto simp: demo_permit_def split: prod.splits)
qed

text \<open>A later poll of a queued task only looks at its waiter: an error if it was cancelled, or if
  it was notified but the semaphore is closed by now; its permit, without touching the permit word,
  if it was notified; otherwise it stays pending and only its waker is replaced by the new one.\<close>

theorem later_poll:
  assumes "f_handle f = Some w"
  shows "poll cas_ok k f s =
    (if is_cancelled (store s w) \<or> is_notified (store s w) \<and> is_closed s
     then (Ready (Inl acquire_error_closed), f, s)
     else if is_notified (store s w)
     then (Ready (Inr \<lparr>p_sem = f_sem f, p_permits = ucast (f_needed f)\<rparr>), f, s)
     else (Pending, f, s\<lparr>store := (store s)(w := (store s w)\<lparr>waker := Some k\<rparr>)\<rparr>))"
  using assms by (simp add: poll_eq set_waker_def set_under_lock_def)

theorem later_poll_witness:
  "fst (poll True 9 (demo_future (ISize 5) (Some 1)) (csys demo_served)) = Ready (Inr demo_permit) \<and>
   fst (poll True 9 (demo_future (ISize 0) (Some 0)) (csys demo_served)) = Pending"
proof -
  have f: "f_handle (demo_future p (Some w)) = Some w" "f_sem (demo_future p h) = 7"
    "f_needed (demo_future p h) = 1" for p w h
    by (simp_all add: demo_future_def)
  have s: "is_notified (store (csys demo_served) 1)" "is_waiting (store (csys demo_served) 0)"
    "\<not> is_closed (csys demo_served)" by code_simp+
  show ?thesis
    using s by (simp add: later_poll [OF f(1)] f waiter_tests demo_permit_def)
qed

text \<open>C27: dropping a future frees nobody else: no permit moves and no other waiter and no queue
  changes. Its own waiter becomes cancelled and stays so in every later state, whatever whole operations
  follow (while at most \<open>MAX_PERMITS\<close> permits are issued), and no selection in any of these states serves it:
  it does not touch it, takes no waker of it and assigns it no permit; all it assigns goes to the waiting waiters it
  notifies.\<close>

theorem dropped_future_never_served:
  assumes "reachable_any c" "futs c = add_mset (f, d) F" "f_handle f = Some w"
    and "step_any\<^sup>*\<^sup>* (c\<lparr>csys := drop_future f (csys c), futs := F,
      retired := retired c + reserved_by (store (csys c)) (f, d)\<rparr>) c'" "issued c' \<le> max_permits"
  shows "permits (drop_future f (csys c)) = permits (csys c) \<and> waiters (drop_future f (csys c)) = waiters (csys c) \<and>
    (\<forall>v. v \<noteq> w \<longrightarrow> store (drop_future f (csys c)) v = store (csys c) v) \<and>
    is_cancelled (store (csys c') w) \<and>
    (\<forall>n. \<exists>wl k q' ws. select_waiters_to_notify n (store (csys c')) (waiters (csys c')) =
        Some (wl, k, notify_all ws (store (csys c')), q') \<and>
      w \<notin> set ws \<and> notify_all ws (store (csys c')) w = store (csys c') w \<and>
      (\<forall>v \<in> set ws. is_waiting (store (csys c') v)) \<and> distinct ws \<and>
      wake_contents wl = wakers_of (store (csys c')) ws \<and> unat k = needs (store (csys c')) ws)"
proof -
  let ?c1 = "c\<lparr>csys := drop_future f (csys c), futs := F,
      retired := retired c + reserved_by (store (csys c)) (f, d)\<rparr>"
  have "issued ?c1 \<le> issued c'" using assms(4) by (induction rule: rtranclp_induct) (auto dest: step_any_issued)
  then have inv: "client_inv c" using assms(1,5) by (simp add: reachable_inv reachable_any_bounded)
  have ok: "waiter_ok (store (csys c) w)" "w < next_wid (csys c)"
    using client_invD(4) [OF inv, of "(f, d)"] assms(2,3) by (simp_all add: task_ok_def)
  have "reachable_any ?c1"
    using assms(1,2) by (blast intro: reachable_any.move step_any.bounded step.drop_future)
  moreover have "is_cancelled (store (csys ?c1) w)" "w < next_wid (csys ?c1)"
    using ok assms(3) cancel_cancelled by (simp_all add: drop_future_eq)
  ultimately have c': "reachable c'" "is_cancelled (store (csys c') w)"
    using cancelled_for_good [OF assms(4) _ assms(5)] by blast+
  have "\<exists>wl k q' ws. select_waiters_to_notify n (store (csys c')) (waiters (csys c')) =
        Some (wl, k, notify_all ws (store (csys c')), q') \<and>
      w \<notin> set ws \<and> notify_all ws (store (csys c')) w = store (csys c') w \<and>
      (\<forall>v \<in> set ws. is_waiting (store (csys c') v)) \<and> distinct ws \<and>
      wake_contents wl = wakers_of (store (csys c')) ws \<and> unat k = needs (store (csys c')) ws" for n
  proof -
    let ?\<sigma> = "store (csys c')"
    obtain ws q' sl where sel: "select_waiters_to_notify n ?\<sigma> (waiters (csys c')) =
        Some (wake_list_of (wakers_of ?\<sigma> ws), need_words ?\<sigma> ws, notify_all ws ?\<sigma>, q')"
      and sv: "served_by ?\<sigma> (waiters (csys c')) n ws q' sl"
      using select_served [OF client_invD(8) [OF reachable_inv [OF c'(1)]]] by blast
    have w: "w \<notin> set ws" using served_by_waiters(5) [OF sv, of w] c'(2) by (auto simp: waiter_tests)
    have all: "\<forall>v \<in> set ws. is_waiting (?\<sigma> v)" "distinct ws"
      "wake_contents (wake_list_of (wakers_of ?\<sigma> ws)) = wakers_of ?\<sigma> ws" "unat (need_words ?\<sigma> ws) = needs ?\<sigma> ws"
      using served_by_waiters(2,5) [OF sv] served_byD(6) [OF sv] by simp_all
    show ?thesis using sel w notify_all_other [OF w] all by blast
  qed
  then show ?thesis using c'(2) assms(3) by (simp add: drop_future_eq)
qed

theorem dropped_future_never_served_witness:
  "is_cancelled (store (csys (do_drop_permit demo_permit (do_drop_future (demo_future (ISize 5) (Some 1)) demo_waiting))) 1)"
    (is "is_cancelled (store (csys ?c2) 1)")
proof -
  let ?f = "demo_future (ISize 5) (Some 1)"
  let ?c1 = "do_drop_future ?f demo_waiting"
  have t: "(?f, False) \<in># futs demo_waiting" "demo_permit \<in># held ?c1" by code_simp+
  then have c1: "reachable ?c1" by (intro reachable_step demo_waiting_reachable)
  have "step_any\<^sup>*\<^sup>* ?c1 ?c2"
    using do_drop_permit_step [OF c1 t(2)] by (blast intro: step_any.bounded)
  moreover have "reachable_any demo_waiting" by (rule reachable_reachable_any [OF demo_waiting_reachable])
  moreover have "futs demo_waiting = add_mset (?f, False) (futs demo_waiting - {#(?f, False)#})" using t(1) by simp
  moreover have "issued ?c2 \<le> max_permits"
    using do_drop_permit_step [OF c1 t(2)] client_invD(7) [OF reachable_inv] c1 reachable.move by blast
  ultimately show ?thesis
    using dropped_future_never_served [of demo_waiting ?f False "futs demo_waiting - {#(?f, False)#}" 1 ?c2]
    by (simp add: do_drop_future_def demo_future_def)
qed

section \<open>Closing\<close>

text \<open>C12: \<open>close\<close>, for every order in which the hash map yields its queues: the flag is set and
  the permit count kept, the queue is empty, every queued waiter is cancelled, no other waiter
  changes, and the wakers of the live queued waiters are woken, each exactly once.\<close>

theorem close_cancels_all:
  assumes "wait_queue_inv (store s) (waiters s)" "hash_order_ok h"
  shows "is_closed (close h s) \<and> free (close h s) = free s \<and> queued (waiters (close h s)) = {} \<and>
    is_empty (waiters (close h s)) \<and> closed (waiters (close h s)) \<and>
    (\<forall>w. if w \<in> queued (waiters s) then is_cancelled (store (close h s) w)
         else store (close h s) w = store s w) \<and>
    (\<exists>ws. set ws = {w \<in> queued (waiters s). is_waiting (store s w)} \<and> distinct ws \<and>
       woken (close h s) = woken s @ wakers_of (store s) ws)"
proof -
  obtain ws where ws: "set ws = queued (waiters s)" "distinct ws" and c: "close h s =
      s\<lparr>permits := permits s OR CLOSED,
        store := (\<lambda>w. if w \<in> queued (waiters s) then fst (cancel (store s w)) else store s w),
        waiters := (waiters s)\<lparr>closed := True, priority_queues := [], active_priorities := [],
          total_waiters := 0\<rparr>,
        woken := woken s @ concat (map (\<lambda>w. snd (cancel (store s w))) ws)\<rparr>"
    using close_eq [OF assms] by blast
  note q = queued_waits [OF assms(1)]
  let ?ws = "filter (\<lambda>w. is_waiting (store s w)) ws"
  have woken: "woken (close h s) = woken s @ wakers_of (store s) ?ws"
    using cancelled_wakers [of ws "store s"] q ws(1) by (simp add: c)
  have cancelled: "is_cancelled (fst (cancel (store s w)))" if "w \<in> queued (waiters s)" for w
    using q [OF that] by (intro cancel_cancelled) (auto simp: waiter_ok_def waiter_tests)
  have "set ?ws = {w \<in> queued (waiters s). is_waiting (store s w)}" "distinct ?ws" using ws by auto
  moreover have "is_closed (close h s)" "free (close h s) = free s" by (rule close_word)+
  moreover have "if w \<in> queued (waiters s) then is_cancelled (store (close h s) w)
         else store (close h s) w = store s w" for w
    using cancelled by (simp add: c)
  moreover have "queued (waiters (close h s)) = {}" "is_empty (waiters (close h s))"
    "closed (waiters (close h s))"
    by (simp_all add: c queued_def is_empty_def)
  ultimately show ?thesis using woken by blast
qed

theorem close_cancels_all_witness:
  "woken (close rev (csys demo_waiting)) = [20, 21] \<or> woken (close rev (csys demo_waiting)) = [21, 20]"
proof -
  have inv: "wait_queue_inv (store (csys demo_waiting)) (waiters (csys demo_waiting))"
    using client_invD(8) [OF reachable_inv [OF demo_waiting_reachable]] .
  have "hash_order_ok rev" by (simp add: hash_order_ok_def)
  from close_cancels_all [OF inv this] obtain ws where
    ws: "set ws = {w \<in> queued (waiters (csys demo_waiting)). is_waiting (store (csys demo_waiting) w)}"
      "distinct ws"
      "woken (close rev (csys demo_waiting)) = woken (csys demo_waiting) @ wakers_of (store (csys demo_waiting)) ws"
    by blast
  have "queued (waiters (csys demo_waiting)) = {0, 1}" "is_waiting (store (csys demo_waiting) 0)"
    "is_waiting (store (csys demo_waiting) 1)" by code_simp+
  with ws(1) have set: "set ws = {0, 1}" by auto
  then have "length ws = 2" using distinct_card [OF ws(2)] by simp
  then obtain a b where "ws = [a, b]" by (auto simp: length_Suc_conv numeral_2_eq_2)
  with set have "ws = [0, 1] \<or> ws = [1, 0]" by (auto simp: doubleton_eq_iff)
  moreover have "woken (csys demo_waiting) = []" "waker (store (csys demo_waiting) 0) = Some 20"
    "waker (store (csys demo_waiting) 1) = Some 21" by code_simp+
  ultimately show ?thesis using ws(3) by (auto simp: serve_simps wake_by_ref_under_lock_def)
qed

section \<open>The wait queue as an abstract type\<close>

text \<open>C24: every operation of \<open>WaitQueue\<close> keeps its representation well formed (one deque for each
  priority, every non-empty one in the heap of active priorities, each waiter at most once, in the
  deque of its own priority, waiting or cancelled, and the counter exact). A new queue is empty; \<open>push_waiter\<close> adds
  the new waiter, removal takes out the one it is given and closing all of them; selection never fails, takes out
  the waiters it notifies, whose requests add up to the permits it reports, and else only cancelled ones, and
  leaves all other waiters as they are.\<close>

theorem queue_operations_well_formed:
  assumes "wait_queue_inv \<sigma> q" "next \<notin> queued q"
  shows "wait_queue_inv \<sigma> (wait_queue_new c) \<and> queued (wait_queue_new c) = {} \<and>
    (case push_waiter n p \<sigma> next q of (w, \<sigma>', next', q') \<Rightarrow>
       wait_queue_inv \<sigma>' q' \<and> queued q' = insert next (queued q) \<and> total_waiters q' = total_waiters q + 1) \<and>
    (case select_waiters_to_notify m \<sigma> q of None \<Rightarrow> False | Some (wake_list, k, \<sigma>', q') \<Rightarrow>
       wait_queue_inv \<sigma>' q' \<and> wake_list_ok wake_list \<and> unat k \<le> unat m \<and> queued q' \<subseteq> queued q \<and>
       (\<forall>v \<in> queued q. v \<in> queued q' \<or> is_cancelled (\<sigma> v) \<or> is_notified (\<sigma>' v)) \<and>
       (\<forall>v. \<sigma>' v \<noteq> \<sigma> v \<longrightarrow> v \<in> queued q - queued q' \<and> is_waiting (\<sigma> v) \<and> is_notified (\<sigma>' v)) \<and>
       unat k = (\<Sum>v \<in> {v \<in> queued q. is_waiting (\<sigma> v) \<and> is_notified (\<sigma>' v)}. unat (permits_needed (\<sigma> v)))) \<and>
    wait_queue_inv \<sigma> (remove_waiter \<sigma> w q) \<and> queued (remove_waiter \<sigma> w q) = queued q - {w} \<and>
    (case close_queue h \<sigma> q of (\<sigma>', q', ws) \<Rightarrow> wait_queue_inv \<sigma>' q' \<and> queued q' = {} \<and> is_empty q') \<and>
    is_empty q = (queued q = {})"
proof (intro conjI)
  obtain v \<sigma>' next' q' where push: "push_waiter n p \<sigma> next q = (v, \<sigma>', next', q')"
    by (metis prod_cases4)
  note P = push_waiter_inv [OF assms(1,2) push]
  have "total_waiters q' = total_waiters q + 1"
    using push by (auto simp: push_waiter_def waiter_handle_new_def insert_waiter_optimized_def Let_def split: prod.split)
  with push P show "case push_waiter n p \<sigma> next q of (w, \<sigma>', next', q') \<Rightarrow>
       wait_queue_inv \<sigma>' q' \<and> queued q' = insert next (queued q) \<and> total_waiters q' = total_waiters q + 1"
    by simp
  obtain ws q' sl where sel: "select_waiters_to_notify m \<sigma> q =
      Some (wake_list_of (wakers_of \<sigma> ws), need_words \<sigma> ws, notify_all ws \<sigma>, q')"
    and sv: "served_by \<sigma> q m ws q' sl"
    using select_served [OF assms(1)] by blast
  note W = served_by_waiters [OF sv]
  have notified: "v \<in> set ws \<longleftrightarrow> is_waiting (\<sigma> v) \<and> is_notified (notify_all ws \<sigma> v)" for v
    using W(5) [of v] by (auto simp: notify_all_def waiter_tests split: if_splits)
  have "{v \<in> queued q. is_waiting (\<sigma> v) \<and> is_notified (notify_all ws \<sigma> v)} = set ws"
    unfolding notified [symmetric] using W(1) by blast
  then have "unat (need_words \<sigma> ws) =
      (\<Sum>v \<in> {v \<in> queued q. is_waiting (\<sigma> v) \<and> is_notified (notify_all ws \<sigma> v)}. unat (permits_needed (\<sigma> v)))"
    using served_byD(6) [OF sv] W(2) by (simp add: needs_def sum_list_distinct_conv_sum_set)
  moreover have "\<forall>v \<in> queued q. v \<in> queued q' \<or> is_cancelled (\<sigma> v) \<or> is_notified (notify_all ws \<sigma> v)"
    using served_by_gone [OF assms(1) sv] notified by blast
  moreover have "\<forall>v. notify_all ws \<sigma> v \<noteq> \<sigma> v \<longrightarrow>
      v \<in> queued q - queued q' \<and> is_waiting (\<sigma> v) \<and> is_notified (notify_all ws \<sigma> v)"
    unfolding notified [symmetric] using W(1,3) notify_all_other [of _ ws \<sigma>] by blast
  ultimately show "case select_waiters_to_notify m \<sigma> q of None \<Rightarrow> False | Some (wake_list, k, \<sigma>', q') \<Rightarrow>
       wait_queue_inv \<sigma>' q' \<and> wake_list_ok wake_list \<and> unat k \<le> unat m \<and> queued q' \<subseteq> queued q \<and>
       (\<forall>v \<in> queued q. v \<in> queued q' \<or> is_cancelled (\<sigma> v) \<or> is_notified (\<sigma>' v)) \<and>
       (\<forall>v. \<sigma>' v \<noteq> \<sigma> v \<longrightarrow> v \<in> queued q - queued q' \<and> is_waiting (\<sigma> v) \<and> is_notified (\<sigma>' v)) \<and>
       unat k = (\<Sum>v \<in> {v \<in> queued q. is_waiting (\<sigma> v) \<and> is_notified (\<sigma>' v)}. unat (permits_needed (\<sigma> v)))"
    using sel W(4,6) served_byD(4-6) [OF sv] by simp
  obtain \<sigma>' q' ws where close: "close_queue h \<sigma> q = (\<sigma>', q', ws)" by (metis prod_cases3)
  with close_queue_inv [OF close] is_empty_iff [of \<sigma>' q']
  show "case close_queue h \<sigma> q of (\<sigma>', q', ws) \<Rightarrow> wait_queue_inv \<sigma>' q' \<and> queued q' = {} \<and> is_empty q'"
    by simp
qed (use assms(1) in \<open>simp_all add: wait_queue_inv_new remove_waiter_inv is_empty_iff\<close>)

theorem queue_operations_well_formed_witness:
  "queued (remove_waiter (store (csys demo_waiting)) 1 (waiters (csys demo_waiting))) = {0}"
proof -
  have inv: "wait_queue_inv (store (csys demo_waiting)) (waiters (csys demo_waiting))"
    using client_invD(8) [OF reachable_inv [OF demo_waiting_reachable]] .
  have q: "queued (waiters (csys demo_waiting)) = {0, 1}" by code_simp
  then have "2 \<notin> queued (waiters (csys demo_waiting))" by simp
  from queue_operations_well_formed [OF inv this, where w = 1]
  have "queued (remove_waiter (store (csys demo_waiting)) 1 (waiters (csys demo_waiting))) =
      queued (waiters (csys demo_waiting)) - {1}" by blast
  with q show ?thesis by auto
qed

section \<open>Permit objects\<close>

text \<open>C29: splitting keeps the count: it fails without any change exactly when more is asked than
  held, otherwise both parts belong to the same semaphore and add up to the old count, and merging
  them back restores the permit, with nothing left in the other one.\<close>

theorem split_merge_roundtrip:
  "if unat n > unat (p_permits p) then split_permit n p = (None, p)
   else \<exists>q p'. split_permit n p = (Some q, p') \<and> p_sem q = p_sem p \<and> num_permits q = ucast n \<and>
     unat (p_permits q) + unat (p_permits p') = unat (p_permits p) \<and>
     merge chk p' q = Done (p, q\<lparr>p_permits := 0\<rparr>)"
proof (cases "unat n > unat (p_permits p)")
  case True
  then show ?thesis by (simp add: split_permit_def word_less_nat_alt)
next
  case False
  then have le: "n \<le> p_permits p" by (simp add: word_le_nat_alt)
  then have "unat (p_permits p - n) + unat n = unat (p_permits p)"
    by (simp add: unat_sub word_le_nat_alt)
  with False le unat_u32_less [of "p_permits p"] show ?thesis
    by (simp add: split_permit_def merge_def num_permits_def not_less)
qed

text \<open>\<open>merge\<close> with overflow checks either panics, for permits of different semaphores or a sum
  that does not fit 32 bits, or keeps the total count and empties the other permit; the owned
  version is the same function on owned permits.\<close>

theorem merge_keeps_total:
  "(if p_sem p = p_sem q \<and> unat (p_permits p) + unat (p_permits q) < 2 ^ 32
    then \<exists>p' q'. merge True p q = Done (p', q') \<and> p_sem p' = p_sem p \<and> p_permits q' = 0 \<and>
      unat (p_permits p') = unat (p_permits p) + unat (p_permits q)
    else \<exists>msg. merge True p q = Panic msg) \<and>
   merge chk (borrow_permit a) (borrow_permit b) =
     map_outcome (map_prod borrow_permit borrow_permit) (merge_owned chk a b)"
proof (rule conjI)
  show "if p_sem p = p_sem q \<and> unat (p_permits p) + unat (p_permits q) < 2 ^ 32
    then \<exists>p' q'. merge True p q = Done (p', q') \<and> p_sem p' = p_sem p \<and> p_permits q' = 0 \<and>
      unat (p_permits p') = unat (p_permits p) + unat (p_permits q)
    else \<exists>msg. merge True p q = Panic msg"
    by (simp add: merge_def unat_word_ariths not_less)
qed (rule merge_owned_borrow)

section \<open>Owned permits and futures\<close>


end
