(* ===== verification/Edge_Cases.thy ===== *)
theory Edge_Cases
  imports Scenarios
begin

text \<open>
  Behaviour at the edges, where the code does not do what its comments or its documentation say:
  each is a theorem about the code as it is, general where it can be, or a run of the transition
  system that reaches the state in question.
\<close>

section \<open>A release looks at nothing but itself\<close>

text \<open>A sequence of releases.\<close>

fun add_all :: "bool \<Rightarrow> usize list \<Rightarrow> sys \<Rightarrow> sys" where
  "add_all chk [] s = s"
| "add_all chk (n # ns) s = add_all chk ns (snd (add_permits chk n s))"

lemma small_release:
  assumes "wait_queue_inv (store s) (waiters s)" "queued (waiters s) = {w}" "is_waiting (store s w)"
    and "unat n < unat (permits_needed (store s w))" "free s + unat n \<le> max_permits"
  shows "\<exists>s'. add_permits chk n s = (Done (), s') \<and> wait_queue_inv (store s') (waiters s') \<and>
    queued (waiters s') = {w} \<and> store s' = store s \<and> free s' = free s + unat n"
proof -
  obtain ws s' where *: "add_permits chk n s = (Done (), s')" "released s n ws s'"
    using add_permits_released [OF assms(1,5), of chk] by blast
  note D = releasedD [OF *(2)]
  have "w \<notin> set ws"
    using D(7) assms(4) needs_member [of w ws "store s"] by (meson leD le_trans)
  with D(1) assms(2) have ws: "ws = []" by (cases ws) auto
  with released_keeps [OF *(2) assms(1), of w] assms(2,3) have "w \<in> queued (waiters s')" by simp
  with D(4) assms(2) have "queued (waiters s') = {w}" by auto
  with * ws D(6) show ?thesis by (auto simp: released_def serve_simps)
qed

text \<open>C31: a release never looks at the permits that are free already: whoever it serves asked for no
  more than this one release brings. So a task that asks for more than each single release is never
  served, although the permits it waits for pile up in the semaphore: after any sequence of smaller
  releases it still waits, and everything released is free.\<close>

theorem small_releases_starve:
  assumes "wait_queue_inv (store s) (waiters s)" "queued (waiters s) = {w}" "is_waiting (store s w)"
    and "\<forall>n \<in> set ns. unat n < unat (permits_needed (store s w))"
    and "free s + sum_list (map unat ns) \<le> max_permits"
  shows "is_waiting (store (add_all chk ns s) w) \<and> free (add_all chk ns s) = free s + sum_list (map unat ns)"
  using assms
proof (induction ns arbitrary: s)
  case (Cons n ns)
  then obtain s' where "add_permits chk n s = (Done (), s')" "wait_queue_inv (store s') (waiters s')"
    "queued (waiters s') = {w}" "store s' = store s" "free s' = free s + unat n"
    using small_release [of s w n chk] by auto
  with Cons.IH [of s'] Cons.prems show ?case by simp
qed simp

text \<open>Three permits free, one task that asks for two: it waits for ever if permits come one by one.\<close>

definition starved :: client where
  "starved = do_poll True 20 \<lparr>f_sem = 7, f_needed = 2, f_priority = ISize 0, f_handle = None\<rparr>
     (do_acquire (ISize 0) 2 demo_start)"

theorem small_releases_starve_witness:
  "is_waiting (store (add_all False [1, 1] (csys starved)) 0) \<and>
   free (add_all False [1, 1] (csys starved)) = 3"
proof -
  have "(\<lparr>f_sem = 7, f_needed = 2, f_priority = ISize 0, f_handle = None\<rparr>, False)
      \<in># futs (do_acquire (ISize 0) 2 demo_start)" by code_simp
  then have "reachable starved"
    unfolding starved_def by (intro reachable_step demo_start_reachable) simp_all
  from client_invD(8) [OF reachable_inv [OF this]]
  have inv: "wait_queue_inv (store (csys starved)) (waiters (csys starved))" .
  have "queued (waiters (csys starved)) = {0}" "is_waiting (store (csys starved) 0)"
    "free (csys starved) = 1" "permits_needed (store (csys starved) 0) = 2" by code_simp+
  with small_releases_starve [OF inv this(1,2), of "[1, 1]" False] show ?thesis
    by (simp add: max_permits_def)
qed

section \<open>The batch loop\<close>

text \<open>C32: the loop of \<open>add_permits_locked\<close> runs its body at most once, since \<open>wake_all\<close> empties the
  batch before \<open>was_full\<close> is asked: one call wakes at most 32 tasks, however many permits it adds
  and however many tasks could be served.\<close>

theorem one_batch_per_release:
  assumes "wait_queue_inv (store s) (waiters s)" "free s + unat n \<le> max_permits"
  shows "\<exists>s' ws. add_permits chk n s = (Done (), s') \<and> woken s' = woken s @ ws \<and>
    length ws \<le> NUM_WAKERS"
proof -
  obtain ws s' where *: "add_permits chk n s = (Done (), s')" "released s n ws s'"
    using add_permits_released [OF assms, of chk] by blast
  then obtain sl where "served_by (store s) (waiters s) n ws (waiters s') sl"
    by (auto simp: released_def)
  from served_byD(5) [OF this] * show ?thesis by (auto simp: released_def)
qed

theorem one_batch_per_release_witness:
  "\<exists>s' ws. add_permits True 3 (csys demo_waiting) = (Done (), s') \<and>
    woken s' = woken (csys demo_waiting) @ ws \<and> length ws \<le> 32"
proof -
  have "free (csys demo_waiting) = 0" by code_simp
  with one_batch_per_release [OF client_invD(8) [OF reachable_inv [OF demo_waiting_reachable]], of 3 True]
  show ?thesis by (simp add: NUM_WAKERS_def max_permits_def)
qed

text \<open>C33: so a release can leave eligible tasks waiting with their permits lying free: with more
  than 32 parked tasks in the queue and enough permits for all of them, some task still waits after
  the release although the semaphore has the permits it asked for.\<close>

theorem full_batch_leaves_waiters:
  assumes inv: "wait_queue_inv (store s) (waiters s)" and "\<not> is_closed s"
    and parked: "\<forall>w \<in> queued (waiters s). is_waiting (store s w) \<and> waker (store s w) \<noteq> None"
    and many: "NUM_WAKERS < card (queued (waiters s))"
    and enough: "(\<Sum>w \<in> queued (waiters s). unat (permits_needed (store s w))) \<le> unat n"
    and bound: "free s + unat n \<le> max_permits"
  shows "\<exists>s'. add_permits chk n s = (Done (), s') \<and>
    (\<exists>w \<in> queued (waiters s'). is_waiting (store s' w) \<and>
       unat (permits_needed (store s' w)) \<le> free s')"
proof -
  let ?Q = "queued (waiters s)" and ?need = "\<lambda>w. unat (permits_needed (store s w))"
  obtain ws s' where *: "add_permits chk n s = (Done (), s')" "released s n ws s'"
    using add_permits_released [OF inv bound, of chk] by blast
  note D = releasedD [OF *(2)]
  obtain sl where sv: "served_by (store s) (waiters s) n ws (waiters s') sl"
    using *(2) by (auto simp: released_def)
  have "length (wakers_of \<sigma> vs) = length vs" if "\<forall>w \<in> set vs. waker (\<sigma> w) \<noteq> None" for \<sigma> vs
    using that by (induction vs) (auto simp: serve_simps wake_by_ref_under_lock_def)
  then have "length ws \<le> NUM_WAKERS"
    using served_byD(5) [OF sv] parked D(1) by (metis subsetD)
  then have "card (set ws) < card ?Q" using many card_length [of ws] by linarith
  then obtain w where w: "w \<in> ?Q" "w \<notin> set ws"
    using D(1) by (metis order.strict_iff_not psubsetI subsetI)
  have fin: "finite ?Q" by (simp add: queued_def)
  have "needs (store s) ws = sum ?need (set ws)"
    using D(2) by (simp add: needs_def sum_list_distinct_conv_sum_set)
  moreover have "sum ?need (set ws) + ?need w \<le> sum ?need ?Q"
    using sum_mono2 [OF fin, of "insert w (set ws)" ?need] w D(1) by simp
  ultimately have "needs (store s) ws + ?need w \<le> unat n" using enough by simp
  moreover have "free s' + needs (store s) ws = free s + unat n"
    using *(2) assms(2) by (auto simp: released_def)
  moreover have "store s' w = store s w" using *(2) w(2) by (simp add: released_def)
  moreover have "w \<in> queued (waiters s')" using released_keeps [OF *(2) inv w] parked w(1) by blast
  ultimately show ?thesis using * parked w(1) by (intro exI [of _ s'] conjI bexI [of _ w]) auto
qed

fun many_waiting :: "nat \<Rightarrow> client" where
  "many_waiting 0 = do_try_acquire_many 1 demo_start"
| "many_waiting (Suc k) = do_poll True (100 + k) (demo_future (ISize 0) None)
     (do_acquire (ISize 0) 1 (many_waiting k))"

lemma many_waiting_state:
  "reachable (many_waiting k) \<and> sem_addr (csys (many_waiting k)) = 7 \<and>
   free (csys (many_waiting k)) = 0 \<and> \<not> is_closed (csys (many_waiting k)) \<and>
   next_wid (csys (many_waiting k)) = k \<and> queued (waiters (csys (many_waiting k))) = {..<k} \<and>
   (\<forall>w < k. is_waiting (store (csys (many_waiting k)) w) \<and>
      waker (store (csys (many_waiting k)) w) \<noteq> None \<and>
      permits_needed (store (csys (many_waiting k)) w) = 1)"
proof (induction k)
  case 0
  have "reachable (many_waiting 0)" by (simp, intro reachable_step demo_start_reachable) simp
  moreover have "sem_addr (csys (many_waiting 0)) = 7" "free (csys (many_waiting 0)) = 0"
    "\<not> is_closed (csys (many_waiting 0))" "next_wid (csys (many_waiting 0)) = 0"
    "queued (waiters (csys (many_waiting 0))) = {}" by code_simp+
  ultimately show ?case by simp
next
  case (Suc k)
  let ?c = "many_waiting k" and ?f = "demo_future (ISize 0) None"
  let ?c1 = "do_acquire (ISize 0) 1 ?c" and ?s = "csys (many_waiting k)"
  let ?s' = "?s\<lparr>store := (store ?s)(k := set_waker (waiter_new 1 (ISize 0)) (100 + k)),
    next_wid := k + 1, waiters := insert_waiter_optimized (waiters ?s) k (ISize 0)\<rparr>"
  have c1: "csys ?c1 = ?s" "(?f, False) \<in># futs ?c1"
    using Suc.IH by (simp_all add: do_acquire_def acquire_many_with_priority_def demo_future_def)
  have "poll True (100 + k) ?f ?s = (Pending, ?f\<lparr>f_handle := Some k\<rparr>, ?s')"
    using Suc.IH fits_free [of 1 ?s] by (simp add: poll_eq demo_future_def)
  then have s': "csys (many_waiting (Suc k)) = ?s'" using c1 by (simp add: do_poll_def)
  have "reachable ?c1" using Suc.IH by (intro reachable_step) simp
  then have reach: "reachable (many_waiting (Suc k))" using reachable_step(2) [OF _ c1(2)] by simp
  have "wait_queue_inv (store ?s) (waiters ?s)"
    using client_invD(8) [OF reachable_inv] Suc.IH by blast
  from queued_insert [OF this] Suc.IH reach show ?case
    unfolding s' by (auto simp: available_permits_def is_closed_def waiter_tests less_Suc_eq)
qed

theorem full_batch_leaves_waiters_witness:
  "\<exists>s'. add_permits True 33 (csys (many_waiting 33)) = (Done (), s') \<and>
    (\<exists>w \<in> queued (waiters s'). is_waiting (store s' w) \<and> unat (permits_needed (store s' w)) \<le> free s')"
proof (rule full_batch_leaves_waiters)
  note S = many_waiting_state [of 33]
  show "wait_queue_inv (store (csys (many_waiting 33))) (waiters (csys (many_waiting 33)))"
    using client_invD(8) [OF reachable_inv] S by blast
  have q: "queued (waiters (csys (many_waiting 33))) = {..<33}" using S by blast
  have "(\<Sum>w<33. unat (permits_needed (store (csys (many_waiting 33)) w))) = (\<Sum>w<(33::nat). 1)"
    using S by (intro sum.cong) auto
  then show "(\<Sum>w\<in>queued (waiters (csys (many_waiting 33))).
      unat (permits_needed (store (csys (many_waiting 33)) w))) \<le> unat (33 :: usize)"
    by (simp add: q)
  show "NUM_WAKERS < card (queued (waiters (csys (many_waiting 33))))" by (simp add: q NUM_WAKERS_def)
qed (use many_waiting_state [of 33] in \<open>auto simp: max_permits_def\<close>)

section \<open>Permits lost with a future\<close>

text \<open>C34: a future that was notified but is dropped before it is polled again takes its permits
  with it: they are neither free nor held nor reserved for anybody afterwards, in any reachable state.\<close>

theorem dropped_notified_future_leaks:
  assumes "reachable c" "(f, False) \<in># futs c" "f_handle f = Some w" "is_notified (store (csys c) w)"
  shows "step c (do_drop_future f c) \<and> free (csys (do_drop_future f c)) = free (csys c) \<and>
    held (do_drop_future f c) = held c \<and>
    reserved (store (csys (do_drop_future f c))) (futs (do_drop_future f c)) + unat (f_needed f) =
      reserved (store (csys c)) (futs c) \<and>
    retired (do_drop_future f c) = retired c + unat (f_needed f)"
proof -
  let ?c = "do_drop_future f c"
  have st: "step c ?c" using assms(2) by (rule do_step(3))
  have "reserved_by (store (csys c)) (f, False) = unat (f_needed f)"
    using assms(3,4) by (simp add: task_sums)
  then have ret: "retired ?c = retired c + unat (f_needed f)" by (simp add: do_drop_future_def)
  moreover have fr: "free (csys ?c) = free (csys c)"
    by (simp add: do_drop_future_def drop_future_eq available_permits_def split: option.split)
  moreover have "held ?c = held c" "issued ?c = issued c" by (simp_all add: do_drop_future_def)
  moreover have "balance c = issued c" "balance ?c = issued ?c"
    using assms(1) st reachable.move client_invD(6) [OF reachable_inv] by blast+
  ultimately show ?thesis using st by (simp add: balance_def)
qed

theorem dropped_notified_future_leaks_witness:
  "retired (do_drop_future (demo_future (ISize 5) (Some 1)) demo_served) = 1 \<and> issued demo_served = 1"
proof -
  have "(demo_future (ISize 5) (Some 1), False) \<in># futs demo_served"
    "is_notified (store (csys demo_served) 1)" "retired demo_served = 0" "issued demo_served = 1"
    by code_simp+
  with dropped_notified_future_leaks [OF demo_served_reachable this(1) _ this(2)] show ?thesis
    by (simp add: demo_future_def)
qed

section \<open>Lost wake-ups\<close>

text \<open>C35: permits released after \<open>close\<close> has set the flag but before it takes the lock: the
  waiters served by that release leave the queue notified, without a waker, and nobody is woken; the
  rest of \<open>close\<close> does not wake them either, although the comment in \<open>add_permits_locked\<close> says so.
  Their tasks are never told.\<close>

theorem release_during_close_wakes_nobody:
  assumes inv: "wait_queue_inv (store s) (waiters s)" and h: "hash_order_ok h"
    and bound: "free s + unat n \<le> max_permits"
    and add: "add_permits chk n (close_flag s) = (Done (), s1)"
    and served: "w \<in> queued (waiters s)" "is_waiting (store s w)" "w \<notin> queued (waiters s1)"
  shows "woken s1 = woken s \<and> is_notified (store (close_waiters h s1) w) \<and>
    waker (store (close_waiters h s1) w) = None \<and>
    (\<exists>vs. set vs \<subseteq> queued (waiters s) - {w} \<and>
      woken (close_waiters h s1) = woken s @ wakers_of (store s) vs)"
proof -
  let ?s = "close_flag s"
  have same: "store ?s = store s" "waiters ?s = waiters s" "woken ?s = woken s"
    by (simp_all add: close_flag_def)
  obtain ws where rel: "released ?s n ws s1"
    using add_permits_released [of ?s n chk] inv bound add close_flag_word(1) [of s] same by auto
  note D = releasedD [OF rel]
  have w: "w \<in> set ws" using released_keeps [OF rel, of w] inv served same by auto
  have st: "store s1 = notify_all ws (store s)" and wk: "woken s1 = woken s"
    using rel close_flag_word(2) [of s] same by (auto simp: released_def)
  obtain us where us: "set us = queued (waiters s1)" and c: "close_waiters h s1 = s1\<lparr>
      store := (\<lambda>w. if w \<in> queued (waiters s1) then fst (cancel (store s1 w)) else store s1 w),
      waiters := (waiters s1)\<lparr>closed := True, priority_queues := [], active_priorities := [],
        total_waiters := 0\<rparr>,
      woken := woken s1 @ concat (map (\<lambda>w. snd (cancel (store s1 w))) us)\<rparr>"
    using close_waiters_eq [OF D(6) h] by blast
  let ?vs = "filter (\<lambda>v. is_waiting (store s1 v)) us"
  have "woken (close_waiters h s1) = woken s @ wakers_of (store s1) ?vs"
    using cancelled_wakers [of us "store s1"] queued_waits [OF D(6)] us wk by (simp add: c)
  moreover have "wakers_of (store s1) ?vs = wakers_of (store s) ?vs"
    unfolding st using D(3) us by (intro wakers_of_notify_other) auto
  moreover have "set ?vs \<subseteq> queued (waiters s) - {w}" using D(4) us served(3) same by auto
  ultimately have "\<exists>vs. set vs \<subseteq> queued (waiters s) - {w} \<and>
      woken (close_waiters h s1) = woken s @ wakers_of (store s) vs"
    by (intro exI [of _ ?vs]) simp
  moreover have "store (close_waiters h s1) w = (store s w)\<lparr>state := NOTIFIED, waker := None\<rparr>"
    using w served(3) by (simp add: c st)
  ultimately show ?thesis using wk by (simp add: is_notified_def)
qed

text \<open>A single waiting task, closed while a permit is released: no task is ever woken.\<close>

definition closing :: sys where
  "closing = close_waiters id (snd (add_permits True 1 (close_flag (csys demo_waiting))))"

theorem release_during_close_wakes_nobody_witness:
  "is_notified (store closing 1) \<and> waker (store closing 1) = None \<and> 21 \<notin> set (woken closing)"
proof -
  let ?s = "csys demo_waiting" and ?s1 = "snd (add_permits True 1 (close_flag (csys demo_waiting)))"
  have facts: "free ?s = 0" "1 \<in> queued (waiters ?s)" "is_waiting (store ?s 1)"
    "1 \<notin> queued (waiters ?s1)" "woken ?s = []" "queued (waiters ?s) = {0, 1}"
    "waker (store ?s 0) = Some 20" by code_simp+
  have inv: "wait_queue_inv (store ?s) (waiters ?s)"
    using client_invD(8) [OF reachable_inv [OF demo_waiting_reachable]] .
  have add: "add_permits True 1 (close_flag ?s) = (Done (), ?s1)"
    using add_permits_released [of "close_flag ?s" 1 True] inv facts(1) close_flag_word(1) [of ?s]
    by (auto simp: close_flag_def max_permits_def)
  have "free ?s + unat (1 :: usize) \<le> max_permits" using facts(1) by (simp add: max_permits_def)
  from release_during_close_wakes_nobody [OF inv _ this add facts(2-4), of id]
  obtain vs where vs: "is_notified (store closing 1)" "waker (store closing 1) = None"
    "set vs \<subseteq> queued (waiters ?s) - {1}" "woken closing = woken ?s @ wakers_of (store ?s) vs"
    by (auto simp: closing_def hash_order_ok_def)
  have "set vs \<subseteq> {0}" using vs(3) facts(6) by auto
  then have "set (wakers_of (store ?s) vs) \<subseteq> {20}"
    using facts(7) by (induction vs) (auto simp: serve_simps wake_by_ref_under_lock_def)
  with vs facts(5) show ?thesis by auto
qed

text \<open>C36: a request for zero permits that had to queue is notified but never woken: if all a release
  serves asked for nothing, no permit is assigned, and the batch with their wakers is dropped.\<close>

theorem zero_request_never_woken:
  assumes "wait_queue_inv (store s) (waiters s)" "free s + unat n \<le> max_permits"
    and "\<forall>w \<in> queued (waiters s). is_waiting (store s w) \<longrightarrow> permits_needed (store s w) = 0"
  shows "\<exists>s'. add_permits chk n s = (Done (), s') \<and> woken s' = woken s \<and>
    (\<forall>w \<in> queued (waiters s) - queued (waiters s'). is_waiting (store s w) \<longrightarrow>
      is_notified (store s' w) \<and> waker (store s' w) = None)"
proof -
  obtain ws s' where *: "add_permits chk n s = (Done (), s')" "released s n ws s'"
    using add_permits_released [OF assms(1,2), of chk] by blast
  note D = releasedD [OF *(2)]
  have "need_words (store s) ws = 0"
    using D(1,5) assms(3) by (induction ws) (auto simp: serve_simps)
  then have "woken s' = woken s" using *(2) by (simp add: released_def)
  moreover have "is_notified (store s' w) \<and> waker (store s' w) = None"
    if "w \<in> queued (waiters s) - queued (waiters s')" "is_waiting (store s w)" for w
  proof -
    have "w \<in> set ws" using released_keeps [OF *(2) assms(1)] that by blast
    then show ?thesis using *(2) by (simp add: released_def waiter_tests)
  qed
  ultimately show ?thesis using *(1) by blast
qed

definition zero_waiting :: client where
  "zero_waiting = do_poll False 20 \<lparr>f_sem = 7, f_needed = 0, f_priority = ISize 0, f_handle = None\<rparr>
     (do_acquire (ISize 0) 0 demo_start)"

lemma zero_waiting_reachable: "reachable zero_waiting"
proof -
  have "(\<lparr>f_sem = 7, f_needed = 0, f_priority = ISize 0, f_handle = None\<rparr>, False)
      \<in># futs (do_acquire (ISize 0) 0 demo_start)" by code_simp
  then show ?thesis unfolding zero_waiting_def by (intro reachable_step demo_start_reachable)
qed

theorem zero_request_never_woken_witness:
  "\<exists>s'. add_permits True 1 (csys zero_waiting) = (Done (), s') \<and> woken s' = []"
proof -
  have "free (csys zero_waiting) = 1" "woken (csys zero_waiting) = []"
    "\<forall>w \<in> queued (waiters (csys zero_waiting)). permits_needed (store (csys zero_waiting) w) = 0"
    by code_simp+
  with zero_request_never_woken [OF client_invD(8) [OF reachable_inv [OF zero_waiting_reachable]], of 1 True]
  show ?thesis by (auto simp: max_permits_def)
qed

section \<open>Waiting without need\<close>

text \<open>C37: the fast path of a poll makes one weak exchange, which may fail for no reason, and then
  queues the task without looking at the permits again. The task waits although its permits are
  free, and polling it again, any number of times, does not help: it stays pending until
  somebody else releases enough permits at once.\<close>

theorem spurious_failure_parks_task:
  assumes "f_handle f = None" "\<not> is_closed s" "poll False k f s = (r, f', s')"
  shows "r = Pending \<and> permits s' = permits s \<and> is_waiting (store s' (next_wid s)) \<and>
    (\<forall>cas_ok k'. case poll cas_ok k' f' s' of (r', f'', s'') \<Rightarrow>
       r' = Pending \<and> f'' = f' \<and> permits s'' = permits s \<and> is_waiting (store s'' (next_wid s)))"
proof -
  have eqs: "r = Pending" "f' = f\<lparr>f_handle := Some (next_wid s)\<rparr>"
    and s': "s' = s\<lparr>store := (store s)(next_wid s := set_waker (waiter_new (f_needed f) (f_priority f)) k),
      next_wid := next_wid s + 1,
      waiters := insert_waiter_optimized (waiters s) (next_wid s) (f_priority f)\<rparr>"
    using assms by (auto simp: poll_eq)
  have w: "is_waiting (store s' (next_wid s))" "\<not> is_cancelled (store s' (next_wid s))"
    "\<not> is_notified (store s' (next_wid s))"
    by (simp_all add: s' waiter_tests)
  have "poll cas_ok k' f' s' = (Pending, f', s'\<lparr>store := (store s')(next_wid s :=
      set_waker (store s' (next_wid s)) k')\<rparr>)" for cas_ok k'
    using w by (simp add: poll_eq eqs(2))
  with w eqs(1) show ?thesis by (simp add: s' waiter_tests)
qed

theorem spurious_failure_parks_task_witness:
  "fst (poll False 9 (demo_future (ISize 0) None) (csys demo_start)) = Pending \<and> free (csys demo_start) = 1"
proof -
  have "\<not> is_closed (csys demo_start)" and free: "free (csys demo_start) = 1" by code_simp+
  moreover have "f_handle (demo_future (ISize 0) None) = None" by (simp add: demo_future_def)
  ultimately show ?thesis
    using spurious_failure_parks_task [of "demo_future (ISize 0) None" "csys demo_start" 9]
    by (metis prod.collapse)
qed

text \<open>C38: with several priorities active, the test that the request of the highest priority's first
  waiter fits comes before any test whether that waiter is cancelled: a cancelled waiter with a large
  request blocks every waiter of every priority, and nothing is cleaned up.\<close>

theorem cancelled_head_blocks:
  assumes "total_waiters q \<noteq> 0" "length (active_priorities q) \<noteq> 1"
    and "heap_peek (active_priorities q) = Some p" "map_of (priority_queues q) p = Some (w # rest)"
    and "permits_needed (\<sigma> w) > a"
  shows "\<exists>wl. select_waiters_to_notify a \<sigma> q = Some (wl, 0, \<sigma>, q) \<and> wake_list_is_empty wl"
proof (cases "a = 0")
  case True
  then show ?thesis by (simp add: select_waiters_to_notify_def wake_list_new_of)
next
  case False
  then have "process_priorities (priority_queues q) (active_priorities q) [] (sel_init a \<sigma> q) =
      Some (priority_queues q, active_priorities q, [], sel_init a \<sigma> q)"
    using assms(3-5) by (subst process_priorities.simps) (simp add: NUM_WAKERS_def)
  then have "process_multiple_priorities_optimized q (sel_init a \<sigma> q) = Some (q, sel_init a \<sigma> q)"
    by (simp add: process_multiple_priorities_optimized_def)
  with False assms(1,2) have "select_waiters_to_notify a \<sigma> q = Some (wake_list_new, 0, \<sigma>, q)"
    by (simp add: select_waiters_to_notify_def sel_init_def)
  then show ?thesis by (simp add: wake_list_new_of)
qed

text \<open>A task of priority 5 asks for three permits and gives up; a task of priority 0 wants one; one
  permit is released: it goes back to the word, and the second task keeps waiting.\<close>

definition large_future :: "wid option \<Rightarrow> acquire_future" where
  "large_future h = \<lparr>f_sem = 7, f_needed = 3, f_priority = ISize 5, f_handle = h\<rparr>"

definition blocked :: client where
  "blocked = do_drop_future (large_future (Some 0))
     (do_poll True 21 (demo_future (ISize 0) None) (do_acquire (ISize 0) 1
       (do_poll True 20 (large_future None) (do_acquire (ISize 5) 3
         (do_try_acquire_many 1 demo_start)))))"

theorem cancelled_head_blocks_witness:
  "is_cancelled (store (csys blocked) 0) \<and> is_waiting (store (csys blocked) 1) \<and>
   permits_needed (store (csys blocked) 1) = 1 \<and>
   (\<exists>wl. select_waiters_to_notify 1 (store (csys blocked)) (waiters (csys blocked)) =
      Some (wl, 0, store (csys blocked), waiters (csys blocked)) \<and> wake_list_is_empty wl)"
proof -
  have "is_cancelled (store (csys blocked) 0)" "is_waiting (store (csys blocked) 1)"
    "permits_needed (store (csys blocked) 1) = 1" by code_simp+
  moreover have "total_waiters (waiters (csys blocked)) \<noteq> 0"
    "length (active_priorities (waiters (csys blocked))) \<noteq> 1"
    "heap_peek (active_priorities (waiters (csys blocked))) = Some (ISize 5)"
    "map_of (priority_queues (waiters (csys blocked))) (ISize 5) = Some [0]"
    "permits_needed (store (csys blocked) 0) > 1"
    by code_simp+
  ultimately show ?thesis using cancelled_head_blocks by blast
qed

section \<open>Arithmetic overflow\<close>

text \<open>C39: adding permits beyond \<open>MAX_PERMITS\<close> to a semaphore nobody waits for panics in a build with
  overflow checks, but only after the permit word has been increased.\<close>

theorem overflow_panics_late:
  assumes "is_empty (waiters s)" "free s \<le> max_permits" "max_permits < free s + unat n"
  shows "\<exists>msg. add_permits True n s = (Panic msg, s\<lparr>permits := permits s + push_bit PERMIT_SHIFT n\<rparr>)"
proof -
  let ?prev = "drop_bit PERMIT_SHIFT (permits s)"
  have n: "n \<noteq> 0" using assms(2,3) by auto
  then have "add_permits_loop n s = Some (Some n, s)"
    using assms(1) by (simp add: add_permits_loop.simps [of n s])
  moreover have "?prev + n > MAX_PERMITS" if "\<not> unat ?prev + unat n \<ge> 2 ^ 64"
    using that assms(3) by (simp add: word_less_nat_alt unat_MAX_PERMITS unat_add_lt available_permits_def)
  ultimately show ?thesis
    using n by (simp add: add_permits_def add_permits_locked_def word_gt_0 Let_def)
qed

theorem overflow_panics_late_witness:
  "\<exists>msg s'. add_permits True (2 ^ 61 - 1) (csys demo_start) = (Panic msg, s') \<and>
     max_permits < free s'"
proof -
  let ?s = "csys demo_start" and ?n = "2 ^ 61 - 1 :: usize"
  have "free ?s = 1" "is_empty (waiters ?s)" "permits ?s = 2" by code_simp+
  moreover from this overflow_panics_late [of ?s ?n]
  obtain msg where "add_permits True ?n ?s = (Panic msg, ?s\<lparr>permits := permits ?s + push_bit PERMIT_SHIFT ?n\<rparr>)"
    by (auto simp: max_permits_def)
  moreover have "free (?s\<lparr>permits := 2 + push_bit PERMIT_SHIFT ?n\<rparr>) = 2 ^ 61"
    by (simp add: free_eq PERMIT_SHIFT_def)
  ultimately show ?thesis by (auto simp: max_permits_def)
qed

text \<open>In a build without overflow checks the sum wraps before it is compared: adding
  \<open>usize::MAX\<close> permits to an open semaphore with permits and no waiters returns normally and takes
  one permit away.\<close>

theorem overflow_wraps_in_release:
  assumes "is_empty (waiters s)" "free s \<le> max_permits" "0 < free s"
  shows "\<exists>s'. add_permits False (- 1) s = (Done (), s') \<and> free s' + 1 = free s \<and>
    is_closed s' = is_closed s"
proof -
  let ?s' = "s\<lparr>permits := permits s - push_bit PERMIT_SHIFT 1\<rparr>"
  have "add_permits_loop (- 1) s = Some (Some (- 1), s)"
    using assms(1) by (simp add: add_permits_loop.simps [of "- 1" s])
  moreover have "push_bit PERMIT_SHIFT (- 1 :: usize) = - push_bit PERMIT_SHIFT 1"
    by (simp add: PERMIT_SHIFT_def)
  moreover have "\<not> available_permits s + - 1 > MAX_PERMITS"
  proof -
    have "1 \<le> available_permits s" using assms(3) by (simp add: word_le_nat_alt Suc_le_eq)
    then have "unat (available_permits s + - 1) = free s - 1" by (simp add: unat_sub)
    with assms(2) show ?thesis by (simp add: word_less_nat_alt unat_MAX_PERMITS)
  qed
  ultimately have "add_permits False (- 1) s = (Done (), ?s')"
    by (simp add: add_permits_def add_permits_locked_def available_permits_def word_gt_0 Let_def)
  moreover have "free ?s' + unat (1 :: usize) = free s" "is_closed ?s' = is_closed s"
    using free_taken [of 1 s] fits_free [of 1 s] assms(3) by simp_all
  ultimately show ?thesis by auto
qed

theorem overflow_wraps_in_release_witness:
  "\<exists>s'. add_permits False (- 1) (csys demo_start) = (Done (), s') \<and> free s' = 0"
proof -
  have "free (csys demo_start) = 1" "is_empty (waiters (csys demo_start))" by code_simp+
  with overflow_wraps_in_release [of "csys demo_start"] show ?thesis by (auto simp: max_permits_def)
qed

text \<open>Merging two permits whose counts do not add up within 32 bits panics with overflow checks; without
  them it returns normally and \<open>2 ^ 32\<close> permits are gone: they are in neither permit any more.\<close>

theorem merge_wraps_in_release:
  assumes "p_sem p = p_sem q" "2 ^ 32 \<le> unat (p_permits p) + unat (p_permits q)"
  shows "(\<exists>msg. merge True p q = Panic msg) \<and>
    (\<exists>p'. merge False p q = Done (p', q\<lparr>p_permits := 0\<rparr>) \<and>
      unat (p_permits p') + 2 ^ 32 = unat (p_permits p) + unat (p_permits q))"
proof
  show "\<exists>msg. merge True p q = Panic msg" using assms by (simp add: merge_def)
  let ?p' = "p\<lparr>p_permits := p_permits p + p_permits q\<rparr>"
  have "merge False p q = Done (?p', q\<lparr>p_permits := 0\<rparr>)" using assms(1) by (simp add: merge_def)
  moreover have "unat (p_permits ?p') + 2 ^ 32 = unat (p_permits p) + unat (p_permits q)"
  proof -
    have "unat (p_permits p) + unat (p_permits q) - 2 ^ 32 < 2 ^ 32"
      using unat_u32_less [of "p_permits p"] unat_u32_less [of "p_permits q"] by linarith
    then show ?thesis using assms(2) by (simp add: unat_word_ariths le_mod_geq)
  qed
  ultimately show "\<exists>p'. merge False p q = Done (p', q\<lparr>p_permits := 0\<rparr>) \<and>
      unat (p_permits p') + 2 ^ 32 = unat (p_permits p) + unat (p_permits q)" by blast
qed

end
