(* ===== verification/Picking.thy ===== *)
theory Picking
  imports Wait_Queue
begin

text \<open>
  \<open>select_waiters_to_notify\<close> (\<open>wait_queue/queue.rs\<close>) in the atomic steps it takes on the shared states
  of the waiters: the look whether a waiter is cancelled, its notification, the taking of its waker.
  The queue itself is behind the mutex, but the futures that share the waiters are not: one may be
  dropped, look at its waiter or store its waker between any two of these steps. The last section
  shows that the steps, run without interference, are the functions of theory \<open>Wait_Queue\<close>.
\<close>

section \<open>A selection under way\<close>

text \<open>
  Where it stands: before the next priority (\<open>Outer\<close>), before the next waiter of a queue
  (\<open>Front\<close>), about to exchange the state of the waiter it has accepted (\<open>Notify\<close>), about to
  take the waker of the waiter it has notified (\<open>Take\<close>), within \<open>retain\<close> (\<open>Sweep kept todo\<close>), and
  finished (\<open>Picked\<close>). What it does to locals and to the queue behind the mutex is part of the step
  next to it.
\<close>

datatype point =
    Outer
  | Front
  | Notify wid
  | Take wid
  | Sweep "wid list" "wid list"
  | Picked

text \<open>
  \<open>pk_queue\<close> is the queue being worked on, which the fast path takes out of the map and the general
  case borrows from it; the model writes it back when the loop over it ends.
\<close>

record picking =
  pk_at :: point
  pk_self :: wait_queue
  pk_single :: bool
  pk_priority :: isize
  pk_queue :: "wid list"
  pk_any :: bool
  pk_restore :: "isize list"
  pk_wakes :: wake_list
  pk_avail :: usize
  pk_assigned :: usize

definition pick_start :: "usize \<Rightarrow> wait_queue \<Rightarrow> picking" where
  "pick_start available_permits q =
     (let pk = \<lparr>pk_at = Picked, pk_self = q, pk_single = False, pk_priority = ISize 0, pk_queue = [],
                pk_any = False, pk_restore = [], pk_wakes = wake_list_new, pk_avail = available_permits,
                pk_assigned = 0\<rparr>
      in if available_permits = 0 \<or> total_waiters q = 0 then pk
         else if length (active_priorities q) = 1 then
           (case heap_peek (active_priorities q) of
              None \<Rightarrow> pk
            | Some p \<Rightarrow>
                let active = heap_pop (active_priorities q)
                in case map_of (priority_queues q) p of
                     None \<Rightarrow> pk\<lparr>pk_self := q\<lparr>active_priorities := active\<rparr>\<rparr>
                   | Some queue \<Rightarrow>
                       pk\<lparr>pk_at := Front, pk_single := True, pk_priority := p, pk_queue := queue,
                          pk_self := q\<lparr>priority_queues := AList.delete p (priority_queues q),
                                       active_priorities := active\<rparr>\<rparr>)
         else pk\<lparr>pk_at := Outer\<rparr>)"

section \<open>Its steps\<close>

text \<open>The end of the general case: restore the priorities that stay active.\<close>

definition pick_finish :: "picking \<Rightarrow> picking" where
  "pick_finish pk =
     pk\<lparr>pk_at := Picked,
        pk_self := (pk_self pk)\<lparr>active_priorities := fold (#) (pk_restore pk) (active_priorities (pk_self pk))\<rparr>\<rparr>"

text \<open>The loop over priorities, up to the loop over the queue of the next one.\<close>

definition pick_outer :: "picking \<Rightarrow> store \<Rightarrow> picking option" where
  "pick_outer pk \<sigma> =
     (let self = pk_self pk
      in case heap_peek (active_priorities self) of
           None \<Rightarrow> Some (pick_finish pk)
         | Some p \<Rightarrow>
             if pk_avail pk = 0 \<or> \<not> can_push (pk_wakes pk) then Some (pick_finish pk)
             else if \<not> has_non_empty_queue (priority_queues self) p
             then Some (pk\<lparr>pk_self := self\<lparr>active_priorities := heap_pop (active_priorities self)\<rparr>\<rparr>)
             else (case map_of (priority_queues self) p of
                     None \<Rightarrow> None
                   | Some [] \<Rightarrow> None
                   | Some (first # rest) \<Rightarrow>
                       if permits_needed (\<sigma> first) > pk_avail pk then Some (pick_finish pk)
                       else Some (pk\<lparr>pk_at := Front, pk_priority := p, pk_queue := first # rest, pk_any := False,
                              pk_self := self\<lparr>active_priorities := heap_pop (active_priorities self)\<rparr>\<rparr>)))"

text \<open>The end of the loop over a queue: the fast path puts the rest back, the general case sweeps it.\<close>

definition pick_leave :: "picking \<Rightarrow> picking" where
  "pick_leave pk =
     (if pk_single pk then
        if pk_queue pk \<noteq> [] then
          pk\<lparr>pk_at := Picked,
             pk_self := (pk_self pk)\<lparr>
               priority_queues := AList.update (pk_priority pk) (pk_queue pk) (priority_queues (pk_self pk)),
               active_priorities := pk_priority pk # active_priorities (pk_self pk)\<rparr>\<rparr>
        else pk\<lparr>pk_at := Picked\<rparr>
      else pk\<lparr>pk_at := Sweep [] (pk_queue pk)\<rparr>)"

text \<open>A waiter leaves the queue: \<open>pop_front\<close>, and \<open>total_waiters -= 1\<close>, which must not underflow.\<close>

definition pick_pop :: "picking \<Rightarrow> picking option" where
  "pick_pop pk =
     (if total_waiters (pk_self pk) = 0 then None
      else Some (pk\<lparr>pk_queue := tl (pk_queue pk),
             pk_self := (pk_self pk)\<lparr>total_waiters := total_waiters (pk_self pk) - 1\<rparr>\<rparr>))"

definition pick_front :: "picking \<Rightarrow> store \<Rightarrow> picking option" where
  "pick_front pk \<sigma> =
     (case pk_queue pk of
        [] \<Rightarrow> Some (pick_leave pk)
      | w # _ \<Rightarrow>
          if \<not> can_push (pk_wakes pk) \<or> pk_avail pk = 0 then Some (pick_leave pk)
          else if pk_single pk then
            if is_cancelled (\<sigma> w) then pick_pop pk
            else if permits_needed (\<sigma> w) > pk_avail pk then Some (pick_leave pk)
            else Some (pk\<lparr>pk_at := Notify w\<rparr>)
          else
            if permits_needed (\<sigma> w) > pk_avail pk then Some (pick_leave pk)
            else if is_cancelled (\<sigma> w) then pick_pop pk
            else Some (pk\<lparr>pk_at := Notify w\<rparr>))"

definition pick_notify :: "wid \<Rightarrow> picking \<Rightarrow> store \<Rightarrow> (picking \<times> store) option" where
  "pick_notify w pk \<sigma> =
     (case pick_pop pk of
        None \<Rightarrow> None
      | Some pk' \<Rightarrow>
          let n = permits_needed (\<sigma> w); (ws, ok) = try_notify (\<sigma> w)
          in Some (pk'\<lparr>pk_at := (if ok then Take w else Front), pk_any := pk_any pk \<or> \<not> pk_single pk,
                       pk_avail := pk_avail pk - n, pk_assigned := pk_assigned pk + n\<rparr>, \<sigma>(w := ws)))"

definition pick_take :: "wid \<Rightarrow> picking \<Rightarrow> store \<Rightarrow> (picking \<times> store) option" where
  "pick_take w pk \<sigma> =
     (let (wk, ws) = take_waker_under_lock (\<sigma> w); \<sigma>' = \<sigma>(w := ws); l = pk_wakes pk
      in case wk of
           None \<Rightarrow> Some (pk\<lparr>pk_at := Front\<rparr>, \<sigma>')
         | Some k \<Rightarrow> map_option (\<lambda>l'. (pk\<lparr>pk_at := Front, pk_wakes := l'\<rparr>, \<sigma>'))
             (if can_push l then push_unchecked l k else push l k))"

text \<open>The end of the sweep, which is the end of one priority.\<close>

definition pick_swept :: "wid list \<Rightarrow> picking \<Rightarrow> picking" where
  "pick_swept kept pk =
     (let self = pk_self pk;
          cancelled_count = length (pk_queue pk) - length kept;
          total = (if total_waiters self \<ge> cancelled_count then total_waiters self - cancelled_count
                   else total_waiters self);
          pk' = pk\<lparr>pk_at := Outer, pk_queue := [],
                   pk_self := self\<lparr>priority_queues := AList.update (pk_priority pk) kept (priority_queues self),
                                   total_waiters := total\<rparr>,
                   pk_restore := (if kept \<noteq> [] then pk_restore pk @ [pk_priority pk] else pk_restore pk)\<rparr>
      in if pk_any pk \<and> \<not> can_push (pk_wakes pk) then pick_finish pk' else pk')"

definition pick_step :: "picking \<Rightarrow> store \<Rightarrow> (picking \<times> store) option" where
  "pick_step pk \<sigma> =
     (case pk_at pk of
        Outer \<Rightarrow> map_option (\<lambda>pk'. (pk', \<sigma>)) (pick_outer pk \<sigma>)
      | Front \<Rightarrow> map_option (\<lambda>pk'. (pk', \<sigma>)) (pick_front pk \<sigma>)
      | Notify w \<Rightarrow> pick_notify w pk \<sigma>
      | Take w \<Rightarrow> pick_take w pk \<sigma>
      | Sweep kept [] \<Rightarrow> Some (pick_swept kept pk, \<sigma>)
      | Sweep kept (w # todo) \<Rightarrow>
          Some (pk\<lparr>pk_at := Sweep (if is_cancelled (\<sigma> w) then kept else kept @ [w]) todo\<rparr>, \<sigma>)
      | Picked \<Rightarrow> None)"

section \<open>Without interference\<close>

definition pick_next :: "picking \<times> store \<Rightarrow> picking \<times> store \<Rightarrow> bool" where
  "pick_next x y \<longleftrightarrow> pick_step (fst x) (snd x) = Some y"

text \<open>The locals of a selection as theory \<open>Wait_Queue\<close> has them, and back.\<close>

definition sel_of :: "picking \<Rightarrow> store \<Rightarrow> selection" where
  "sel_of pk \<sigma> =
     \<lparr>sel_store = \<sigma>, sel_wakes = pk_wakes pk, sel_avail = pk_avail pk, sel_assigned = pk_assigned pk,
      sel_total = total_waiters (pk_self pk)\<rparr>"

definition load :: "wid list \<Rightarrow> selection \<Rightarrow> picking \<Rightarrow> picking" where
  "load q s pk = pk\<lparr>pk_at := Front, pk_queue := q, pk_wakes := sel_wakes s, pk_avail := sel_avail s,
     pk_assigned := sel_assigned s, pk_self := (pk_self pk)\<lparr>total_waiters := sel_total s\<rparr>\<rparr>"

lemma sel_of_sel [simp]:
  "sel_store (sel_of pk \<sigma>) = \<sigma>" "sel_wakes (sel_of pk \<sigma>) = pk_wakes pk" "sel_avail (sel_of pk \<sigma>) = pk_avail pk"
  "sel_assigned (sel_of pk \<sigma>) = pk_assigned pk" "sel_total (sel_of pk \<sigma>) = total_waiters (pk_self pk)"
  by (simp_all add: sel_of_def)

lemma load_sel [simp]:
  "pk_at (load q s pk) = Front" "pk_queue (load q s pk) = q" "pk_single (load q s pk) = pk_single pk"
  "pk_priority (load q s pk) = pk_priority pk" "pk_restore (load q s pk) = pk_restore pk"
  "pk_any (load q s pk) = pk_any pk" "pk_wakes (load q s pk) = sel_wakes s" "pk_avail (load q s pk) = sel_avail s"
  "pk_assigned (load q s pk) = sel_assigned s"
  "pk_self (load q s pk) = (pk_self pk)\<lparr>total_waiters := sel_total s\<rparr>"
  by (simp_all add: load_def)

lemma sel_of_load [simp]: "sel_of (load q s pk) \<sigma> = s\<lparr>sel_store := \<sigma>\<rparr>"
  by (simp add: sel_of_def)

lemma sel_store_same: "s\<lparr>sel_store := sel_store s\<rparr> = s"
  by simp

lemma load_load [simp]: "load q s (load q' s' pk) = load q s pk"
  by (simp add: load_def)

lemma load_any [simp]: "(load q s pk)\<lparr>pk_any := b\<rparr> = load q s (pk\<lparr>pk_any := b\<rparr>)"
  by (simp add: load_def)

lemma load_start: "pk_at pk = Front \<Longrightarrow> load (pk_queue pk) (sel_of pk \<sigma>) pk = pk"
  by (simp add: load_def)

text \<open>Serving one waiter.\<close>

lemma serve_steps:
  assumes "serve w s = Some s'" and b: "b \<longleftrightarrow> pk_any pk \<or> \<not> pk_single pk"
  shows "pick_next\<^sup>*\<^sup>* ((load (w # q) s pk)\<lparr>pk_at := Notify w\<rparr>, sel_store s)
    (load q s' (pk\<lparr>pk_any := b\<rparr>), sel_store s')"
proof -
  let ?pk = "(load (w # q) s pk)\<lparr>pk_at := Notify w\<rparr>" and ?\<sigma> = "sel_store s"
  obtain ws ok where t: "try_notify (?\<sigma> w) = (ws, ok)" by (rule prod.exhaust)
  obtain \<sigma> l where n: "notify_waiter w ?\<sigma> (sel_wakes s) = Some (\<sigma>, l)"
    and s': "s' = s\<lparr>sel_store := \<sigma>, sel_wakes := l, sel_avail := sel_avail s - permits_needed (?\<sigma> w),
      sel_assigned := sel_assigned s + permits_needed (?\<sigma> w), sel_total := sel_total s - 1\<rparr>"
    and pos: "sel_total s \<noteq> 0"
    using assms by (auto simp: serve_def count_out_def Let_def split: option.splits if_splits)
  let ?s1 = "s'\<lparr>sel_wakes := sel_wakes s\<rparr>"
  let ?pk1 = "(load q ?s1 (pk\<lparr>pk_any := b\<rparr>))\<lparr>pk_at := (if ok then Take w else Front)\<rparr>"
  have one: "pick_next (?pk, ?\<sigma>) (?pk1, ?\<sigma>(w := ws))"
    using pos t s' b
    by (cases pk) (simp add: pick_next_def pick_step_def pick_notify_def pick_pop_def load_def Let_def)
  show ?thesis
  proof (cases ok)
    case False
    with n t s' have "?s1 = s'" "?\<sigma>(w := ws) = sel_store s'" by (auto simp: notify_waiter_def)
    with one False have "pick_next (?pk, ?\<sigma>) (load q s' (pk\<lparr>pk_any := b\<rparr>), sel_store s')"
      by (cases pk) (simp add: load_def)
    then show ?thesis by blast
  next
    case True
    obtain wk ws' where k: "take_waker_under_lock ws = (wk, ws')" by (rule prod.exhaust)
    with n t s' True have "pick_next (?pk1, ?\<sigma>(w := ws)) (load q s' (pk\<lparr>pk_any := b\<rparr>), sel_store s')"
      by (cases pk) (auto simp: notify_waiter_def pick_next_def pick_step_def pick_take_def load_def Let_def
          split: option.splits if_splits)
    with one show ?thesis by (rule converse_rtranclp_into_rtranclp [OF _ r_into_rtranclp])
  qed
qed

lemma count_out_eq:
  "count_out s = Some s' \<longleftrightarrow> sel_total s \<noteq> 0 \<and> s' = s\<lparr>sel_total := sel_total s - 1\<rparr>"
  by (auto simp: count_out_def)

text \<open>One step at the front of a queue.\<close>

lemma front_steps:
  "pick_front (load q s pk) \<sigma> = Some pk' \<Longrightarrow> pick_next (load q s pk, \<sigma>) (pk', \<sigma>)"
  by (simp add: pick_next_def pick_step_def)

lemma pop_load:
  "count_out s = Some s' \<Longrightarrow> pick_pop (load (w # q) s pk) = Some (load q s' pk)"
  by (auto simp: count_out_eq pick_pop_def load_def)

text \<open>The loop over a queue, in the fast path and in the general case.\<close>

lemma single_steps:
  assumes "process_single_priority_fast q s = Some (q', s')" "pk_single pk"
  shows "pick_next\<^sup>*\<^sup>* (load q s pk, sel_store s) (pick_leave (load q' s' pk), sel_store s')"
  using assms
proof (induction q s rule: process_single_priority_fast.induct)
  case (1 s)
  then show ?case using front_steps [of "[]" s pk] by (auto simp: pick_front_def)
next
  case (2 w q s)
  consider (stop) "\<not> can_push (sel_wakes s) \<or> sel_avail s = 0 \<or>
        \<not> is_cancelled (sel_store s w) \<and> permits_needed (sel_store s w) > sel_avail s"
    | (cancelled) "can_push (sel_wakes s)" "sel_avail s \<noteq> 0" "is_cancelled (sel_store s w)"
    | (serve) "can_push (sel_wakes s)" "sel_avail s \<noteq> 0" "\<not> is_cancelled (sel_store s w)"
        "\<not> permits_needed (sel_store s w) > sel_avail s"
    by blast
  then show ?case
  proof cases
    case stop
    with "2.prems" have "q' = w # q" "s' = s" by (auto split: if_splits)
    moreover from stop "2.prems"(2) have "pick_front (load (w # q) s pk) (sel_store s) = Some (pick_leave (load (w # q) s pk))"
      by (auto simp: pick_front_def)
    ultimately show ?thesis using front_steps by blast
  next
    case cancelled
    with "2.prems" obtain s1 where s1: "count_out s = Some s1" "process_single_priority_fast q s1 = Some (q', s')"
      by (auto split: option.splits)
    from s1(1) have store: "sel_store s1 = sel_store s" by (simp add: count_out_eq)
    have "pick_front (load (w # q) s pk) (sel_store s) = Some (load q s1 pk)"
      using cancelled "2.prems"(2) pop_load [OF s1(1)] by (simp add: pick_front_def)
    from front_steps [OF this] have "pick_next (load (w # q) s pk, sel_store s) (load q s1 pk, sel_store s1)"
      by (simp add: store)
    also have "pick_next\<^sup>*\<^sup>* \<dots> (pick_leave (load q' s' pk), sel_store s')"
      using "2.IH"(1) [OF _ _ s1] cancelled "2.prems"(2) by simp
    finally show ?thesis .
  next
    case serve
    with "2.prems" obtain s1 where s1: "serve w s = Some s1" "process_single_priority_fast q s1 = Some (q', s')"
      by (auto split: option.splits)
    have "pick_front (load (w # q) s pk) (sel_store s) = Some ((load (w # q) s pk)\<lparr>pk_at := Notify w\<rparr>)"
      using serve "2.prems"(2) by (simp add: pick_front_def)
    from front_steps [OF this] have "pick_next (load (w # q) s pk, sel_store s)
        ((load (w # q) s pk)\<lparr>pk_at := Notify w\<rparr>, sel_store s)" .
    also have "pick_next\<^sup>*\<^sup>* ((load (w # q) s pk)\<lparr>pk_at := Notify w\<rparr>, sel_store s) (load q s1 pk, sel_store s1)"
      using serve_steps [OF s1(1), of "pk_any pk" pk q] "2.prems"(2) by simp
    also have "pick_next\<^sup>*\<^sup>* (load q s1 pk, sel_store s1) (pick_leave (load q' s' pk), sel_store s')"
      using "2.IH"(2) [OF _ _ _ s1(1,2)] serve "2.prems"(2) by simp
    finally show ?thesis .
  qed
qed

lemma queue_steps:
  assumes "process_queue q s b = Some (q', s', b')" "\<not> pk_single pk" "pk_any pk = b"
  shows "pick_next\<^sup>*\<^sup>* (load q s pk, sel_store s) (pick_leave (load q' s' (pk\<lparr>pk_any := b'\<rparr>)), sel_store s')"
  using assms
proof (induction q s b arbitrary: pk rule: process_queue.induct)
  case (1 s b)
  then have "q' = []" "s' = s" "pk\<lparr>pk_any := b'\<rparr> = pk" by simp_all
  then show ?case using front_steps [of "[]" s pk "sel_store s"] by (simp add: pick_front_def r_into_rtranclp)
next
  case (2 w q s b)
  consider (stop) "\<not> can_push (sel_wakes s) \<or> sel_avail s = 0 \<or> permits_needed (sel_store s w) > sel_avail s"
    | (cancelled) "can_push (sel_wakes s)" "sel_avail s \<noteq> 0" "\<not> permits_needed (sel_store s w) > sel_avail s"
        "is_cancelled (sel_store s w)"
    | (serve) "can_push (sel_wakes s)" "sel_avail s \<noteq> 0" "\<not> permits_needed (sel_store s w) > sel_avail s"
        "\<not> is_cancelled (sel_store s w)"
    by blast
  then show ?case
  proof cases
    case stop
    with "2.prems" have "q' = w # q" "s' = s" "pk\<lparr>pk_any := b'\<rparr> = pk" by (auto split: if_splits)
    moreover from stop "2.prems"(2) have "pick_front (load (w # q) s pk) (sel_store s) = Some (pick_leave (load (w # q) s pk))"
      by (auto simp: pick_front_def)
    ultimately show ?thesis using front_steps by (metis r_into_rtranclp)
  next
    case cancelled
    with "2.prems" obtain s1 where s1: "count_out s = Some s1" "process_queue q s1 b = Some (q', s', b')"
      by (auto split: option.splits)
    from s1(1) have store: "sel_store s1 = sel_store s" by (simp add: count_out_eq)
    have "pick_front (load (w # q) s pk) (sel_store s) = Some (load q s1 pk)"
      using cancelled "2.prems"(2) pop_load [OF s1(1)] by (simp add: pick_front_def)
    from front_steps [OF this] have "pick_next (load (w # q) s pk, sel_store s) (load q s1 pk, sel_store s1)"
      by (simp add: store)
    also have "pick_next\<^sup>*\<^sup>* \<dots> (pick_leave (load q' s' (pk\<lparr>pk_any := b'\<rparr>)), sel_store s')"
      using "2.IH"(1) [OF _ _ _ s1, of pk] cancelled "2.prems"(2,3) by simp
    finally show ?thesis .
  next
    case serve
    with "2.prems" obtain s1 where s1: "serve w s = Some s1" "process_queue q s1 True = Some (q', s', b')"
      by (auto split: option.splits)
    have "pick_front (load (w # q) s pk) (sel_store s) = Some ((load (w # q) s pk)\<lparr>pk_at := Notify w\<rparr>)"
      using serve "2.prems"(2) by (simp add: pick_front_def)
    from front_steps [OF this] have "pick_next (load (w # q) s pk, sel_store s)
        ((load (w # q) s pk)\<lparr>pk_at := Notify w\<rparr>, sel_store s)" .
    also have "pick_next\<^sup>*\<^sup>* ((load (w # q) s pk)\<lparr>pk_at := Notify w\<rparr>, sel_store s)
        (load q s1 (pk\<lparr>pk_any := True\<rparr>), sel_store s1)"
      using serve_steps [OF s1(1), of True pk q] "2.prems"(2) by simp
    also have "pick_next\<^sup>*\<^sup>* (load q s1 (pk\<lparr>pk_any := True\<rparr>), sel_store s1)
        (pick_leave (load q' s' (pk\<lparr>pk_any := b'\<rparr>)), sel_store s')"
      using "2.IH"(2) [OF _ _ _ s1(1,2), of "pk\<lparr>pk_any := True\<rparr>"] serve "2.prems"(2) by simp
    finally show ?thesis .
  qed
qed

text \<open>The sweep.\<close>

lemma sweep_steps:
  "pick_next\<^sup>*\<^sup>* (pk\<lparr>pk_at := Sweep kept todo\<rparr>, \<sigma>)
     (pk\<lparr>pk_at := Sweep (kept @ filter (\<lambda>w. \<not> is_cancelled (\<sigma> w)) todo) []\<rparr>, \<sigma>)"
proof (induction todo arbitrary: kept)
  case (Cons w todo)
  have "pick_next (pk\<lparr>pk_at := Sweep kept (w # todo)\<rparr>, \<sigma>)
      (pk\<lparr>pk_at := Sweep (if is_cancelled (\<sigma> w) then kept else kept @ [w]) todo\<rparr>, \<sigma>)"
    by (simp add: pick_next_def pick_step_def)
  also have "pick_next\<^sup>*\<^sup>* \<dots> (pk\<lparr>pk_at := Sweep (kept @ filter (\<lambda>w. \<not> is_cancelled (\<sigma> w)) (w # todo)) []\<rparr>, \<sigma>)"
    using Cons [of kept] Cons [of "kept @ [w]"] by (cases "is_cancelled (\<sigma> w)") simp_all
  finally show ?case .
qed simp

text \<open>One priority of the general case, up to where it stands before the next one or has finished.\<close>

definition next_priority :: "wid list \<Rightarrow> selection \<Rightarrow> bool \<Rightarrow> picking \<Rightarrow> picking" where
  "next_priority q s b pk =
     (let pk' = (load [] s pk)\<lparr>pk_at := Outer, pk_any := b,
            pk_self := (pk_self pk)\<lparr>priority_queues := AList.update (pk_priority pk) q (priority_queues (pk_self pk)),
                                    total_waiters := sel_total s\<rparr>,
            pk_restore := (if q \<noteq> [] then pk_restore pk @ [pk_priority pk] else pk_restore pk)\<rparr>
      in if b \<and> \<not> can_push (sel_wakes s) then pick_finish pk' else pk')"

lemma next_priority_done:
  assumes "b \<and> \<not> can_push (sel_wakes s)"
  shows "pk_at (next_priority q s b pk) = Picked" "pk_wakes (next_priority q s b pk) = sel_wakes s"
    and "pk_assigned (next_priority q s b pk) = sel_assigned s"
    and "pk_self (next_priority q s b pk) = (pk_self pk)\<lparr>
      priority_queues := AList.update (pk_priority pk) q (priority_queues (pk_self pk)),
      active_priorities := fold (#) (if q \<noteq> [] then pk_restore pk @ [pk_priority pk] else pk_restore pk)
        (active_priorities (pk_self pk)),
      total_waiters := sel_total s\<rparr>"
  using assms by (simp_all add: next_priority_def pick_finish_def Let_def)

lemma priority_steps:
  assumes "process_priority q s = Some (q', s', b)" "\<not> pk_single pk" "\<not> pk_any pk"
  shows "pick_next\<^sup>*\<^sup>* (load q s pk, sel_store s) (next_priority q' s' b pk, sel_store s')"
proof -
  obtain q1 s1 where one: "process_queue q s False = Some (q1, s1, b)"
    and q': "q' = filter (\<lambda>w. \<not> is_cancelled (sel_store s1 w)) q1"
    and s': "s' = s1\<lparr>sel_total := (if sel_total s1 \<ge> length q1 - length q' then sel_total s1 - (length q1 - length q')
      else sel_total s1)\<rparr>"
    using assms(1) by (auto simp: process_priority_def Let_def split: option.splits prod.splits if_splits)
  let ?pk = "load q1 s1 (pk\<lparr>pk_any := b\<rparr>)"
  have "pick_next\<^sup>*\<^sup>* (load q s pk, sel_store s) (pick_leave ?pk, sel_store s1)"
    using queue_steps [OF one assms(2)] assms(3) by simp
  also have "pick_leave ?pk = ?pk\<lparr>pk_at := Sweep [] q1\<rparr>" using assms(2) by (simp add: pick_leave_def)
  also have "pick_next\<^sup>*\<^sup>* (?pk\<lparr>pk_at := Sweep [] q1\<rparr>, sel_store s1) (?pk\<lparr>pk_at := Sweep q' []\<rparr>, sel_store s1)"
    using sweep_steps [where pk = ?pk and kept = "[]" and todo = q1 and \<sigma> = "sel_store s1"] q' by simp
  also have "pick_next (?pk\<lparr>pk_at := Sweep q' []\<rparr>, sel_store s1) (next_priority q' s' b pk, sel_store s')"
    by (cases pk) (simp add: pick_next_def pick_step_def pick_swept_def next_priority_def load_def Let_def s'
        pick_finish_def)
  finally show ?thesis .
qed

text \<open>The loop over priorities.\<close>

lemma outer_steps:
  "pk_at pk = Outer \<Longrightarrow> pick_outer pk \<sigma> = Some pk' \<Longrightarrow> pick_next (pk, \<sigma>) (pk', \<sigma>)"
  by (simp add: pick_next_def pick_step_def)

lemma priorities_steps:
  assumes "process_priorities m active restore s = Some (m', active', restore', s')"
    and "pk_at pk = Outer" "\<not> pk_single pk" "priority_queues (pk_self pk) = m"
    and "active_priorities (pk_self pk) = active" "pk_restore pk = restore" "sel_of pk (sel_store s) = s"
  shows "\<exists>pk'. pick_next\<^sup>*\<^sup>* (pk, sel_store s) (pk', sel_store s') \<and> pk_at pk' = Picked \<and>
    sel_wakes s' = pk_wakes pk' \<and> sel_assigned s' = pk_assigned pk' \<and>
    pk_self pk' = (pk_self pk)\<lparr>priority_queues := m', active_priorities := fold (#) restore' active',
      total_waiters := sel_total s'\<rparr>"
  using assms
proof (induction m active restore s arbitrary: pk rule: process_priorities.induct)
  case (1 m active restore s)
  let ?self = "pk_self pk"
  have sel: "sel_wakes s = pk_wakes pk" "sel_avail s = pk_avail pk" "sel_assigned s = pk_assigned pk"
    "sel_total s = total_waiters ?self"
    using "1.prems"(7) by (metis sel_of_sel(2), metis sel_of_sel(3), metis sel_of_sel(4), metis sel_of_sel(5))
  note at = "1.prems"(2)
  have stop: ?case if "pick_outer pk (sel_store s) = Some (pick_finish pk)"
    "m' = m" "active' = active" "restore' = restore" "s' = s"
  proof (intro exI conjI)
    show "pick_next\<^sup>*\<^sup>* (pk, sel_store s) (pick_finish pk, sel_store s')"
      using outer_steps [OF at that(1)] that(5) by simp
    show "pk_self (pick_finish pk) = ?self\<lparr>priority_queues := m', active_priorities := fold (#) restore' active',
        total_waiters := sel_total s'\<rparr>"
      using that "1.prems" sel by (cases ?self) (simp add: pick_finish_def)
  qed (simp_all add: pick_finish_def sel that)
  show ?case
  proof (cases "heap_peek active")
    case None
    with "1.prems" show ?thesis
      by (intro stop) (simp_all add: process_priorities.simps [of m active] pick_outer_def)
  next
    case (Some p)
    show ?thesis
    proof (cases "sel_avail s = 0 \<or> \<not> can_push (sel_wakes s)")
      case True
      with Some "1.prems" sel show ?thesis
        by (intro stop) (auto simp: process_priorities.simps [of m active] pick_outer_def)
    next
      case False
      note go = this
      let ?pop = "?self\<lparr>active_priorities := heap_pop active\<rparr>"
      show ?thesis
      proof (cases "has_non_empty_queue m p")
        case False
        let ?pk = "pk\<lparr>pk_self := ?pop\<rparr>"
        have pp: "process_priorities m (heap_pop active) restore s = Some (m', active', restore', s')"
          using Some go False "1.prems"(1) by (simp add: process_priorities.simps [of m active])
        have "pick_outer pk (sel_store s) = Some ?pk"
          using Some go False "1.prems" sel by (simp add: pick_outer_def)
        from outer_steps [OF at this] have one: "pick_next (pk, sel_store s) (?pk, sel_store s)" .
        have "sel_of ?pk (sel_store s) = s" using "1.prems"(7) by (simp add: sel_of_def)
        with "1.IH"(1) [OF Some go False pp, of ?pk] "1.prems"(2-6) obtain pk' where
          "pick_next\<^sup>*\<^sup>* (?pk, sel_store s) (pk', sel_store s')" "pk_at pk' = Picked"
          "sel_wakes s' = pk_wakes pk'" "sel_assigned s' = pk_assigned pk'"
          "pk_self pk' = ?self\<lparr>priority_queues := m', active_priorities := fold (#) restore' active',
            total_waiters := sel_total s'\<rparr>" by auto
        with one show ?thesis by (auto intro: converse_rtranclp_into_rtranclp)
      next
        case True
        then obtain first rest where q: "map_of m p = Some (first # rest)"
          by (auto simp: has_non_empty_queue_def neq_Nil_conv split: option.splits)
        show ?thesis
        proof (cases "permits_needed (sel_store s first) > sel_avail s")
          case large: True
          with Some go True q "1.prems" sel show ?thesis
            by (intro stop) (auto simp: process_priorities.simps [of m active] pick_outer_def)
        next
          case fits: False
          obtain q' s1 b where one: "process_priority (first # rest) s = Some (q', s1, b)"
            using Some go True q fits "1.prems"(1)
            by (auto simp: process_priorities.simps [of m active] split: option.splits)
          let ?m = "AList.update p q' m" and ?res = "if q' \<noteq> [] then restore @ [p] else restore"
          let ?pk0 = "pk\<lparr>pk_at := Front, pk_priority := p, pk_queue := first # rest, pk_any := False, pk_self := ?pop\<rparr>"
          let ?pk1 = "next_priority q' s1 b ?pk0"
          have "pick_outer pk (sel_store s) = Some ?pk0"
            using Some go True q fits "1.prems" sel by (simp add: pick_outer_def)
          from outer_steps [OF at this] have "pick_next (pk, sel_store s) (?pk0, sel_store s)" .
          also have "?pk0 = load (first # rest) s ?pk0"
            using sel by (cases pk) (simp add: load_def)
          also have "pick_next\<^sup>*\<^sup>* (load (first # rest) s ?pk0, sel_store s) (?pk1, sel_store s1)"
            using priority_steps [OF one, of ?pk0] "1.prems"(3) by simp
          finally have steps: "pick_next\<^sup>*\<^sup>* (pk, sel_store s) (?pk1, sel_store s1)" .
          show ?thesis
          proof (cases "b \<and> \<not> can_push (sel_wakes s1)")
            case True
            with Some go \<open>has_non_empty_queue m p\<close> q fits one "1.prems"(1)
            have "m' = ?m" "active' = heap_pop active" "restore' = ?res" "s' = s1"
              by (auto simp: process_priorities.simps [of m active] Let_def)
            with steps next_priority_done [OF True, of q' ?pk0] "1.prems" show ?thesis
              by (intro exI [of _ ?pk1]) simp
          next
            case False
            with Some go True q fits one "1.prems"(1)
            have pp: "process_priorities ?m (heap_pop active) ?res s1 = Some (m', active', restore', s')"
              by (auto simp: process_priorities.simps [of m active] Let_def split: if_splits)
            have pk1: "pk_at ?pk1 = Outer" "\<not> pk_single ?pk1" "priority_queues (pk_self ?pk1) = ?m"
              "active_priorities (pk_self ?pk1) = heap_pop active" "pk_restore ?pk1 = ?res"
              "sel_of ?pk1 (sel_store s1) = s1" "config (pk_self ?pk1) = config ?self"
              "closed (pk_self ?pk1) = closed ?self"
              using False "1.prems" by (auto simp: next_priority_def Let_def sel_of_def)
            from "1.IH"(2) [OF Some go _ q refl fits one] True False pp pk1 obtain pk' where
              "pick_next\<^sup>*\<^sup>* (?pk1, sel_store s1) (pk', sel_store s')" "pk_at pk' = Picked"
              "sel_wakes s' = pk_wakes pk'" "sel_assigned s' = pk_assigned pk'"
              "pk_self pk' = (pk_self ?pk1)\<lparr>priority_queues := m', active_priorities := fold (#) restore' active',
                total_waiters := sel_total s'\<rparr>" by fastforce
            with steps pk1(7,8) show ?thesis
              by (intro exI [of _ pk'] conjI rtranclp_trans [OF steps]) auto
          qed
        qed
      qed
    qed
  qed
qed

text \<open>The whole selection.\<close>

lemma select_steps:
  assumes "select_waiters_to_notify n \<sigma> q = Some (l, k, \<sigma>', q')"
  shows "\<exists>pk. pick_next\<^sup>*\<^sup>* (pick_start n q, \<sigma>) (pk, \<sigma>') \<and> pk_at pk = Picked \<and> pk_wakes pk = l \<and>
    pk_assigned pk = k \<and> pk_self pk = q'"
proof -
  let ?pk = "pick_start n q"
  let ?s = "\<lparr>sel_store = \<sigma>, sel_wakes = wake_list_new, sel_avail = n, sel_assigned = 0, sel_total = total_waiters q\<rparr>"
  have sel: "sel_of ?pk \<sigma> = ?s"
    by (simp add: sel_of_def pick_start_def Let_def split: option.split)
  consider (none) "n = 0 \<or> total_waiters q = 0"
    | (single) "n \<noteq> 0" "total_waiters q \<noteq> 0" "length (active_priorities q) = 1"
    | (many) "n \<noteq> 0" "total_waiters q \<noteq> 0" "length (active_priorities q) \<noteq> 1"
    by blast
  then show ?thesis
  proof cases
    case none
    with assms show ?thesis by (intro exI [of _ ?pk]) (auto simp: select_waiters_to_notify_def pick_start_def)
  next
    case single
    then obtain p where p: "heap_peek (active_priorities q) = Some p"
      by (cases "heap_peek (active_priorities q)") auto
    show ?thesis
    proof (cases "map_of (priority_queues q) p")
      case None
      with single p assms show ?thesis
        by (intro exI [of _ ?pk]) (auto simp: select_waiters_to_notify_def pick_start_def Let_def)
    next
      case (Some queue)
      let ?m = "AList.delete p (priority_queues q)" and ?act = "heap_pop (active_priorities q)"
      obtain queue' s' where one: "process_single_priority_fast queue ?s = Some (queue', s')"
        and res: "l = sel_wakes s'" "k = sel_assigned s'" "\<sigma>' = sel_store s'"
          "q' = q\<lparr>priority_queues := (if queue' \<noteq> [] then AList.update p queue' ?m else ?m),
            active_priorities := (if queue' \<noteq> [] then p # ?act else ?act), total_waiters := sel_total s'\<rparr>"
        using single p Some assms by (auto simp: select_waiters_to_notify_def Let_def split: option.splits)
      have pk: "pk_single ?pk" "pk_at ?pk = Front" "pk_queue ?pk = queue" "pk_priority ?pk = p"
        "pk_self ?pk = q\<lparr>priority_queues := ?m, active_priorities := ?act\<rparr>"
        using single p Some by (simp_all add: pick_start_def Let_def)
      have "?pk = load queue ?s ?pk" using load_start [OF pk(2), of \<sigma>] sel pk(3) by simp
      moreover have "pick_next\<^sup>*\<^sup>* (load queue ?s ?pk, \<sigma>) (pick_leave (load queue' s' ?pk), \<sigma>')"
        using single_steps [OF one pk(1)] res(3) by simp
      moreover have "pk_self (pick_leave (load queue' s' ?pk)) = q'"
        using pk res(4) by (simp add: pick_leave_def)
      ultimately show ?thesis
        using pk res(1,2) by (intro exI [of _ "pick_leave (load queue' s' ?pk)"]) (simp add: pick_leave_def)
    qed
  next
    case many
    obtain m' active restore s' where one:
      "process_priorities (priority_queues q) (active_priorities q) [] ?s = Some (m', active, restore, s')"
      and res: "l = sel_wakes s'" "k = sel_assigned s'" "\<sigma>' = sel_store s'"
        "q' = q\<lparr>priority_queues := m', active_priorities := fold (#) restore active, total_waiters := sel_total s'\<rparr>"
      using many assms
      by (auto simp: select_waiters_to_notify_def process_multiple_priorities_optimized_def Let_def
          split: option.splits)
    have pk: "pk_at ?pk = Outer" "\<not> pk_single ?pk" "pk_self ?pk = q" "pk_restore ?pk = []"
      using many by (simp_all add: pick_start_def Let_def)
    from priorities_steps [OF one pk(1,2)] pk sel res show ?thesis by fastforce
  qed
qed

end
