(* ===== verification/Threads.thy ===== *)
theory Threads
  imports Scenarios Picking
begin

text \<open>
  The operations at the granularity at which threads interleave: a poll and a release in the atomic
  steps the code takes (one access to the permit word, to a waiter's state or waker, or one critical
  section under the mutex), each step on the mutex and the semaphore. A selection, during which the
  mutex is held, takes the steps of theory \<open>Picking\<close>; the steps of the other operations are those of
  the theories \<open>Closing\<close>, \<open>Leaving\<close> and \<open>Retries\<close>.
\<close>

section \<open>A poll in steps\<close>

text \<open>
  Where a future stands: never polled, at one of the points of \<open>poll\<close>, or returned. \<open>Inside\<close>
  holds the mutex, having seen the semaphore open.
\<close>

datatype pc =
    Fresh
  | Start
  | Loaded usize
  | Slow
  | Inside
  | Look
  | Check
  | Recheck
  | Park
  | Ret "permit poll"

definition poll_entry :: "acquire_future \<Rightarrow> pc" where
  "poll_entry f = (if f_handle f = None then Start else Look)"

fun poll_tick :: "bool \<Rightarrow> waker \<Rightarrow> pc \<Rightarrow> acquire_future \<Rightarrow> bool \<times> sys \<Rightarrow>
    (pc \<times> acquire_future \<times> bool \<times> sys) option" where
  "poll_tick cas_ok k Start f (lock, s) =
     (if permits s AND CLOSED \<noteq> 0 then Some (Ret (Ready (Inl acquire_error_closed)), f, lock, s)
      else Some (Loaded (permits s), f, lock, s))"
| "poll_tick cas_ok k (Loaded cur) f (lock, s) =
     (let n_shifted = push_bit PERMIT_SHIFT (f_needed f)
      in if cur \<ge> n_shifted \<and> permits s = cur \<and> cas_ok
         then Some (Ret (Ready (Inr \<lparr>p_sem = f_sem f, p_permits = ucast (f_needed f)\<rparr>)), f, lock,
                    s\<lparr>permits := cur - n_shifted\<rparr>)
         else Some (Slow, f, lock, s))"
| "poll_tick cas_ok k Slow f (lock, s) =
     (if lock then None
      else if permits s AND CLOSED \<noteq> 0 then Some (Ret (Ready (Inl acquire_error_closed)), f, lock, s)
      else Some (Inside, f, True, s))"
| "poll_tick cas_ok k Inside f (lock, s) =
     (let (w, \<sigma>, next, q) = push_waiter (f_needed f) (f_priority f) (store s) (next_wid s) (waiters s)
      in Some (Look, f\<lparr>f_handle := Some w\<rparr>, False, s\<lparr>store := \<sigma>, next_wid := next, waiters := q\<rparr>))"
| "poll_tick cas_ok k Look f (lock, s) =
     (case f_handle f of
        None \<Rightarrow> None
      | Some w \<Rightarrow>
          if is_cancelled (store s w) then Some (Ret (Ready (Inl acquire_error_closed)), f, lock, s)
          else Some (Check, f, lock, s))"
| "poll_tick cas_ok k Check f (lock, s) =
     (case f_handle f of
        None \<Rightarrow> None
      | Some w \<Rightarrow> Some (if is_notified (store s w) then Recheck else Park, f, lock, s))"
| "poll_tick cas_ok k Recheck f (lock, s) =
     (if is_closed s then Some (Ret (Ready (Inl acquire_error_closed)), f, lock, s)
      else Some (Ret (Ready (Inr \<lparr>p_sem = f_sem f, p_permits = ucast (f_needed f)\<rparr>)), f, lock, s))"
| "poll_tick cas_ok k Park f (lock, s) =
     (case f_handle f of
        None \<Rightarrow> None
      | Some w \<Rightarrow> Some (Ret Pending, f, lock, s\<lparr>store := (store s)(w := set_waker (store s w) k)\<rparr>))"
| "poll_tick cas_ok k Fresh f (lock, s) = None"
| "poll_tick cas_ok k (Ret r) f (lock, s) = None"

section \<open>A release in steps\<close>

text \<open>
  \<open>Dropping n\<close>: the drop of a permit, about to take the mutex; \<open>Giving n\<close>: it saw no waiters.
  \<open>Locking n\<close>: \<open>add_permits\<close>, or a further round of its loop, about to take the mutex with \<open>n\<close>
  permits to give; \<open>Choosing n pk\<close>: it holds the mutex and selects; \<open>Selected\<close>: the mutex is released,
  the selected waiters are notified, the batch, the permits assigned and the rest are local;
  \<open>Waking\<close>: the semaphore was seen open; \<open>Putting\<close>: about to add the rest to the word.
\<close>

datatype release =
    Dropping usize
  | Giving usize
  | Locking usize
  | Choosing usize picking
  | Selected wake_list usize usize
  | Waking wake_list usize
  | Putting usize
  | Released
  | Panicked

text \<open>
  Taking the mutex with waiters queued starts a selection. While it lasts the queue is the
  selection's (\<open>pk_self\<close>); it is put back when the mutex is released.
\<close>

definition release_enter :: "usize \<Rightarrow> release \<Rightarrow> sys \<Rightarrow> release \<times> bool \<times> sys" where
  "release_enter rem none s =
     (if is_empty (waiters s) then (none, False, s)
      else (Choosing rem (pick_start rem (waiters s)), True, s))"

definition pick_result :: "usize \<Rightarrow> picking \<Rightarrow> release" where
  "pick_result rem pk =
     (let rem' = rem - pk_assigned pk
      in if pk_assigned pk = 0 \<or> wake_list_is_empty (pk_wakes pk) then Putting rem'
         else Selected (pk_wakes pk) (pk_assigned pk) rem')"

definition release_put :: "bool \<Rightarrow> usize \<Rightarrow> sys \<Rightarrow> release \<times> sys" where
  "release_put overflow_checks rem s =
     (if rem > 0 then
        let prev = permits s;
            s1 = s\<lparr>permits := prev + push_bit PERMIT_SHIFT rem\<rparr>;
            prev_permits = drop_bit PERMIT_SHIFT prev
        in if overflow_checks \<and> unat prev_permits + unat rem \<ge> 2 ^ 64 \<or> prev_permits + rem > MAX_PERMITS
           then (Panicked, s1) else (Released, s1)
      else (Released, s))"

fun release_tick :: "bool \<Rightarrow> release \<Rightarrow> bool \<times> sys \<Rightarrow> (release \<times> bool \<times> sys) option" where
  "release_tick chk (Dropping n) (lock, s) = (if lock then None else Some (release_enter n (Giving n) s))"
| "release_tick chk (Giving n) (lock, s) =
     Some (Released, lock, s\<lparr>permits := permits s + push_bit PERMIT_SHIFT n\<rparr>)"
| "release_tick chk (Locking rem) (lock, s) =
     (if rem = 0 then Some (Putting rem, lock, s)
      else if lock then None else Some (release_enter rem (Putting rem) s))"
| "release_tick chk (Choosing rem pk) (lock, s) =
     (if pk_at pk = Picked then Some (pick_result rem pk, False, s\<lparr>waiters := pk_self pk\<rparr>)
      else (case pick_step pk (store s) of
              None \<Rightarrow> None
            | Some (pk', \<sigma>) \<Rightarrow> Some (Choosing rem pk', lock, s\<lparr>store := \<sigma>\<rparr>)))"
| "release_tick chk (Selected wake_list permits_assigned rem) (lock, s) =
     (if is_closed s
      then Some (Released, lock, s\<lparr>permits := permits s + push_bit PERMIT_SHIFT permits_assigned\<rparr>)
      else Some (Waking wake_list rem, lock, s))"
| "release_tick chk (Waking wake_list rem) (lock, s) =
     (case wake_all wake_list of
        None \<Rightarrow> None
      | Some (ws, wake_list') \<Rightarrow>
          Some (if was_full wake_list' then Locking rem else Putting rem, lock, s\<lparr>woken := woken s @ ws\<rparr>))"
| "release_tick chk (Putting rem) (lock, s) =
     (let (r, s') = release_put chk rem s in Some (r, lock, s'))"
| "release_tick chk Released (lock, s) = None"
| "release_tick chk Panicked (lock, s) = None"

section \<open>The steps make up the operations\<close>

fun run_poll :: "nat \<Rightarrow> bool \<Rightarrow> waker \<Rightarrow> pc \<times> acquire_future \<times> bool \<times> sys \<Rightarrow>
    pc \<times> acquire_future \<times> bool \<times> sys" where
  "run_poll 0 cas_ok k x = x"
| "run_poll (Suc n) cas_ok k (pc, f, lock, s) =
     (case poll_tick cas_ok k pc f (lock, s) of
        None \<Rightarrow> (pc, f, lock, s)
      | Some x \<Rightarrow> run_poll n cas_ok k x)"

fun run_release :: "nat \<Rightarrow> bool \<Rightarrow> release \<times> bool \<times> sys \<Rightarrow> release \<times> bool \<times> sys" where
  "run_release 0 chk x = x"
| "run_release (Suc n) chk (r, lock, s) =
     (case release_tick chk r (lock, s) of None \<Rightarrow> (r, lock, s) | Some x \<Rightarrow> run_release n chk x)"

lemma poll_in_steps:
  "run_poll 7 cas_ok k (poll_entry f, f, False, s) =
     (let (r, f', s') = poll cas_ok k f s in (Ret r, f', False, s'))"
proof (cases "f_handle f")
  case None
  consider "is_closed s" | "\<not> is_closed s" "push_bit PERMIT_SHIFT (f_needed f) \<le> permits s \<and> cas_ok"
    | "\<not> is_closed s" "\<not> (push_bit PERMIT_SHIFT (f_needed f) \<le> permits s \<and> cas_ok)" by blast
  then show ?thesis
    using None
    by cases (auto simp: poll_entry_def poll_eq closed_word numeral_eq_Suc push_waiter_def
        waiter_handle_new_def Let_def waiter_tests)
next
  case (Some w)
  then show ?thesis
    by (auto simp: poll_entry_def poll_eq numeral_eq_Suc waiter_tests)
qed

lemma release_put_done:
  assumes "free s + unat rem \<le> max_permits"
  shows "release_put chk rem s = (Released, s\<lparr>permits := permits s + push_bit PERMIT_SHIFT rem\<rparr>)"
proof (cases "0 < rem")
  case True
  with no_overflow [OF assms] show ?thesis by (simp add: release_put_def Let_def)
next
  case False
  then have "rem = 0" by (simp add: word_gt_0)
  then show ?thesis by (simp add: release_put_def)
qed

text \<open>Runs of a release, whatever their length.\<close>

definition release_runs :: "bool \<Rightarrow> release \<times> bool \<times> sys \<Rightarrow> release \<times> bool \<times> sys \<Rightarrow> bool" where
  "release_runs chk x y \<longleftrightarrow> (\<exists>n. run_release n chk x = y)"

lemma release_runs_refl [simp, intro]: "release_runs chk x x"
  unfolding release_runs_def by (metis run_release.simps(1))

lemma release_runs_step:
  "release_tick chk r (lock, s) = Some y \<Longrightarrow> release_runs chk y z \<Longrightarrow> release_runs chk (r, lock, s) z"
  unfolding release_runs_def by (metis run_release.simps(2) option.case(2))

lemma run_release_stays: "release_tick chk r (lock, s) = None \<Longrightarrow> run_release n chk (r, lock, s) = (r, lock, s)"
  by (cases n) simp_all

lemma run_release_add: "run_release (m + n) chk x = run_release n chk (run_release m chk x)"
proof (induction m chk x rule: run_release.induct)
  case (2 m chk r lock s)
  then show ?case by (auto simp: run_release_stays split: option.split)
qed simp

lemma release_runs_trans [trans]: "release_runs chk x y \<Longrightarrow> release_runs chk y z \<Longrightarrow> release_runs chk x z"
  unfolding release_runs_def using run_release_add by metis

lemma release_runs_pick:
  assumes "pick_next\<^sup>*\<^sup>* (pk, \<sigma>) (pk', \<sigma>')"
  shows "release_runs chk (Choosing rem pk, lock, s\<lparr>store := \<sigma>\<rparr>) (Choosing rem pk', lock, s\<lparr>store := \<sigma>'\<rparr>)"
  using assms
proof (induction "(pk, \<sigma>)" arbitrary: pk \<sigma> rule: converse_rtranclp_induct)
  case (step y)
  obtain pk1 \<sigma>1 where y: "y = (pk1, \<sigma>1)" by (rule prod.exhaust)
  from step(1) y have p: "pick_step pk \<sigma> = Some (pk1, \<sigma>1)" by (simp add: pick_next_def)
  then have "pk_at pk \<noteq> Picked" by (auto simp: pick_step_def)
  with p have "release_tick chk (Choosing rem pk) (lock, s\<lparr>store := \<sigma>\<rparr>) = Some (Choosing rem pk1, lock, s\<lparr>store := \<sigma>1\<rparr>)"
    by simp
  with step(3) [OF y] show ?case by (rule release_runs_step [rotated])
qed simp

definition select_result :: "usize \<Rightarrow> wid list \<Rightarrow> store \<Rightarrow> release" where
  "select_result n ws \<sigma> =
     (let k = need_words \<sigma> ws
      in if k = 0 \<or> wakers_of \<sigma> ws = [] then Putting (n - k)
         else Selected (wake_list_of (wakers_of \<sigma> ws)) k (n - k))"

text \<open>From the taking of the mutex to its release, the steps make up the selection.\<close>

lemma choosing_runs:
  assumes inv: "wait_queue_inv (store s) (waiters s)" and pos: "0 < n"
  shows "\<exists>ws q' sl. served_by (store s) (waiters s) n ws q' sl \<and>
    release_runs chk (release_enter n (Putting n) s)
      (select_result n ws (store s), False, s\<lparr>store := notify_all ws (store s), waiters := q'\<rparr>) \<and>
    add_permits_loop n s =
      (case select_result n ws (store s) of
         Selected l k rem \<Rightarrow>
           if is_closed s then Some (None, s\<lparr>store := notify_all ws (store s), waiters := q',
             permits := permits s + push_bit PERMIT_SHIFT k\<rparr>)
           else Some (Some rem, s\<lparr>store := notify_all ws (store s), waiters := q',
             woken := woken s @ wakers_of (store s) ws\<rparr>)
       | Putting rem \<Rightarrow> Some (Some rem, s\<lparr>store := notify_all ws (store s), waiters := q'\<rparr>)
       | _ \<Rightarrow> None)"
proof (cases "is_empty (waiters s)")
  case True
  with served_by_none [OF inv True, of n] pos show ?thesis
    by (intro exI [of _ "[]"] exI [of _ "waiters s"] exI [of _ "sel_init n (store s) (waiters s)"])
      (simp add: serve_simps release_enter_def select_result_def add_permits_loop.simps [of n s])
next
  case False
  obtain ws q' sl where sel: "select_waiters_to_notify n (store s) (waiters s) =
      Some (wake_list_of (wakers_of (store s) ws), need_words (store s) ws, notify_all ws (store s), q')"
    "served_by (store s) (waiters s) n ws q' sl"
    using select_served [OF inv] by blast
  let ?\<sigma> = "notify_all ws (store s)"
  obtain pk where pk: "pick_next\<^sup>*\<^sup>* (pick_start n (waiters s), store s) (pk, ?\<sigma>)" "pk_at pk = Picked"
    "pk_wakes pk = wake_list_of (wakers_of (store s) ws)" "pk_assigned pk = need_words (store s) ws" "pk_self pk = q'"
    using select_steps [OF sel(1)] by blast
  have "release_enter n (Putting n) s = (Choosing n (pick_start n (waiters s)), True, s\<lparr>store := store s\<rparr>)"
    using False by (simp add: release_enter_def)
  also have "release_runs chk \<dots> (Choosing n pk, True, s\<lparr>store := ?\<sigma>\<rparr>)"
    using pk(1) by (rule release_runs_pick)
  also have "release_runs chk \<dots> (select_result n ws (store s), False, s\<lparr>store := ?\<sigma>, waiters := q'\<rparr>)"
    using pk by (intro release_runs_step [OF _ release_runs_refl])
      (simp add: pick_result_def select_result_def Let_def)
  finally have runs: "release_runs chk (release_enter n (Putting n) s)
      (select_result n ws (store s), False, s\<lparr>store := ?\<sigma>, waiters := q'\<rparr>)" .
  have closed: "is_closed (s\<lparr>store := \<sigma>, waiters := q\<rparr>) = is_closed s" for \<sigma> q
    by (simp add: is_closed_def)
  have wake: "wake_all (wake_list_of (wakers_of (store s) ws))
      = Some (wakers_of (store s) ws, wake_list_of [])"
    using served_byD(5) [OF sel(2)] by (rule wake_all_of)
  have "\<not> was_full (wake_list_of [])" by (simp add: NUM_WAKERS_def)
  with False pos sel(1) wake closed runs show ?thesis
    by (intro exI [of _ ws] exI [of _ q'] exI [of _ sl] conjI sel(2) runs)
      (simp add: select_result_def add_permits_loop.simps [of n s] Let_def del: wake_list_of_tests(3))
qed

lemma entered_in_steps:
  assumes inv: "wait_queue_inv (store s) (waiters s)" and bound: "free s + unat n \<le> max_permits" and pos: "0 < n"
  shows "release_runs chk (release_enter n (Putting n) s) (Released, False, snd (add_permits chk n s))"
proof -
  obtain ws q' sl where sv: "served_by (store s) (waiters s) n ws q' sl"
    and sel: "release_runs chk (release_enter n (Putting n) s)
      (select_result n ws (store s), False, s\<lparr>store := notify_all ws (store s), waiters := q'\<rparr>)"
    and loop: "add_permits_loop n s =
      (case select_result n ws (store s) of
         Selected l k rem \<Rightarrow>
           if is_closed s then Some (None, s\<lparr>store := notify_all ws (store s), waiters := q',
             permits := permits s + push_bit PERMIT_SHIFT k\<rparr>)
           else Some (Some rem, s\<lparr>store := notify_all ws (store s), waiters := q',
             woken := woken s @ wakers_of (store s) ws\<rparr>)
       | Putting rem \<Rightarrow> Some (Some rem, s\<lparr>store := notify_all ws (store s), waiters := q'\<rparr>)
       | _ \<Rightarrow> None)"
    using choosing_runs [OF inv pos] by blast
  note sd = served_byD [OF sv]
  let ?r = "n - need_words (store s) ws" and ?s = "s\<lparr>store := notify_all ws (store s), waiters := q'\<rparr>"
  have rest: "release_put chk ?r s1 = (Released, s1\<lparr>permits := permits s1 + push_bit PERMIT_SHIFT ?r\<rparr>)"
    "add_permits_loop n s = Some (Some ?r, s1) \<Longrightarrow>
      add_permits_locked chk n s = (Done (), s1\<lparr>permits := permits s1 + push_bit PERMIT_SHIFT ?r\<rparr>)"
    if "permits s1 = permits s" for s1
  proof -
    have b: "free s1 + unat ?r \<le> max_permits" using that bound sd(7) by (simp add: available_permits_def)
    show "release_put chk ?r s1 = (Released, s1\<lparr>permits := permits s1 + push_bit PERMIT_SHIFT ?r\<rparr>)"
      using b by (rule release_put_done)
    show "add_permits_locked chk n s = (Done (), s1\<lparr>permits := permits s1 + push_bit PERMIT_SHIFT ?r\<rparr>)"
      if "add_permits_loop n s = Some (Some ?r, s1)"
      using that b by (rule add_permits_put_back)
  qed
  have wake: "wake_all (wake_list_of (wakers_of (store s) ws)) = Some (wakers_of (store s) ws, wake_list_of [])"
    using sd(5) by (rule wake_all_of)
  have nf: "\<not> was_full (wake_list_of [])" by (simp add: NUM_WAKERS_def)
  have closed: "is_closed (s\<lparr>store := \<sigma>, waiters := q\<rparr>) = is_closed s" for \<sigma> q
    by (simp add: is_closed_def)
  have add: "add_permits chk n s = add_permits_locked chk n s" using pos by (auto simp: add_permits_def)
  have three: "run_release 3 chk x = run_release 1 chk (run_release 1 chk (run_release 1 chk x))" for x
    by (simp add: numeral_eq_Suc flip: run_release_add)
  have one: "run_release 1 chk (r, l, s) = (case release_tick chk r (l, s) of None \<Rightarrow> (r, l, s) | Some x \<Rightarrow> x)" for r l s
    by (simp split: option.split)
  consider (put) "select_result n ws (store s) = Putting ?r"
    | (sel) "select_result n ws (store s) =
        Selected (wake_list_of (wakers_of (store s) ws)) (need_words (store s) ws) ?r"
    by (cases "need_words (store s) ws = 0 \<or> wakers_of (store s) ws = []") (simp_all add: select_result_def Let_def)
  then have "run_release 3 chk (select_result n ws (store s), False, ?s) = (Released, False, snd (add_permits chk n s))"
  proof cases
    case put
    with loop have "add_permits_loop n s = Some (Some ?r, ?s)" by simp
    from rest(2) [OF _ this] rest(1) [of ?s] show ?thesis by (simp add: three one put add)
  next
    case sel
    show ?thesis
    proof (cases "is_closed s")
      case True
      with sel loop have "add_permits_loop n s = Some (None, ?s\<lparr>permits := permits s + push_bit PERMIT_SHIFT (need_words (store s) ws)\<rparr>)"
        by simp
      then have "add_permits_locked chk n s = (Done (), ?s\<lparr>permits := permits s + push_bit PERMIT_SHIFT (need_words (store s) ws)\<rparr>)"
        by (simp add: add_permits_locked_def)
      with True show ?thesis by (simp add: three one sel add closed)
    next
      case False
      let ?s1 = "?s\<lparr>woken := woken s @ wakers_of (store s) ws\<rparr>"
      from False sel loop have "add_permits_loop n s = Some (Some ?r, ?s1)" by simp
      from rest(2) [OF _ this] rest(1) [of ?s1] False wake nf show ?thesis
        by (simp add: three one sel add closed del: wake_list_of_tests(3))
    qed
  qed
  then have "release_runs chk (select_result n ws (store s), False, ?s) (Released, False, snd (add_permits chk n s))"
    unfolding release_runs_def by blast
  with sel show ?thesis by (rule release_runs_trans)
qed

lemma release_in_steps:
  assumes inv: "wait_queue_inv (store s) (waiters s)" and bound: "free s + unat n \<le> max_permits"
  shows "release_runs chk (Locking n, False, s) (Released, False, snd (add_permits chk n s))"
proof (cases "n = 0")
  case True
  then have "run_release 2 chk (Locking n, False, s) = (Released, False, snd (add_permits chk n s))"
    by (simp add: numeral_eq_Suc release_put_def add_permits_def)
  then show ?thesis unfolding release_runs_def by blast
next
  case False
  then have "release_tick chk (Locking n) (False, s) = Some (release_enter n (Putting n) s)" by simp
  from release_runs_step [OF this entered_in_steps [OF inv bound]] False show ?thesis by (simp add: word_gt_0)
qed

lemma drop_in_steps:
  assumes inv: "wait_queue_inv (store s) (waiters s)" and bound: "free s + unat (p_permits p) \<le> max_permits"
    and pos: "p_permits p \<noteq> 0"
  shows "release_runs chk (Dropping (ucast (p_permits p)), False, s) (Released, False, snd (drop_permit chk p s))"
proof -
  let ?n = "ucast (p_permits p) :: usize"
  have n: "unat ?n = unat (p_permits p)" by (rule unat_ucast_u32)
  with pos have n0: "?n \<noteq> 0" by (simp add: word_unat_eq_iff)
  show ?thesis
  proof (cases "is_empty (waiters s)")
    case True
    then have "run_release 2 chk (Dropping ?n, False, s) = (Released, False, snd (drop_permit chk p s))"
      using pos by (simp add: numeral_eq_Suc drop_permit_def release_enter_def)
    then show ?thesis unfolding release_runs_def by blast
  next
    case False
    then have "release_tick chk (Dropping ?n) (False, s) = Some (release_enter ?n (Putting ?n) s)"
      by (simp add: release_enter_def)
    from release_runs_step [OF this entered_in_steps [OF inv]] bound n n0
    have "release_runs chk (Dropping ?n, False, s) (Released, False, snd (add_permits chk ?n s))"
      by (simp add: word_gt_0)
    moreover have "add_permits chk ?n s = drop_permit chk p s"
      using False pos n0 by (simp add: drop_permit_def add_permits_def)
    ultimately show ?thesis by simp
  qed
qed

end
