(* ===== verification/Picking_Inv.thy ===== *)
theory Picking_Inv
  imports Task_Inv Picking
begin

text \<open>
  What one step of a selection does, whatever happened to the waiters since the step before. The
  queue a selection is working on is taken apart (the queue of the current priority is borrowed, its
  priority is off the heap), so the invariant is stated of \<open>pick_view\<close>, the queue as it would be if the
  selection stopped here.
\<close>

section \<open>Queues with the same waiters\<close>

text \<open>\<open>q'\<close> has the queues of \<open>q\<close>; its map may be laid out differently and its heap may differ.\<close>

definition same_queues :: "wait_queue \<Rightarrow> wait_queue \<Rightarrow> bool" where
  "same_queues q q' \<longleftrightarrow> distinct_keys (priority_queues q') \<and>
     (\<forall>p. queue_of (priority_queues q') p = queue_of (priority_queues q) p) \<and>
     (\<forall>p. queue_of (priority_queues q') p \<noteq> [] \<longrightarrow> p \<in> set (active_priorities q')) \<and>
     total_waiters q' = total_waiters q"

lemma all_waiters_queues:
  "distinct_keys m \<Longrightarrow> distinct_keys m' \<Longrightarrow> (\<And>p. queue_of m' p = queue_of m p) \<Longrightarrow>
   mset (all_waiters m') = mset (all_waiters m)"
proof (induction m arbitrary: m')
  case Nil
  have "set (all_waiters m') = {}" using set_all_waiters [OF Nil(2)] Nil(3) by simp
  then show ?case by simp
next
  case (Cons x m)
  obtain p ws where x: "x = (p, ws)" by (rule prod.exhaust)
  then have "queue_of m p = []" using Cons.prems(1) by (simp add: map_of_eq_None_iff)
  then have "mset (all_waiters (AList.delete p m')) = mset (all_waiters m)"
    using Cons.prems x by (intro Cons.IH) (simp_all add: distinct_delete queue_simps queue_of_Cons)
  with mset_all_waiters_delete [OF Cons.prems(2), of p] Cons.prems(3) [of p] x show ?case
    by (simp add: queue_of_Cons ac_simps)
qed

lemma same_queues_inv:
  assumes inv: "wait_queue_inv \<sigma> q" and same: "same_queues q q'"
  shows "wait_queue_inv \<sigma> q'" "queued q' = queued q"
    and "length (all_waiters (priority_queues q')) = length (all_waiters (priority_queues q))"
proof -
  have ms: "mset (all_waiters (priority_queues q')) = mset (all_waiters (priority_queues q))"
    using inv same by (intro all_waiters_queues) (auto simp: wait_queue_inv_def queued_ok_def same_queues_def)
  show "queued q' = queued q" using arg_cong [OF ms, of set_mset] by (simp add: queued_def)
  show len: "length (all_waiters (priority_queues q')) = length (all_waiters (priority_queues q))"
    using arg_cong [OF ms, of size] by simp
  have "distinct (all_waiters (priority_queues q'))"
    using inv distinct_mset_eq [OF ms [symmetric]] by (auto simp: wait_queue_inv_def queued_ok_def)
  with inv same len show "wait_queue_inv \<sigma> q'"
    by (auto simp: wait_queue_inv_def queued_ok_def same_queues_def)
qed

lemma same_queues_refl: "wait_queue_inv \<sigma> q \<Longrightarrow> same_queues q q"
  by (auto simp: same_queues_def wait_queue_inv_def queued_ok_def)

lemma distinct_keys_update: "distinct_keys (AList.update p ws m) \<longleftrightarrow> distinct_keys m"
  by (auto simp: update_keys)

text \<open>Taking one waiter out of the queue.\<close>

lemma remove_waiter_eq:
  assumes inv: "wait_queue_inv \<sigma> q" and w: "w \<in> set (queue_of (priority_queues q) p)"
  shows "remove_waiter \<sigma> w q = q\<lparr>
      priority_queues := AList.update p (remove1 w (queue_of (priority_queues q) p)) (priority_queues q),
      total_waiters := total_waiters q - 1\<rparr>"
    and "0 < total_waiters q" "w \<in> queued q"
    and "length (all_waiters (priority_queues (remove_waiter \<sigma> w q))) < length (all_waiters (priority_queues q))"
proof -
  let ?m = "priority_queues q" and ?q = "remove_waiter \<sigma> w q"
  have prio: "priority (\<sigma> w) = p" using inv w by (auto simp: wait_queue_inv_def queued_ok_def)
  show eq: "?q = q\<lparr>priority_queues := AList.update p (remove1 w (queue_of ?m p)) ?m,
      total_waiters := total_waiters q - 1\<rparr>"
    using w prio by (auto simp: remove_waiter_def Let_def queue_of_def split: option.splits)
  show q: "w \<in> queued q" using w queue_of_subset by (auto simp: queued_def)
  then show pos: "0 < total_waiters q"
    using inv length_pos_if_in_set [of w "all_waiters ?m"] by (simp add: wait_queue_inv_def queued_def)
  have "total_waiters ?q = length (all_waiters (priority_queues ?q))" "total_waiters q = length (all_waiters ?m)"
    using remove_waiter_inv(1) [OF inv, of w] inv by (simp_all add: wait_queue_inv_def)
  moreover have "total_waiters ?q = total_waiters q - 1" by (simp add: eq)
  ultimately show "length (all_waiters (priority_queues ?q)) < length (all_waiters ?m)" using pos by linarith
qed

section \<open>The queue as a selection leaves it\<close>

text \<open>The queue with \<open>ws\<close> as the rest of the current one, which is put back, and \<open>n\<close> waiters in all.\<close>

definition put_back :: "picking \<Rightarrow> wid list \<Rightarrow> nat \<Rightarrow> wait_queue" where
  "put_back pk ws n = (pk_self pk)\<lparr>
     priority_queues := AList.update (pk_priority pk) ws (priority_queues (pk_self pk)),
     active_priorities := pk_priority pk # pk_restore pk @ active_priorities (pk_self pk),
     total_waiters := n\<rparr>"

definition pick_view :: "picking \<Rightarrow> wait_queue" where
  "pick_view pk =
     (case pk_at pk of
        Picked \<Rightarrow> pk_self pk
      | Outer \<Rightarrow> (pk_self pk)\<lparr>active_priorities := pk_restore pk @ active_priorities (pk_self pk)\<rparr>
      | Sweep kept todo \<Rightarrow> put_back pk (kept @ todo)
          (total_waiters (pk_self pk) - (length (pk_queue pk) - (length kept + length todo)))
      | _ \<Rightarrow> put_back pk (pk_queue pk) (total_waiters (pk_self pk)))"

text \<open>What holds of the locals.\<close>

definition pick_ok :: "store \<Rightarrow> picking \<Rightarrow> bool" where
  "pick_ok \<sigma> pk \<longleftrightarrow> wake_list_ok (pk_wakes pk) \<and>
     (pk_single pk \<and> pk_at pk \<noteq> Picked \<longrightarrow> queue_of (priority_queues (pk_self pk)) (pk_priority pk) = [] \<and> pk_restore pk = []) \<and>
     (case pk_at pk of
        Outer \<Rightarrow> \<not> pk_single pk
      | Front \<Rightarrow> True
      | Notify w \<Rightarrow> (\<exists>q. pk_queue pk = w # q) \<and> permits_needed (\<sigma> w) \<le> pk_avail pk \<and> can_push (pk_wakes pk)
      | Take w \<Rightarrow> \<not> is_waiting (\<sigma> w) \<and> can_push (pk_wakes pk)
      | Sweep kept todo \<Rightarrow> \<not> pk_single pk \<and> length kept + length todo \<le> length (pk_queue pk) \<and>
          length (pk_queue pk) - (length kept + length todo) \<le> total_waiters (pk_self pk)
      | Picked \<Rightarrow> True)"

text \<open>
  The effect of a step: on nothing but the locals; a cancelled waiter leaves the queue; a waiting one
  leaves it and is notified; one that was cancelled since the look leaves it, and its permits are
  counted as assigned all the same; a waker is taken.
\<close>

inductive pick_effect :: "picking \<Rightarrow> store \<Rightarrow> picking \<Rightarrow> store \<Rightarrow> bool" where
  quiet: "\<forall>w. pk_at pk \<noteq> Notify w \<Longrightarrow> same_queues (pick_view pk) (pick_view pk') \<Longrightarrow> pk_avail pk' = pk_avail pk \<Longrightarrow> pick_effect pk \<sigma> pk' \<sigma>"
| discard: "\<forall>w. pk_at pk \<noteq> Notify w \<Longrightarrow> w \<in> queued (pick_view pk) \<Longrightarrow> is_cancelled (\<sigma> w) \<Longrightarrow>
    same_queues (remove_waiter \<sigma> w (pick_view pk)) (pick_view pk') \<Longrightarrow> pk_avail pk' = pk_avail pk \<Longrightarrow>
    pick_effect pk \<sigma> pk' \<sigma>"
| notified: "pk_at pk = Notify w \<Longrightarrow> w \<in> queued (pick_view pk) \<Longrightarrow> is_waiting (\<sigma> w) \<Longrightarrow>
    same_queues (remove_waiter \<sigma> w (pick_view pk)) (pick_view pk') \<Longrightarrow>
    permits_needed (\<sigma> w) \<le> pk_avail pk \<Longrightarrow> pk_avail pk' = pk_avail pk - permits_needed (\<sigma> w) \<Longrightarrow>
    pick_effect pk \<sigma> pk' (\<sigma>(w := (\<sigma> w)\<lparr>state := NOTIFIED\<rparr>))"
| missed: "pk_at pk = Notify w \<Longrightarrow> w \<in> queued (pick_view pk) \<Longrightarrow> is_cancelled (\<sigma> w) \<Longrightarrow>
    same_queues (remove_waiter \<sigma> w (pick_view pk)) (pick_view pk') \<Longrightarrow>
    permits_needed (\<sigma> w) \<le> pk_avail pk \<Longrightarrow> pk_avail pk' = pk_avail pk - permits_needed (\<sigma> w) \<Longrightarrow>
    pick_effect pk \<sigma> pk' \<sigma>"
| taken: "\<not> is_waiting (\<sigma> w) \<Longrightarrow> same_queues (pick_view pk) (pick_view pk') \<Longrightarrow> pk_avail pk' = pk_avail pk \<Longrightarrow>
    pk_at pk = Take w \<Longrightarrow> pick_effect pk \<sigma> pk' (\<sigma>(w := (\<sigma> w)\<lparr>waker := None\<rparr>))"

section \<open>The loops over queues and priorities\<close>

lemma put_back_queues [simp]:
  "queue_of (priority_queues (put_back pk ws n)) p =
     (if p = pk_priority pk then ws else queue_of (priority_queues (pk_self pk)) p)"
  "active_priorities (put_back pk ws n) = pk_priority pk # pk_restore pk @ active_priorities (pk_self pk)"
  "total_waiters (put_back pk ws n) = n"
  by (simp_all add: put_back_def queue_simps)

lemma put_back_cong:
  assumes "pk_self pk' = (pk_self pk)\<lparr>total_waiters := t\<rparr>" "pk_priority pk' = pk_priority pk"
    "pk_restore pk' = pk_restore pk"
  shows "put_back pk' ws n = put_back pk ws n"
  using assms by (simp add: put_back_def)

lemma put_back_inv:
  assumes "wait_queue_inv \<sigma> (put_back pk ws n)"
  shows "distinct_keys (priority_queues (pk_self pk))" "distinct ws"
    and "p \<noteq> pk_priority pk \<Longrightarrow> queue_of (priority_queues (pk_self pk)) p \<noteq> [] \<Longrightarrow>
      p \<in> set (pk_restore pk @ active_priorities (pk_self pk))"
    and "w \<in> set ws \<Longrightarrow> is_waiting (\<sigma> w) \<or> is_cancelled (\<sigma> w)"
proof -
  have ok: "queued_ok \<sigma> (priority_queues (put_back pk ws n))" using assms by (simp add: wait_queue_inv_def)
  then have "distinct_keys (priority_queues (put_back pk ws n))" by (rule queued_okD(1))
  then show "distinct_keys (priority_queues (pk_self pk))"
    unfolding put_back_def by (simp add: distinct_keys_update)
  show "distinct ws" using queued_okD(3) [OF ok, of "pk_priority pk"] by simp
  show "is_waiting (\<sigma> w) \<or> is_cancelled (\<sigma> w)" if "w \<in> set ws"
    using that ok by (auto simp: queued_ok_def dest!: spec [of _ "pk_priority pk"])
  show "p \<in> set (pk_restore pk @ active_priorities (pk_self pk))"
    if "p \<noteq> pk_priority pk" "queue_of (priority_queues (pk_self pk)) p \<noteq> []"
    using assms that by (auto simp: wait_queue_inv_def dest!: spec [of _ p])
qed

lemma put_back_remove:
  assumes inv: "wait_queue_inv \<sigma> (put_back pk ws n)" and w: "w \<in> set ws"
    and pk': "pk_self pk' = (pk_self pk)\<lparr>total_waiters := t\<rparr>" "pk_priority pk' = pk_priority pk"
      "pk_restore pk' = pk_restore pk"
  shows "same_queues (remove_waiter \<sigma> w (put_back pk ws n)) (put_back pk' (remove1 w ws) (n - 1))"
    and "w \<in> queued (put_back pk ws n)" "0 < n"
proof -
  let ?q = "put_back pk ws n"
  have "w \<in> set (queue_of (priority_queues ?q) (pk_priority pk))" using w by simp
  note R = remove_waiter_eq [OF inv this]
  then show "w \<in> queued ?q" "0 < n" by simp_all
  have "distinct_keys (priority_queues (put_back pk (remove1 w ws) (n - 1)))"
    using put_back_inv(1) [OF inv] unfolding put_back_def by (simp add: distinct_keys_update)
  moreover have "p \<in> set (active_priorities ?q)" if "queue_of (priority_queues (put_back pk (remove1 w ws) (n - 1))) p \<noteq> []" for p
    using that put_back_inv(3) [OF inv, of p] by (auto split: if_splits)
  ultimately show "same_queues (remove_waiter \<sigma> w ?q) (put_back pk' (remove1 w ws) (n - 1))"
    unfolding put_back_cong [OF pk'] by (auto simp: same_queues_def R(1) queue_simps)
qed

lemma pick_leave_keeps:
  assumes at: "pk_at pk = Front" and inv: "wait_queue_inv \<sigma> (pick_view pk)" and ok: "pick_ok \<sigma> pk"
  shows "same_queues (pick_view pk) (pick_view (pick_leave pk))" "pick_ok \<sigma> (pick_leave pk)"
    and "pk_avail (pick_leave pk) = pk_avail pk"
proof -
  let ?n = "total_waiters (pk_self pk)"
  have view: "pick_view pk = put_back pk (pk_queue pk) ?n" using at by (simp add: pick_view_def)
  note B = put_back_inv [OF inv [unfolded view]]
  have single: "queue_of (priority_queues (pk_self pk)) (pk_priority pk) = []" "pk_restore pk = []"
    if "pk_single pk" using ok at that by (simp_all add: pick_ok_def)
  show "pk_avail (pick_leave pk) = pk_avail pk" by (simp add: pick_leave_def)
  show "pick_ok \<sigma> (pick_leave pk)" using ok by (simp add: pick_leave_def pick_ok_def)
  consider "pk_single pk" "pk_queue pk = []" | "pk_single pk" "pk_queue pk \<noteq> []" | "\<not> pk_single pk" by blast
  then show "same_queues (pick_view pk) (pick_view (pick_leave pk))"
  proof cases
    case 1
    have "p \<in> set (active_priorities (pk_self pk))" if "queue_of (priority_queues (pk_self pk)) p \<noteq> []" for p
      using that B(3) [of p] single 1 by (cases "p = pk_priority pk") auto
    then show ?thesis using 1 B(1) single view
      by (auto simp: same_queues_def pick_view_def pick_leave_def)
  next
    case 2
    then have "pick_view (pick_leave pk) = pick_view pk"
      using single view by (simp add: pick_view_def pick_leave_def put_back_def)
    then show ?thesis using same_queues_refl [OF inv] by simp
  next
    case 3
    then have "pick_view (pick_leave pk) = pick_view pk"
      using view by (simp add: pick_view_def pick_leave_def put_back_def)
    then show ?thesis using same_queues_refl [OF inv] by simp
  qed
qed

lemma pick_finish_keeps:
  assumes at: "pk_at pk = Outer" and inv: "wait_queue_inv \<sigma> (pick_view pk)" and ok: "pick_ok \<sigma> pk"
  shows "same_queues (pick_view pk) (pick_view (pick_finish pk))" "pick_ok \<sigma> (pick_finish pk)"
    and "pk_avail (pick_finish pk) = pk_avail pk"
proof -
  show "same_queues (pick_view pk) (pick_view (pick_finish pk))"
    using inv at by (auto simp: same_queues_def pick_view_def pick_finish_def wait_queue_inv_def queued_ok_def
        fold_Cons_rev)
qed (use ok in \<open>simp_all add: pick_finish_def pick_ok_def\<close>)

lemma pick_outer_keeps:
  assumes at: "pk_at pk = Outer" and inv: "wait_queue_inv \<sigma> (pick_view pk)" and ok: "pick_ok \<sigma> pk"
  shows "\<exists>pk'. pick_outer pk \<sigma> = Some pk' \<and> same_queues (pick_view pk) (pick_view pk') \<and> pick_ok \<sigma> pk' \<and>
    pk_avail pk' = pk_avail pk"
proof -
  let ?m = "priority_queues (pk_self pk)" and ?act = "active_priorities (pk_self pk)"
  note F = pick_finish_keeps [OF at inv ok]
  have finish: ?thesis if "pick_outer pk \<sigma> = Some (pick_finish pk)" using that F by blast
  show ?thesis
  proof (cases "heap_peek ?act")
    case None
    then show ?thesis by (intro finish) (simp add: pick_outer_def)
  next
    case (Some p)
    note act = set_heap_pop [OF Some]
    have keys: "distinct_keys ?m" using inv at by (simp add: pick_view_def wait_queue_inv_def queued_ok_def)
    have cover: "q \<noteq> p \<Longrightarrow> queue_of ?m q \<noteq> [] \<Longrightarrow> q \<in> set (pk_restore pk @ heap_pop ?act)" for q
      using inv at act by (auto simp: pick_view_def wait_queue_inv_def queued_ok_def)
    consider (full) "pk_avail pk = 0 \<or> \<not> can_push (pk_wakes pk)"
      | (stale) "pk_avail pk \<noteq> 0" "can_push (pk_wakes pk)" "queue_of ?m p = []"
      | (large) first rest where "pk_avail pk \<noteq> 0" "can_push (pk_wakes pk)" "map_of ?m p = Some (first # rest)"
          "permits_needed (\<sigma> first) > pk_avail pk"
      | (fits) first rest where "pk_avail pk \<noteq> 0" "can_push (pk_wakes pk)" "map_of ?m p = Some (first # rest)"
          "\<not> permits_needed (\<sigma> first) > pk_avail pk"
      by (cases "queue_of ?m p") (auto simp: queue_of_def split: option.splits)
    then show ?thesis
    proof cases
      case full
      with Some show ?thesis by (intro finish) (auto simp: pick_outer_def)
    next
      case stale
      let ?pk = "pk\<lparr>pk_self := (pk_self pk)\<lparr>active_priorities := heap_pop ?act\<rparr>\<rparr>"
      have "pick_outer pk \<sigma> = Some ?pk" using Some stale by (simp add: pick_outer_def Let_def)
      moreover have "same_queues (pick_view pk) (pick_view ?pk)"
        using at cover stale keys by (auto simp: same_queues_def pick_view_def) metis
      moreover have "pick_ok \<sigma> ?pk" using ok at by (simp add: pick_ok_def)
      ultimately show ?thesis by (intro exI [of _ ?pk]) simp
    next
      case large
      with Some show ?thesis by (intro finish) (auto simp: pick_outer_def)
    next
      case (fits first rest)
      let ?pk = "pk\<lparr>pk_at := Front, pk_priority := p, pk_queue := first # rest, pk_any := False,
        pk_self := (pk_self pk)\<lparr>active_priorities := heap_pop ?act\<rparr>\<rparr>"
      have "pick_outer pk \<sigma> = Some ?pk" using Some fits by (simp add: pick_outer_def Let_def)
      moreover have "same_queues (pick_view pk) (pick_view ?pk)"
      proof -
        have "pick_view ?pk = put_back ?pk (first # rest) (total_waiters (pk_self pk))" by (simp add: pick_view_def)
        moreover have "distinct_keys (priority_queues (put_back ?pk (first # rest) n))" for n
          using keys unfolding put_back_def by (simp add: distinct_keys_update)
        ultimately show ?thesis
          using at cover fits by (auto simp: same_queues_def pick_view_def split: if_splits)
      qed
      moreover have "pick_ok \<sigma> ?pk" using ok at by (simp add: pick_ok_def)
      ultimately show ?thesis by (intro exI [of _ ?pk]) simp
    qed
  qed
qed

lemma pick_swept_keeps:
  assumes at: "pk_at pk = Sweep kept []" and inv: "wait_queue_inv \<sigma> (pick_view pk)" and ok: "pick_ok \<sigma> pk"
  shows "same_queues (pick_view pk) (pick_view (pick_swept kept pk))" "pick_ok \<sigma> (pick_swept kept pk)"
    and "pk_avail (pick_swept kept pk) = pk_avail pk"
proof -
  let ?n = "total_waiters (pk_self pk) - (length (pk_queue pk) - length kept)"
  let ?pk = "pk\<lparr>pk_at := Outer, pk_queue := [],
     pk_self := (pk_self pk)\<lparr>priority_queues := AList.update (pk_priority pk) kept (priority_queues (pk_self pk)),
       total_waiters := ?n\<rparr>,
     pk_restore := (if kept \<noteq> [] then pk_restore pk @ [pk_priority pk] else pk_restore pk)\<rparr>"
  have le: "length (pk_queue pk) - length kept \<le> total_waiters (pk_self pk)" "\<not> pk_single pk"
    using ok at by (simp_all add: pick_ok_def)
  then have eq: "pick_swept kept pk = (if pk_any pk \<and> \<not> can_push (pk_wakes pk) then pick_finish ?pk else ?pk)"
    by (simp add: pick_swept_def Let_def)
  have view: "pick_view pk = put_back pk kept ?n" using at by (simp add: pick_view_def)
  note B = put_back_inv [OF inv [unfolded view]]
  have "pick_view ?pk = (pk_self ?pk)\<lparr>active_priorities := pk_restore ?pk @ active_priorities (pk_self pk)\<rparr>"
    by (simp add: pick_view_def)
  then have same: "same_queues (pick_view pk) (pick_view ?pk)"
    using B(1) B(3) unfolding view by (auto simp: same_queues_def queue_simps distinct_keys_update)
  have ok': "pick_ok \<sigma> ?pk" using ok at le by (simp add: pick_ok_def)
  note F = pick_finish_keeps [OF _ same_queues_inv(1) [OF inv same] ok']
  have "same_queues (pick_view pk) (pick_view (pick_finish ?pk))"
    using same F(1) by (simp add: same_queues_def)
  with same show "same_queues (pick_view pk) (pick_view (pick_swept kept pk))" by (simp add: eq)
  show "pick_ok \<sigma> (pick_swept kept pk)" using ok' F(2) by (simp add: eq)
  show "pk_avail (pick_swept kept pk) = pk_avail pk" by (simp add: eq pick_finish_def)
qed

section \<open>One step\<close>

text \<open>The first waiter leaves the queue.\<close>

lemma pick_pop_keeps:
  assumes view: "pick_view pk = put_back pk (w # q) (total_waiters (pk_self pk))" and q: "pk_queue pk = w # q"
    and inv: "wait_queue_inv \<sigma> (pick_view pk)"
  obtains pk1 where "pick_pop pk = Some pk1" "pk_queue pk1 = q" "pk_wakes pk1 = pk_wakes pk"
    "pk_single pk1 = pk_single pk" "pk_avail pk1 = pk_avail pk" "pk_at pk1 = pk_at pk" "pk_any pk1 = pk_any pk"
    "pk_priority pk1 = pk_priority pk" "pk_restore pk1 = pk_restore pk"
    "priority_queues (pk_self pk1) = priority_queues (pk_self pk)"
    "same_queues (remove_waiter \<sigma> w (pick_view pk)) (put_back pk1 q (total_waiters (pk_self pk1)))"
    "w \<in> queued (pick_view pk)"
proof -
  let ?pk1 = "pk\<lparr>pk_queue := q, pk_self := (pk_self pk)\<lparr>total_waiters := total_waiters (pk_self pk) - 1\<rparr>\<rparr>"
  note R = put_back_remove [OF inv [unfolded view], of w ?pk1 "total_waiters (pk_self pk) - 1"]
  have "pick_pop pk = Some ?pk1" using R(3) q by (simp add: pick_pop_def)
  then show thesis by (rule that) (use R view in simp_all)
qed

lemma pick_front_keeps:
  assumes at: "pk_at pk = Front" and inv: "wait_queue_inv \<sigma> (pick_view pk)" and ok: "pick_ok \<sigma> pk"
  shows "\<exists>pk'. pick_front pk \<sigma> = Some pk' \<and> pick_effect pk \<sigma> pk' \<sigma> \<and> pick_ok \<sigma> pk'"
proof -
  have leave: ?thesis if "pick_front pk \<sigma> = Some (pick_leave pk)"
    using that pick_leave_keeps [OF at inv ok] at by (auto intro: pick_effect.quiet)
  have view: "pick_view pk = put_back pk (pk_queue pk) (total_waiters (pk_self pk))"
    using at by (simp add: pick_view_def)
  show ?thesis
  proof (cases "pk_queue pk")
    case Nil
    then show ?thesis by (intro leave) (simp add: pick_front_def)
  next
    case (Cons w q)
    consider (stop) "\<not> can_push (pk_wakes pk) \<or> pk_avail pk = 0 \<or>
          permits_needed (\<sigma> w) > pk_avail pk \<and> (\<not> pk_single pk \<or> \<not> is_cancelled (\<sigma> w))"
      | (cancelled) "can_push (pk_wakes pk)" "pk_avail pk \<noteq> 0" "is_cancelled (\<sigma> w)"
          "pk_single pk \<or> \<not> permits_needed (\<sigma> w) > pk_avail pk"
      | (notify) "can_push (pk_wakes pk)" "pk_avail pk \<noteq> 0" "\<not> is_cancelled (\<sigma> w)"
          "\<not> permits_needed (\<sigma> w) > pk_avail pk" by blast
    then show ?thesis
    proof cases
      case stop
      with Cons show ?thesis by (intro leave) (auto simp: pick_front_def)
    next
      case cancelled
      obtain pk1 where P: "pick_pop pk = Some pk1" "pk_queue pk1 = q" "pk_wakes pk1 = pk_wakes pk"
        "pk_single pk1 = pk_single pk" "pk_avail pk1 = pk_avail pk" "pk_at pk1 = pk_at pk"
        "pk_any pk1 = pk_any pk" "pk_priority pk1 = pk_priority pk" "pk_restore pk1 = pk_restore pk"
        "priority_queues (pk_self pk1) = priority_queues (pk_self pk)"
        "same_queues (remove_waiter \<sigma> w (pick_view pk)) (put_back pk1 q (total_waiters (pk_self pk1)))"
        "w \<in> queued (pick_view pk)"
        using pick_pop_keeps [OF _ Cons inv] view Cons by metis
      have "pick_front pk \<sigma> = Some pk1" using Cons cancelled P(1) by (auto simp: pick_front_def)
      moreover have "pick_view pk1 = put_back pk1 q (total_waiters (pk_self pk1))"
        using P(2,6) at by (simp add: pick_view_def)
      then have "pick_effect pk \<sigma> pk1 \<sigma>" using P(5,11,12) cancelled(3) at by (auto intro: pick_effect.discard)
      moreover have "pick_ok \<sigma> pk1" using ok at P(3,4,6,8-10) by (simp add: pick_ok_def)
      ultimately show ?thesis by blast
    next
      case notify
      let ?pk = "pk\<lparr>pk_at := Notify w\<rparr>"
      have "pick_front pk \<sigma> = Some ?pk" using Cons notify by (simp add: pick_front_def)
      moreover have "pick_view ?pk = pick_view pk" using view by (simp add: pick_view_def put_back_def)
      then have "pick_effect pk \<sigma> ?pk \<sigma>" using same_queues_refl [OF inv] at by (intro pick_effect.quiet) simp_all
      moreover have "pick_ok \<sigma> ?pk" using ok at Cons notify by (simp add: pick_ok_def not_less)
      ultimately show ?thesis by blast
    qed
  qed
qed

lemma pick_notify_keeps:
  assumes at: "pk_at pk = Notify w" and inv: "wait_queue_inv \<sigma> (pick_view pk)" and ok: "pick_ok \<sigma> pk"
  shows "\<exists>pk' \<sigma>'. pick_notify w pk \<sigma> = Some (pk', \<sigma>') \<and> pick_effect pk \<sigma> pk' \<sigma>' \<and> pick_ok \<sigma>' pk'"
proof -
  obtain q where q: "pk_queue pk = w # q" and n: "permits_needed (\<sigma> w) \<le> pk_avail pk" "can_push (pk_wakes pk)"
    using ok at by (auto simp: pick_ok_def)
  have view: "pick_view pk = put_back pk (w # q) (total_waiters (pk_self pk))"
    using at q by (simp add: pick_view_def)
  obtain pk1 where P: "pick_pop pk = Some pk1" "pk_queue pk1 = q" "pk_wakes pk1 = pk_wakes pk"
    "pk_single pk1 = pk_single pk" "pk_avail pk1 = pk_avail pk" "pk_at pk1 = pk_at pk"
    "pk_any pk1 = pk_any pk" "pk_priority pk1 = pk_priority pk" "pk_restore pk1 = pk_restore pk"
    "priority_queues (pk_self pk1) = priority_queues (pk_self pk)"
    "same_queues (remove_waiter \<sigma> w (pick_view pk)) (put_back pk1 q (total_waiters (pk_self pk1)))"
    "w \<in> queued (pick_view pk)"
    using pick_pop_keeps [OF view q inv] by metis
  have state: "is_waiting (\<sigma> w) \<or> is_cancelled (\<sigma> w)" using queued_waits [OF inv P(12)] .
  let ?pk = "pk1\<lparr>pk_at := (if is_waiting (\<sigma> w) then Take w else Front), pk_any := pk_any pk \<or> \<not> pk_single pk,
    pk_avail := pk_avail pk - permits_needed (\<sigma> w), pk_assigned := pk_assigned pk + permits_needed (\<sigma> w)\<rparr>"
  let ?\<sigma> = "if is_waiting (\<sigma> w) then \<sigma>(w := (\<sigma> w)\<lparr>state := NOTIFIED\<rparr>) else \<sigma>"
  have "pick_notify w pk \<sigma> = Some (?pk, ?\<sigma>)"
    using P(1) by (simp add: pick_notify_def try_notify_cases Let_def)
  moreover have "pick_view ?pk = put_back pk1 q (total_waiters (pk_self pk1))"
    using P(2) by (auto simp: pick_view_def put_back_def)
  then have "pick_effect pk \<sigma> ?pk ?\<sigma>"
    using at n P(11,12) state by (auto intro: pick_effect.notified pick_effect.missed)
  moreover have "pick_ok ?\<sigma> ?pk"
    using ok at n P(3,4,8-10) by (simp add: pick_ok_def is_waiting_def)
  ultimately show ?thesis by blast
qed

lemma pick_take_keeps:
  assumes at: "pk_at pk = Take w" and inv: "wait_queue_inv \<sigma> (pick_view pk)" and ok: "pick_ok \<sigma> pk"
  shows "\<exists>pk' \<sigma>'. pick_take w pk \<sigma> = Some (pk', \<sigma>') \<and> pick_effect pk \<sigma> pk' \<sigma>' \<and> pick_ok \<sigma>' pk'"
proof -
  have n: "\<not> is_waiting (\<sigma> w)" "can_push (pk_wakes pk)" "wake_list_ok (pk_wakes pk)"
    using ok at by (simp_all add: pick_ok_def)
  then obtain ws where ws: "pk_wakes pk = wake_list_of ws" "length ws < NUM_WAKERS"
    by (auto elim: wake_list_okE)
  let ?l = "wake_list_of (ws @ wake_by_ref_under_lock (waker (\<sigma> w)))"
  let ?pk = "pk\<lparr>pk_at := Front, pk_wakes := ?l\<rparr>" and ?\<sigma> = "\<sigma>(w := (\<sigma> w)\<lparr>waker := None\<rparr>)"
  have "pk\<lparr>pk_at := Front\<rparr> = ?pk" if "waker (\<sigma> w) = None"
    using that ws(1) by (cases pk) (simp add: wake_by_ref_under_lock_def)
  then have "pick_take w pk \<sigma> = Some (?pk, ?\<sigma>)"
    using ws by (cases "waker (\<sigma> w)")
      (simp_all add: pick_take_def take_waker_eq push_unchecked_eq_push push_of wake_by_ref_under_lock_def)
  moreover have "pick_view ?pk = pick_view pk" using at by (simp add: pick_view_def put_back_def)
  then have "pick_effect pk \<sigma> ?pk ?\<sigma>"
    using at n(1) same_queues_refl [OF inv] by (intro pick_effect.taken) simp_all
  moreover have "pick_ok ?\<sigma> ?pk"
    using ok at ws(2) by (simp add: pick_ok_def wake_by_ref_under_lock_def split: option.split)
  ultimately show ?thesis by blast
qed

lemma pick_sweep_keeps:
  assumes at: "pk_at pk = Sweep kept (w # todo)" and inv: "wait_queue_inv \<sigma> (pick_view pk)" and ok: "pick_ok \<sigma> pk"
    and pk': "pk' = pk\<lparr>pk_at := Sweep (if is_cancelled (\<sigma> w) then kept else kept @ [w]) todo\<rparr>"
  shows "pick_effect pk \<sigma> pk' \<sigma> \<and> pick_ok \<sigma> pk'"
proof -
  let ?n = "total_waiters (pk_self pk) - (length (pk_queue pk) - (length kept + length (w # todo)))"
  have view: "pick_view pk = put_back pk (kept @ w # todo) ?n" using at by (simp add: pick_view_def)
  have le: "length kept + length (w # todo) \<le> length (pk_queue pk)"
    using ok at by (simp add: pick_ok_def)
  have "w \<in> set (kept @ w # todo)" by simp
  note R = put_back_remove [OF inv [unfolded view] this, of pk' "total_waiters (pk_self pk)"]
  show ?thesis
  proof (cases "is_cancelled (\<sigma> w)")
    case True
    then have pk'_eq: "pk' = pk\<lparr>pk_at := Sweep kept todo\<rparr>" by (simp add: pk')
    have "w \<notin> set kept" using put_back_inv(2) [OF inv [unfolded view]] by simp
    then have "remove1 w (kept @ w # todo) = kept @ todo" by (simp add: remove1_append)
    moreover have "?n - 1 = total_waiters (pk_self pk) - (length (pk_queue pk) - (length kept + length todo))"
      using le by simp
    then have "pick_view pk' = put_back pk' (kept @ todo) (?n - 1)" by (simp add: pk'_eq pick_view_def)
    moreover have "pk_self pk' = (pk_self pk)\<lparr>total_waiters := total_waiters (pk_self pk)\<rparr>" "pk_priority pk' = pk_priority pk"
      "pk_restore pk' = pk_restore pk" "pk_avail pk' = pk_avail pk" by (simp_all add: pk'_eq)
    ultimately have "pick_effect pk \<sigma> pk' \<sigma>"
      using R True view at by (intro pick_effect.discard [of _ w]) simp_all
    moreover have "pick_ok \<sigma> pk'"
      using ok at le R(3) by (auto simp: pick_ok_def pk'_eq)
    ultimately show ?thesis by blast
  next
    case False
    then have "pick_view pk' = pick_view pk" by (simp add: pk' view) (simp add: pick_view_def put_back_def)
    moreover have "pick_ok \<sigma> pk'" using ok at False by (simp add: pick_ok_def pk')
    ultimately show ?thesis
      using same_queues_refl [OF inv] at by (auto intro!: pick_effect.quiet simp: pk')
  qed
qed

lemma pick_step_keeps:
  assumes inv: "wait_queue_inv \<sigma> (pick_view pk)" and ok: "pick_ok \<sigma> pk" and at: "pk_at pk \<noteq> Picked"
  shows "\<exists>pk' \<sigma>'. pick_step pk \<sigma> = Some (pk', \<sigma>') \<and> pick_effect pk \<sigma> pk' \<sigma>' \<and> pick_ok \<sigma>' pk'"
proof (cases "pk_at pk")
  case Outer
  with pick_outer_keeps [OF Outer inv ok] show ?thesis
    by (auto simp: pick_step_def intro!: pick_effect.quiet)
next
  case Front
  with pick_front_keeps [OF Front inv ok] show ?thesis by (auto simp: pick_step_def)
next
  case (Notify w)
  with pick_notify_keeps [OF Notify inv ok] show ?thesis by (auto simp: pick_step_def)
next
  case (Take w)
  with pick_take_keeps [OF Take inv ok] show ?thesis by (auto simp: pick_step_def)
next
  case (Sweep kept todo)
  show ?thesis
  proof (cases todo)
    case Nil
    with Sweep pick_swept_keeps [OF _ inv ok, of kept] show ?thesis
      by (auto simp: pick_step_def intro!: pick_effect.quiet)
  next
    case (Cons w ws)
    with Sweep pick_sweep_keeps [OF _ inv ok refl, of kept w ws] show ?thesis
      by (auto simp: pick_step_def)
  qed
qed (use at in simp)

section \<open>The start of a selection\<close>

lemma pick_start_keeps:
  assumes inv: "wait_queue_inv \<sigma> q"
  shows "same_queues q (pick_view (pick_start n q))" "pick_ok \<sigma> (pick_start n q)"
    and "pk_avail (pick_start n q) = n"
    and "length (active_priorities (pick_view (pick_start n q))) \<le> length (active_priorities q)"
proof -
  let ?pk = "pick_start n q" and ?m = "priority_queues q"
  note refl = same_queues_refl [OF inv]
  show "pk_avail ?pk = n" by (simp add: pick_start_def Let_def split: option.split)
  have "wake_list_ok wake_list_new" by (simp add: wake_list_new_of)
  consider (none) "n = 0 \<or> total_waiters q = 0"
    | (single) p where "n \<noteq> 0" "total_waiters q \<noteq> 0" "active_priorities q = [p]"
    | (many) "n \<noteq> 0" "total_waiters q \<noteq> 0" "length (active_priorities q) \<noteq> 1"
    by (cases "length (active_priorities q) = 1") (auto simp: length_Suc_conv)
  then have "same_queues q (pick_view ?pk) \<and> pick_ok \<sigma> ?pk \<and>
    length (active_priorities (pick_view ?pk)) \<le> length (active_priorities q)"
  proof cases
    case none
    with refl \<open>wake_list_ok wake_list_new\<close> show ?thesis by (auto simp: pick_start_def pick_view_def pick_ok_def)
  next
    case many
    then have "?pk = \<lparr>pk_at = Outer, pk_self = q, pk_single = False, pk_priority = ISize 0, pk_queue = [],
      pk_any = False, pk_restore = [], pk_wakes = wake_list_new, pk_avail = n, pk_assigned = 0\<rparr>"
      by (simp add: pick_start_def Let_def)
    with refl \<open>wake_list_ok wake_list_new\<close> show ?thesis by (simp add: pick_view_def pick_ok_def)
  next
    case single
    have keys: "distinct_keys ?m" and cover: "queue_of ?m p' \<noteq> [] \<Longrightarrow> p' = p" for p'
      using inv single by (auto simp: wait_queue_inv_def queued_ok_def)
    have pop: "heap_pop (active_priorities q) = []" "heap_peek (active_priorities q) = Some p"
      using single by (simp_all add: heap_pop_def)
    show ?thesis
    proof (cases "map_of ?m p")
      case None
      then have "queue_of ?m p' = []" for p' by (metis cover queue_of_None)
      moreover have "pick_view ?pk = q\<lparr>active_priorities := []\<rparr>" "pick_ok \<sigma> ?pk"
        using single pop None \<open>wake_list_ok wake_list_new\<close>
        by (simp_all add: pick_start_def pick_view_def pick_ok_def)
      ultimately show ?thesis using keys by (simp add: same_queues_def)
    next
      case (Some queue)
      let ?self = "q\<lparr>priority_queues := AList.delete p ?m, active_priorities := []\<rparr>"
      have pk: "?pk = \<lparr>pk_at = Front, pk_self = ?self, pk_single = True, pk_priority = p, pk_queue = queue,
        pk_any = False, pk_restore = [], pk_wakes = wake_list_new, pk_avail = n, pk_assigned = 0\<rparr>"
        using single pop Some by (simp add: pick_start_def Let_def)
      have "distinct_keys (priority_queues (put_back ?pk queue (total_waiters q)))"
        using keys by (simp add: put_back_def pk distinct_keys_update distinct_delete)
      moreover have "queue_of (priority_queues (put_back ?pk queue (total_waiters q))) p' = queue_of ?m p'" for p'
        using Some by (simp add: pk queue_simps)
      moreover have "pick_view ?pk = put_back ?pk queue (total_waiters q)" by (simp add: pick_view_def pk)
      ultimately have "same_queues q (pick_view ?pk)" using cover by (simp add: same_queues_def pk)
      moreover have "pick_ok \<sigma> ?pk"
        using \<open>wake_list_ok wake_list_new\<close> by (simp add: pick_ok_def pk queue_simps)
      ultimately show ?thesis using single by (simp add: pk pick_view_def)
    qed
  qed
  then show "same_queues q (pick_view ?pk)" "pick_ok \<sigma> ?pk"
    "length (active_priorities (pick_view ?pk)) \<le> length (active_priorities q)" by simp_all
qed

section \<open>The tasks\<close>

lemma waiters_update_id: "s\<lparr>waiters := waiters s\<rparr> = (s :: sys)"
  by simp

lemma core_same_queues:
  assumes core: "core_inv s F" and same: "same_queues (waiters s) q"
  shows "core_inv (s\<lparr>waiters := q\<rparr>) F"
  using core same_queues_inv [OF core_invD(1) [OF core] same]
  by (simp add: core_inv_def waits_ok_def task_ok_def)

lemma core_discard:
  assumes core: "core_inv s F" and w: "is_cancelled (store s w)"
  shows "core_inv (s\<lparr>waiters := remove_waiter (store s) w (waiters s)\<rparr>) F"
proof -
  note R = remove_waiter_inv [OF core_invD(1) [OF core], of w]
  have "\<not> is_waiting (store s w)" using w by (simp add: waiter_tests)
  with core R show ?thesis by (auto simp: core_inv_def waits_ok_def task_ok_def)
qed

text \<open>One waiter is notified and leaves the queue.\<close>

lemma core_notify:
  assumes core: "core_inv s F" and w: "is_waiting (store s w)" "w \<in> queued (waiters s)"
    and s': "s' = s\<lparr>store := (store s)(w := (store s w)\<lparr>state := NOTIFIED\<rparr>),
      waiters := remove_waiter (store s) w (waiters s)\<rparr>"
  shows "core_inv s' F" "reserved (store s') F = reserved (store s) F + unat (permits_needed (store s w))"
proof -
  note I = core_invD [OF core]
  note R = remove_waiter_inv [OF I(1), of w]
  have pend: "w \<in># pending_handles F" using I(3) w by (simp add: waits_ok_def)
  have "wait_queue_inv (store s') (waiters s')"
    using R wait_queue_inv_cong [OF R(1), of "store s'"] by (simp add: s')
  moreover have "task_ok s' t" if "t \<in># F" for t
    using I(4) [OF that] by (rule task_ok_evolves) (auto simp: s' evolves_def waiter_ok_def waiter_tests)
  moreover have "waits_ok s' F"
    using I(3) R(2) by (auto simp: waits_ok_def s' waiter_tests)
  ultimately show "core_inv s' F" using I(2) R(2) by (auto simp: core_inv_def s')
  have "is_notified (store s' v) = is_notified (notify_all [w] (store s) v)" for v
    by (simp add: s' notify_all_def waiter_tests)
  then have "reserved (store s') F = reserved (notify_all [w] (store s)) F" by (intro reserved_cong)
  also have "\<dots> = reserved (store s) F + unat (permits_needed (store s w))"
  proof (rule reserved_notify_one [OF I(5) pend])
    show "permits_needed (store s w) = f_needed (fst t)" if "t \<in># F" "f_handle (fst t) = Some w" for t
      using I(4) [OF that(1)] that(2) by (simp add: task_ok_def)
  qed (use w in \<open>simp add: waiter_tests\<close>)
  finally show "reserved (store s') F = reserved (store s) F + unat (permits_needed (store s w))" .
qed

text \<open>The waker of a waiter that no longer waits is taken.\<close>

lemma core_take_waker:
  assumes core: "core_inv s F" and s': "s' = s\<lparr>store := (store s)(w := (store s w)\<lparr>waker := None\<rparr>)\<rparr>"
  shows "core_inv s' F" "reserved (store s') F = reserved (store s) F"
proof -
  note I = core_invD [OF core]
  have same: "is_waiting (store s' v) = is_waiting (store s v)" "is_notified (store s' v) = is_notified (store s v)"
    "evolves (store s v) (store s' v)" for v
    by (auto simp: s' waiter_tests evolves_def waiter_ok_def)
  have "wait_queue_inv (store s') (waiters s')"
    unfolding s' using queued_waits [OF I(1), of w] by (simp, intro wait_queue_inv_upd [OF I(1)]) (auto simp: waiter_tests)
  moreover have "task_ok s' t" if "t \<in># F" for t
    using I(4) [OF that] by (rule task_ok_evolves) (use same in \<open>simp_all add: s'\<close>)
  ultimately show "core_inv s' F" using I(2,3) same by (simp add: core_inv_def waits_ok_def s')
  show "reserved (store s') F = reserved (store s) F" using same by (intro reserved_cong)
qed

section \<open>One step and the tasks\<close>

text \<open>What the step may do to a waiter, and the permits it loses.\<close>

definition picked_at :: "waiter_state \<Rightarrow> waiter_state \<Rightarrow> bool" where
  "picked_at a b \<longleftrightarrow> b = a \<or> is_waiting a \<and> b = a\<lparr>state := NOTIFIED\<rparr> \<or> \<not> is_waiting a \<and> b = a\<lparr>waker := None\<rparr>"

definition pick_loss :: "picking \<Rightarrow> store \<Rightarrow> nat" where
  "pick_loss pk \<sigma> =
     (case pk_at pk of
        Notify w \<Rightarrow> if is_waiting (\<sigma> w) then 0 else unat (permits_needed (\<sigma> w))
      | _ \<Rightarrow> 0)"

definition pick_size :: "wait_queue \<Rightarrow> nat" where
  "pick_size q = length (all_waiters (priority_queues q))"

definition pick_keeps :: "task multiset \<Rightarrow> picking \<Rightarrow> sys \<Rightarrow> picking \<Rightarrow> store \<Rightarrow> bool" where
  "pick_keeps F pk s pk' \<sigma>' \<longleftrightarrow> core_inv (s\<lparr>store := \<sigma>', waiters := pick_view pk'\<rparr>) F \<and> pick_ok \<sigma>' pk' \<and>
     (\<forall>v. picked_at (store s v) (\<sigma>' v)) \<and>
     unat (pk_avail pk') + reserved \<sigma>' F + pick_loss pk (store s) = unat (pk_avail pk) + reserved (store s) F \<and>
     queued (pick_view pk') \<subseteq> queued (pick_view pk) \<and> pick_size (pick_view pk') \<le> pick_size (pick_view pk)"

lemma pick_step_effect:
  assumes core: "core_inv (s\<lparr>waiters := pick_view pk\<rparr>) F" and ok: "pick_ok (store s) pk" and at: "pk_at pk \<noteq> Picked"
  shows "\<exists>pk' \<sigma>'. pick_step pk (store s) = Some (pk', \<sigma>') \<and> pick_keeps F pk s pk' \<sigma>'"
proof -
  let ?\<sigma> = "store s" and ?s = "s\<lparr>waiters := pick_view pk\<rparr>"
  have inv: "wait_queue_inv ?\<sigma> (pick_view pk)" using core_invD(1) [OF core] by simp
  obtain pk' \<sigma>' where step: "pick_step pk ?\<sigma> = Some (pk', \<sigma>')" "pick_effect pk ?\<sigma> pk' \<sigma>'" "pick_ok \<sigma>' pk'"
    using pick_step_keeps [OF inv ok at] by blast
  have gone: "queued (pick_view pk') \<subseteq> queued (pick_view pk) \<and> pick_size (pick_view pk') \<le> pick_size (pick_view pk)"
    if "same_queues (remove_waiter ?\<sigma> w (pick_view pk)) (pick_view pk')" "w \<in> queued (pick_view pk)" for w
  proof -
    have ok: "queued_ok ?\<sigma> (priority_queues (pick_view pk))" using inv by (simp add: wait_queue_inv_def)
    have "w \<in> set (queue_of (priority_queues (pick_view pk)) (priority (?\<sigma> w)))"
      using that(2) queued_okD(6) [OF ok] by (simp add: queued_def)
    note R = remove_waiter_eq(4) [OF inv this] and V = remove_waiter_inv [OF inv, of w]
    from same_queues_inv [OF V(1) that(1)] V(2) R show ?thesis by (simp add: pick_size_def)
  qed
  have calm: "pick_loss pk ?\<sigma> = 0" if "\<forall>w. pk_at pk \<noteq> Notify w"
    using that by (simp add: pick_loss_def split: point.split)
  have "pick_keeps F pk s pk' \<sigma>'"
    using step(2)
  proof cases
    case quiet
    with core_same_queues [OF core, of "pick_view pk'"] same_queues_inv [OF inv quiet(3)] step(3) calm show ?thesis
      by (simp add: pick_keeps_def picked_at_def pick_size_def)
  next
    case (discard w)
    have "core_inv (?s\<lparr>waiters := remove_waiter ?\<sigma> w (pick_view pk)\<rparr>) F"
      using core_discard [OF core] discard(4) by simp
    from core_same_queues [OF this] discard step(3) calm gone [OF discard(5,3)] show ?thesis
      by (simp add: pick_keeps_def picked_at_def)
  next
    case (notified w)
    let ?s' = "?s\<lparr>store := \<sigma>', waiters := remove_waiter ?\<sigma> w (pick_view pk)\<rparr>"
    have N: "core_inv ?s' F" "reserved \<sigma>' F = reserved ?\<sigma> F + unat (permits_needed (?\<sigma> w))"
      using core_notify [OF core, of w ?s'] notified(1,3,4) by simp_all
    have "pick_loss pk ?\<sigma> = 0" "unat (pk_avail pk') + unat (permits_needed (?\<sigma> w)) = unat (pk_avail pk)"
      using notified by (simp_all add: pick_loss_def unat_sub word_le_nat_alt)
    with N core_same_queues [OF N(1)] notified step(3) gone [OF notified(5,3)] show ?thesis
      by (simp add: pick_keeps_def picked_at_def)
  next
    case (missed w)
    have "core_inv (?s\<lparr>waiters := remove_waiter ?\<sigma> w (pick_view pk)\<rparr>) F"
      using core_discard [OF core] missed(4) by simp
    moreover have "pick_loss pk ?\<sigma> + unat (pk_avail pk') = unat (pk_avail pk)"
      using missed by (simp add: pick_loss_def unat_sub word_le_nat_alt waiter_tests)
    ultimately show ?thesis
      using core_same_queues [of "?s\<lparr>waiters := remove_waiter ?\<sigma> w (pick_view pk)\<rparr>" F "pick_view pk'"]
        missed step(3) gone [OF missed(5,3)]
      by (simp add: pick_keeps_def picked_at_def)
  next
    case (taken w)
    let ?s' = "?s\<lparr>store := \<sigma>'\<rparr>"
    have N: "core_inv ?s' F" "reserved \<sigma>' F = reserved ?\<sigma> F"
      using core_take_waker [OF core, of ?s' w] taken(1) by simp_all
    have same: "picked_at (?\<sigma> v) (\<sigma>' v)" for v using taken(1,2) by (simp add: picked_at_def)
    have "wait_queue_inv \<sigma>' (pick_view pk)" using core_invD(1) [OF N(1)] by simp
    from same_queues_inv [OF this taken(3)] core_same_queues [OF N(1)] taken N(2) same step(3) show ?thesis
      by (simp add: pick_keeps_def pick_size_def pick_loss_def)
  qed
  with step(1) show ?thesis by blast
qed

end
