(* ===== verification/Retries.thy ===== *)
theory Retries
  imports Task_Inv
begin

text \<open>
  The retry loops on the permit word (\<open>semaphore/methods.rs\<close>, \<open>forget_permits\<close> in \<open>semaphore/core.rs\<close>)
  in the atomic steps they take, so that other threads can come in between: the load of the word and
  each exchange. What a thread has seen is local to it; an exchange succeeds only if the word is
  still that, and a weak one (\<open>cas_ok\<close> false) may fail even then.
\<close>

section \<open>The steps\<close>

text \<open>
  \<open>Once\<close>: \<open>try_acquire\<close>, about to load the word; \<open>Once_Loaded\<close>: about to make its one strong exchange.
  \<open>Acquiring n\<close>: about to load the word for a retry loop that takes \<open>n\<close> permits; \<open>Acquire_Exchange n cur\<close>:
  the loop has last seen \<open>cur\<close>. \<open>Forgetting\<close>, \<open>Forget_Exchange\<close>: the same for \<open>forget_permits\<close>.
  \<open>Obtained\<close>, \<open>Withdrawn\<close>: returned.
\<close>

datatype attempt =
    Once
  | Once_Loaded usize
  | Acquiring u32
  | Acquire_Exchange u32 usize
  | Forgetting usize
  | Forget_Exchange usize usize
  | Obtained "TryAcquireError + permit"
  | Withdrawn usize

text \<open>One round of a loop: return, or go on with the word the failed exchange has found.\<close>

definition loop_round :: "bool \<Rightarrow> 'r decision \<Rightarrow> usize \<Rightarrow> sys \<Rightarrow> ('r + usize) \<times> sys" where
  "loop_round cas_ok d cur s =
     (case d cur of
        Inl r \<Rightarrow> (Inl r, s)
      | Inr (new, r) \<Rightarrow>
          if permits s = cur \<and> cas_ok then (Inl r, s\<lparr>permits := new\<rparr>) else (Inr (permits s), s))"

abbreviation acquire_word :: "u32 \<Rightarrow> sys \<Rightarrow> (TryAcquireError + permit) decision" where
  "acquire_word n s \<equiv> acquire_decide (push_bit PERMIT_SHIFT (ucast n)) \<lparr>p_sem = sem_addr s, p_permits = n\<rparr>"

fun attempt_tick :: "bool \<Rightarrow> attempt \<Rightarrow> sys \<Rightarrow> (attempt \<times> sys) option" where
  "attempt_tick cas_ok Once s = Some (Once_Loaded (permits s), s)"
| "attempt_tick cas_ok (Once_Loaded cur) s =
     (if cur AND CLOSED \<noteq> 0 then Some (Obtained (Inl Closed), s)
      else if cur < push_bit PERMIT_SHIFT 1 then Some (Obtained (Inl NoPermits), s)
      else let (bits, ok) = compare_exchange (permits s) cur (cur - push_bit PERMIT_SHIFT 1)
           in if ok then Some (Obtained (Inr \<lparr>p_sem = sem_addr s, p_permits = 1\<rparr>), s\<lparr>permits := bits\<rparr>)
              else Some (Acquiring 1, s))"
| "attempt_tick cas_ok (Acquiring n) s = Some (Acquire_Exchange n (permits s), s)"
| "attempt_tick cas_ok (Acquire_Exchange n cur) s =
     (case loop_round cas_ok (acquire_word n s) cur s of
        (Inl r, s') \<Rightarrow> Some (Obtained r, s')
      | (Inr actual, s') \<Rightarrow> Some (Acquire_Exchange n actual, s'))"
| "attempt_tick cas_ok (Forgetting n) s = Some (Forget_Exchange n (permits s), s)"
| "attempt_tick cas_ok (Forget_Exchange n cur) s =
     (case loop_round cas_ok (forget_decide n) cur s of
        (Inl removed, s') \<Rightarrow> Some (Withdrawn removed, s')
      | (Inr actual, s') \<Rightarrow> Some (Forget_Exchange n actual, s'))"
| "attempt_tick cas_ok (Obtained r) s = None"
| "attempt_tick cas_ok (Withdrawn k) s = None"

fun run_attempt :: "nat \<Rightarrow> attempt \<times> sys \<Rightarrow> attempt \<times> sys" where
  "run_attempt 0 x = x"
| "run_attempt (Suc n) (a, s) = (case attempt_tick True a s of None \<Rightarrow> (a, s) | Some x \<Rightarrow> run_attempt n x)"

text \<open>The permits that returning hands out, and those it withdraws.\<close>

fun gained :: "attempt \<Rightarrow> permit multiset" where
  "gained (Obtained r) = acquired r"
| "gained a = {#}"

fun withdrawn :: "attempt \<Rightarrow> nat" where
  "withdrawn (Withdrawn k) = unat k"
| "withdrawn a = 0"

fun returned :: "attempt \<Rightarrow> bool" where
  "returned (Obtained r) = True"
| "returned (Withdrawn k) = True"
| "returned a = False"

section \<open>Without interference\<close>

lemma loop_round_alone:
  "loop_round True d (permits s) s = (case atomically d (permits s) of (r, v) \<Rightarrow> (Inl r, s\<lparr>permits := v\<rparr>))"
  by (auto simp: loop_round_def atomically_def split: sum.split prod.split)

lemma acquire_in_steps:
  assumes "overwrites env = {}" "n \<noteq> 0" "try_acquire_many env n s = (Done r, s')"
  shows "run_attempt 2 (Acquiring n, s) = (Obtained r, s')"
proof -
  obtain v where "cas_loop (acquire_word n s) env (permits s) (permits s) = (r, v)" "s' = s\<lparr>permits := v\<rparr>"
    using assms(2,3) u32_not_above_max [of n] by (auto simp: try_acquire_many_def Let_def split: prod.splits)
  moreover from this(1) cas_loop_linearizable [of "permits s" env "acquire_word n s"] assms(1)
  have "atomically (acquire_word n s) (permits s) = (r, v)" by simp
  ultimately show ?thesis by (simp add: numeral_eq_Suc loop_round_alone)
qed

lemma forget_in_steps:
  assumes "overwrites env = {}" "n \<noteq> 0" "forget_permits env n s = (removed, s')"
  shows "run_attempt 2 (Forgetting n, s) = (Withdrawn removed, s')"
proof -
  obtain v where "cas_loop (forget_decide n) env (permits s) (permits s) = (removed, v)" "s' = s\<lparr>permits := v\<rparr>"
    using assms(2,3) by (auto simp: forget_permits_def Let_def split: prod.splits)
  moreover from this(1) cas_loop_linearizable [of "permits s" env "forget_decide n"] assms(1)
  have "atomically (forget_decide n) (permits s) = (removed, v)" by simp
  ultimately show ?thesis by (simp add: numeral_eq_Suc loop_round_alone)
qed

lemma once_in_steps:
  assumes "overwrites env = {}" "try_acquire env s = (r, s')"
  shows "run_attempt 2 (Once, s) = (Obtained r, s')"
proof -
  obtain v where "atomically (try_acquire_word s) (permits s) = (r, v)" "s' = s\<lparr>permits := v\<rparr>"
    using try_acquire_linear [OF assms(2)] assms(1) by auto
  then show ?thesis
    using closed_word [of s]
    by (auto simp: numeral_eq_Suc atomically_def acquire_decide_def compare_exchange_def Let_def split: if_splits)
qed

section \<open>What a step does\<close>

text \<open>A step changes nothing but the word, and the word only by what it hands out or withdraws.\<close>

lemma loop_round_done:
  assumes "loop_round cas_ok d cur s = (Inl r, s')"
  shows "(\<exists>v. s' = s\<lparr>permits := v\<rparr> \<and> atomically d (permits s) = (r, v)) \<or> s' = s \<and> d cur = Inl r"
  using assms by (auto simp: loop_round_def atomically_def split: sum.splits prod.splits if_splits)

lemma loop_round_again: "loop_round cas_ok d cur s = (Inr actual, s') \<Longrightarrow> s' = s \<and> actual = permits s"
  by (auto simp: loop_round_def split: sum.splits prod.splits if_splits)

lemma acquire_decide_error: "acquire_decide n p cur = Inl r \<Longrightarrow> \<exists>e. r = Inl e"
  by (auto simp: acquire_decide_def split: if_splits)

lemma atomically_taken:
  "atomically (acquire_word n s) (permits s) = (r, v) \<Longrightarrow> taken (permits s) n r s (s\<lparr>permits := v\<rparr>)"
  using acquire_step [OF unat_shift_u32, of n _ "permits s" r v] unfolding taken_def by blast

definition word_step :: "sys \<Rightarrow> attempt \<Rightarrow> sys \<Rightarrow> bool" where
  "word_step s a' s' \<longleftrightarrow> store s' = store s \<and> waiters s' = waiters s \<and> next_wid s' = next_wid s \<and>
     sem_addr s' = sem_addr s \<and> is_closed s' = is_closed s \<and>
     free s' + permits_in (gained a') + withdrawn a' = free s \<and>
     (is_closed s \<longrightarrow> permits_in (gained a') = 0)"

lemma word_step_quiet: "permits_in (gained a') = 0 \<Longrightarrow> withdrawn a' = 0 \<Longrightarrow> word_step s a' s"
  by (simp add: word_step_def)

lemma word_step_taken: "taken (permits s) n r s s' \<Longrightarrow> word_step s (Obtained r) s'"
  using takenD [of s n r s'] by (cases r) (auto simp: word_step_def acquired_def task_sums)

lemma attempt_tick_effect:
  assumes t: "attempt_tick cas_ok a s = Some (a', s')"
  shows "word_step s a' s'"
proof (cases a)
  case (Once_Loaded cur)
  show ?thesis
  proof (cases "permits s = cur")
    case True
    then have "run_attempt 2 (Once, s) = (case attempt_tick cas_ok a s of Some x \<Rightarrow> run_attempt 0 x)"
      using Once_Loaded by (auto simp: numeral_eq_Suc compare_exchange_def Let_def)
    with t have run: "run_attempt 2 (Once, s) = (a', s')" by simp
    obtain r s1 where "try_acquire [] s = (r, s1)" by (rule prod.exhaust)
    moreover from once_in_steps [OF _ this] run have "a' = Obtained r" "s1 = s'" by simp_all
    moreover from try_acquire_taken [OF calculation(1)] have "taken (permits s) 1 r s s1" by simp
    ultimately show ?thesis by (simp add: word_step_taken)
  next
    case False
    with t Once_Loaded show ?thesis
      by (auto simp: compare_exchange_def acquired_def task_sums split: if_splits intro!: word_step_quiet)
  qed
next
  case (Acquire_Exchange n cur)
  show ?thesis
  proof (cases "loop_round cas_ok (acquire_word n s) cur s")
    case (Pair x s1)
    show ?thesis
    proof (cases x)
      case (Inl r)
      with Pair t Acquire_Exchange have a': "a' = Obtained r" "s' = s1" by simp_all
      from loop_round_done [OF Pair [unfolded Inl]] show ?thesis
      proof (elim disjE exE conjE)
        fix v assume "s1 = s\<lparr>permits := v\<rparr>" "atomically (acquire_word n s) (permits s) = (r, v)"
        with atomically_taken [of n s r v] show ?thesis unfolding a' by (simp add: word_step_taken)
      next
        assume "s1 = s" "acquire_word n s cur = Inl r"
        with acquire_decide_error show ?thesis
          unfolding a' by (fastforce simp: acquired_def task_sums intro: word_step_quiet)
      qed
    next
      case (Inr actual)
      with Pair t Acquire_Exchange loop_round_again show ?thesis
        by (fastforce simp: acquired_def task_sums intro: word_step_quiet)
    qed
  qed
next
  case (Forget_Exchange n cur)
  show ?thesis
  proof (cases "loop_round cas_ok (forget_decide n) cur s")
    case (Pair x s1)
    show ?thesis
    proof (cases x)
      case (Inl r)
      with Pair t Forget_Exchange have a': "a' = Withdrawn r" "s' = s1" by simp_all
      have "forget_decide n cur \<noteq> Inl r" by (simp add: forget_decide_def Let_def)
      with loop_round_done [OF Pair [unfolded Inl]] obtain v
        where v: "s1 = s\<lparr>permits := v\<rparr>" "atomically (forget_decide n) (permits s) = (r, v)" by blast
      from forget_step [OF this(2)] v(1) show ?thesis
        unfolding a' by (simp add: word_step_def forget_post_def acquired_def task_sums available_permits_def
            word_count_def is_closed_def word_closed_def)
    next
      case (Inr actual)
      with Pair t Forget_Exchange loop_round_again show ?thesis
        by (fastforce simp: acquired_def task_sums intro: word_step_quiet)
    qed
  qed
qed (use t in \<open>auto simp: acquired_def task_sums intro: word_step_quiet\<close>)

section \<open>Progress\<close>

lemma attempt_tick_enabled: "\<not> returned a \<Longrightarrow> \<exists>x. attempt_tick cas_ok a s = Some x"
  by (cases a) (auto simp: compare_exchange_def Let_def split: prod.split sum.split)

text \<open>An exchange that is tried again has found the word changed, or failed for no reason.\<close>

lemma attempt_returns:
  "attempt_tick True (Acquire_Exchange n (permits s)) s = Some (a', s') \<Longrightarrow> returned a'"
  "attempt_tick True (Forget_Exchange m (permits s)) s = Some (a', s') \<Longrightarrow> returned a'"
  by (auto simp: loop_round_alone split: prod.splits)

end
