(* ===== verification/Closing.thy ===== *)
theory Closing
  imports Task_Inv
begin

text \<open>
  The second half of \<open>close\<close> (\<open>semaphore/core.rs\<close>, \<open>wait_queue/queue.rs\<close>, \<open>wait_queue/waiter.rs\<close>) in the
  atomic steps it takes: the mutex is taken, then each waiter of the queue is cancelled by up to two
  exchanges on its state and woken by reference, then the mutex is released. The first half, the
  setting of the flag, is one step (\<open>close_flag\<close>).
\<close>

section \<open>The steps\<close>

text \<open>
  \<open>Flagged\<close>: the flag is set, the mutex not yet taken. \<open>Cancelling ws\<close>: about to cancel the first of
  the waiters \<open>ws\<close> that are left, or to release the mutex. \<open>Retrying w ws\<close>: \<open>w\<close> was not waiting, about
  to exchange its state a second time. \<open>Rousing w ws\<close>: \<open>w\<close> is cancelled, about to wake its task.
\<close>

datatype closing =
    Flagged
  | Cancelling "wid list"
  | Retrying wid "wid list"
  | Rousing wid "wid list"
  | Shut

definition exchange_state :: "usize \<Rightarrow> usize \<Rightarrow> wid \<Rightarrow> store \<Rightarrow> bool \<times> store" where
  "exchange_state old new w \<sigma> =
     (let (st, ok) = compare_exchange (state (\<sigma> w)) old new in (ok, \<sigma>(w := (\<sigma> w)\<lparr>state := st\<rparr>)))"

text \<open>
  What is done to the queue itself, which the mutex hides, is written when the mutex is released.
\<close>

definition drained_queue :: "hash_order \<Rightarrow> wait_queue \<Rightarrow> wait_queue" where
  "drained_queue h q =
     q\<lparr>closed := True, priority_queues := snd (drain_all_waiters h (priority_queues q)),
       active_priorities := [], total_waiters := 0\<rparr>"

fun close_tick :: "hash_order \<Rightarrow> closing \<Rightarrow> bool \<times> sys \<Rightarrow> (closing \<times> bool \<times> sys) option" where
  "close_tick h Flagged (lock, s) =
     (if lock then None
      else Some (Cancelling (fst (drain_all_waiters h (priority_queues (waiters s)))), True, s))"
| "close_tick h (Cancelling []) (lock, s) = Some (Shut, False, s\<lparr>waiters := drained_queue h (waiters s)\<rparr>)"
| "close_tick h (Cancelling (w # ws)) (lock, s) =
     (let (ok, \<sigma>) = exchange_state WAITING CANCELLED w (store s)
      in Some (if ok then Rousing w ws else Retrying w ws, lock, s\<lparr>store := \<sigma>\<rparr>))"
| "close_tick h (Retrying w ws) (lock, s) =
     (let (ok, \<sigma>) = exchange_state NOTIFIED CANCELLED w (store s)
      in Some (if ok then Rousing w ws else Cancelling ws, lock, s\<lparr>store := \<sigma>\<rparr>))"
| "close_tick h (Rousing w ws) (lock, s) =
     Some (Cancelling ws, lock, s\<lparr>woken := woken s @ wake_by_ref_under_lock (waker (store s w))\<rparr>)"
| "close_tick h Shut (lock, s) = None"

section \<open>Without interference\<close>

fun run_close :: "nat \<Rightarrow> hash_order \<Rightarrow> closing \<times> bool \<times> sys \<Rightarrow> closing \<times> bool \<times> sys" where
  "run_close 0 h x = x"
| "run_close (Suc n) h (c, lock, s) =
     (case close_tick h c (lock, s) of None \<Rightarrow> (c, lock, s) | Some x \<Rightarrow> run_close n h x)"

definition close_runs :: "hash_order \<Rightarrow> closing \<times> bool \<times> sys \<Rightarrow> closing \<times> bool \<times> sys \<Rightarrow> bool" where
  "close_runs h x y \<longleftrightarrow> (\<exists>n. run_close n h x = y)"

lemma close_runs_refl [simp, intro]: "close_runs h x x"
  unfolding close_runs_def by (metis run_close.simps(1))

lemma close_runs_step:
  "close_tick h c (lock, s) = Some y \<Longrightarrow> close_runs h y z \<Longrightarrow> close_runs h (c, lock, s) z"
  unfolding close_runs_def by (metis run_close.simps(2) option.case(2))

lemma exchange_state_cases:
  "exchange_state old new w \<sigma> = (state (\<sigma> w) = old, if state (\<sigma> w) = old then \<sigma>(w := (\<sigma> w)\<lparr>state := new\<rparr>) else \<sigma>)"
  by (simp add: exchange_state_def compare_exchange_def)

lemma drained_empty [simp]: "queued (drained_queue h q) = {}"
  by (simp add: drained_queue_def drain_all_waiters_def queued_def)

lemma cancel_runs:
  assumes c: "cancel (store s w) = (c, ks)"
    and rest: "close_runs h (Cancelling ws, lock, s\<lparr>store := (store s)(w := c), woken := woken s @ ks\<rparr>) z"
  shows "close_runs h (Cancelling (w # ws), lock, s) z"
proof -
  let ?s = "s\<lparr>store := (store s)(w := c)\<rparr>"
  have rouse: "close_runs h (Rousing w ws, lock, ?s) z"
    if "ks = wake_by_ref_under_lock (waker c)" using rest that by (intro close_runs_step) simp_all
  have waker: "waker (a\<lparr>state := x\<rparr>) = waker a" for a :: waiter_state and x by simp
  consider "state (store s w) = WAITING" | "state (store s w) = NOTIFIED"
    | "state (store s w) \<noteq> WAITING" "state (store s w) \<noteq> NOTIFIED" by blast
  then show ?thesis
  proof cases
    case 1
    with c rouse show ?thesis
      by (intro close_runs_step) (auto simp: exchange_state_cases cancel_cases)
  next
    case 2
    with c have e: "ks = wake_by_ref_under_lock (waker c)" "c = (store s w)\<lparr>state := CANCELLED\<rparr>"
      by (auto simp: cancel_cases)
    have "close_tick h (Retrying w ws) (lock, s) = Some (Rousing w ws, lock, ?s)"
      using 2 e by (simp add: exchange_state_cases)
    from close_runs_step [OF this rouse [OF e(1)]] 2 show ?thesis
      by (intro close_runs_step [of h "Cancelling (w # ws)"])
        (simp_all add: exchange_state_cases)
  next
    case 3
    with c have e: "ks = []" "c = store s w" by (simp_all add: cancel_cases)
    have "close_tick h (Retrying w ws) (lock, s) = Some (Cancelling ws, lock, s)"
      using 3 by (simp add: exchange_state_cases)
    moreover have "close_runs h (Cancelling ws, lock, s) z" using rest e by simp
    ultimately have "close_runs h (Retrying w ws, lock, s) z" by (rule close_runs_step)
    with 3 show ?thesis
      by (intro close_runs_step [of h "Cancelling (w # ws)"])
        (simp_all add: exchange_state_cases)
  qed
qed

lemma cancel_all_runs:
  "cancel_all ws (store s) = (\<sigma>, ks) \<Longrightarrow>
   close_runs h (Cancelling ws, lock, s) (Cancelling [], lock, s\<lparr>store := \<sigma>, woken := woken s @ ks\<rparr>)"
proof (induction ws arbitrary: s ks)
  case (Cons w ws)
  obtain c k1 where c: "cancel (store s w) = (c, k1)" by (rule prod.exhaust)
  obtain \<sigma>' k2 where r: "cancel_all ws ((store s)(w := c)) = (\<sigma>', k2)" by (rule prod.exhaust)
  let ?s = "s\<lparr>store := (store s)(w := c), woken := woken s @ k1\<rparr>"
  from Cons(2) c r have ks: "\<sigma>' = \<sigma>" "ks = k1 @ k2" by (simp_all add: Let_def)
  have "store ?s = (store s)(w := c)" by simp
  with r ks have "cancel_all ws (store ?s) = (\<sigma>, k2)" by (simp only:)
  from Cons(1) [OF this] ks
  have "close_runs h (Cancelling ws, lock, ?s) (Cancelling [], lock, s\<lparr>store := \<sigma>, woken := woken s @ ks\<rparr>)"
    by simp
  with c show ?case by (rule cancel_runs)
next
  case Nil
  then have "s\<lparr>store := \<sigma>, woken := woken s @ ks\<rparr> = s" by auto
  then show ?case by simp
qed

text \<open>The steps make up \<open>close_waiters\<close>.\<close>

lemma run_close_stays: "close_tick h c (lock, s) = None \<Longrightarrow> run_close n h (c, lock, s) = (c, lock, s)"
  by (cases n) simp_all

lemma run_close_add: "run_close (m + n) h x = run_close n h (run_close m h x)"
proof (induction m h x rule: run_close.induct)
  case (2 m h c lock s)
  then show ?case by (auto simp: run_close_stays split: option.split)
qed simp

lemma close_runs_trans [trans]: "close_runs h x y \<Longrightarrow> close_runs h y z \<Longrightarrow> close_runs h x z"
  unfolding close_runs_def using run_close_add by metis

lemma closing_runs: "close_runs h (Flagged, False, s) (Shut, False, close_waiters h s)"
proof -
  let ?ws = "fst (drain_all_waiters h (priority_queues (waiters s)))"
  obtain \<sigma> ks where c: "cancel_all ?ws (store s) = (\<sigma>, ks)" by (rule prod.exhaust)
  let ?s = "s\<lparr>store := \<sigma>, woken := woken s @ ks\<rparr>"
  have "close_runs h (Flagged, False, s) (Cancelling ?ws, True, s)"
    by (rule close_runs_step [OF _ close_runs_refl]) simp
  also have "close_runs h \<dots> (Cancelling [], True, ?s)" using c by (rule cancel_all_runs)
  also have "close_runs h \<dots> (Shut, False, ?s\<lparr>waiters := drained_queue h (waiters ?s)\<rparr>)"
    by (rule close_runs_step [OF _ close_runs_refl]) simp
  also have "?s\<lparr>waiters := drained_queue h (waiters ?s)\<rparr> = close_waiters h s"
    using c by (auto simp: close_waiters_def close_queue_def drained_queue_def Let_def split: prod.split)
  finally show ?thesis .
qed

section \<open>One step and the tasks\<close>

text \<open>The waiters still to be cancelled, and whether the mutex is held.\<close>

fun to_cancel :: "closing \<Rightarrow> wid list" where
  "to_cancel (Cancelling ws) = ws"
| "to_cancel (Retrying w ws) = ws"
| "to_cancel (Rousing w ws) = ws"
| "to_cancel c = []"

definition busy :: "closing \<Rightarrow> bool" where
  "busy c \<longleftrightarrow> c \<noteq> Flagged \<and> c \<noteq> Shut"

definition closer_ok :: "sys \<Rightarrow> closing \<Rightarrow> bool" where
  "closer_ok s c \<longleftrightarrow> (busy c \<longrightarrow> distinct (to_cancel c) \<and> set (to_cancel c) \<subseteq> queued (waiters s) \<and>
     (\<forall>v \<in> queued (waiters s). v \<in> set (to_cancel c) \<or> \<not> is_waiting (store s v))) \<and>
     (\<forall>w ws. c = Retrying w ws \<longrightarrow> w \<in> queued (waiters s))"

lemma closer_ok_other:
  assumes "closer_ok s c" "busy c \<Longrightarrow> waiters s' = waiters s" "\<And>v. busy c \<Longrightarrow> evolves (store s v) (store s' v)"
  shows "closer_ok s' c"
  using assms by (auto simp: closer_ok_def evolves_def busy_def)

text \<open>What a step may do to a waiter.\<close>

definition cancelled_at :: "waiter_state \<Rightarrow> waiter_state \<Rightarrow> bool" where
  "cancelled_at a b \<longleftrightarrow> b = a \<or> is_waiting a \<and> b = a\<lparr>state := CANCELLED\<rparr>"

lemma cancelled_evolves: "cancelled_at a b \<Longrightarrow> evolves a b"
  by (auto simp: cancelled_at_def evolves_def waiter_ok_def waiter_tests)

lemma core_cancel:
  assumes core: "core_inv s F" and \<sigma>: "\<And>v. cancelled_at (store s v) (\<sigma> v)"
  shows "core_inv (s\<lparr>store := \<sigma>\<rparr>) F" "reserved \<sigma> F = reserved (store s) F"
proof -
  note I = core_invD [OF core]
  have keep: "is_waiting (\<sigma> v) \<Longrightarrow> is_waiting (store s v)" "priority (\<sigma> v) = priority (store s v)"
    "is_waiting (store s v) \<or> is_cancelled (store s v) \<Longrightarrow> is_waiting (\<sigma> v) \<or> is_cancelled (\<sigma> v)"
    "is_notified (\<sigma> v) = is_notified (store s v)" for v
    using \<sigma> [of v] by (auto simp: cancelled_at_def waiter_tests)
  have "wait_queue_inv \<sigma> (waiters s)"
    using I(1) keep(2,3) by (auto simp: wait_queue_inv_def queued_ok_def)
  moreover have "task_ok (s\<lparr>store := \<sigma>\<rparr>) t" if "t \<in># F" for t
    using I(4) [OF that] by (rule task_ok_evolves) (simp_all add: cancelled_evolves \<sigma>)
  moreover have "waits_ok (s\<lparr>store := \<sigma>\<rparr>) F" using I(3) keep(1) by (auto simp: waits_ok_def)
  ultimately show "core_inv (s\<lparr>store := \<sigma>\<rparr>) F" using I(2) by (simp add: core_inv_def)
  show "reserved \<sigma> F = reserved (store s) F" using keep(4) by (rule reserved_cong)
qed

lemma core_drained:
  assumes core: "core_inv s F" and w: "\<forall>v \<in> queued (waiters s). \<not> is_waiting (store s v)"
  shows "core_inv (s\<lparr>waiters := drained_queue h (waiters s)\<rparr>) F"
proof -
  note I = core_invD [OF core]
  have "wait_queue_inv (store s) (drained_queue h (waiters s))"
    by (simp add: drained_queue_def drain_all_waiters_def wait_queue_inv_def queued_ok_def)
  then show ?thesis using core w by (auto simp: core_inv_def waits_ok_def task_ok_def)
qed

text \<open>All that a step of \<open>close\<close> does.\<close>

definition close_keeps :: "task multiset \<Rightarrow> sys \<Rightarrow> closing \<Rightarrow> bool \<times> sys \<Rightarrow> bool" where
  "close_keeps F s c y \<longleftrightarrow> core_inv (snd y) F \<and> closer_ok (snd y) c \<and> permits (snd y) = permits s \<and>
     next_wid (snd y) = next_wid s \<and> sem_addr (snd y) = sem_addr s \<and>
     (\<forall>v. cancelled_at (store s v) (store (snd y) v)) \<and> reserved (store (snd y)) F = reserved (store s) F \<and>
     (if c = Shut then \<not> fst y \<and> queued (waiters (snd y)) = {}
      else fst y \<and> busy c \<and> waiters (snd y) = waiters s)"

lemma close_tick_effect:
  assumes core: "core_inv s F" and ok: "closer_ok s c" and lock: "busy c \<Longrightarrow> lock" and h: "hash_order_ok h"
    and t: "close_tick h c (lock, s) = Some (c', l', s')"
  shows "close_keeps F s c' (l', s')"
proof (cases c)
  case Flagged
  let ?ws = "fst (drain_all_waiters h (priority_queues (waiters s)))"
  have "set ?ws = queued (waiters s)"
    using drain_all_waiters_mset [OF h] by (metis queued_def set_mset_mset)
  moreover have "distinct ?ws"
    using drain_all_waiters_mset [OF h] queued_okD(2) core_invD(1) [OF core]
    by (metis distinct_mset_eq wait_queue_inv_def)
  ultimately show ?thesis
    using t Flagged core by (auto simp: close_keeps_def closer_ok_def busy_def cancelled_at_def split: if_splits)
next
  case (Cancelling ws)
  show ?thesis
  proof (cases ws)
    case Nil
    with Cancelling ok have "\<forall>v \<in> queued (waiters s). \<not> is_waiting (store s v)"
      by (simp add: closer_ok_def busy_def)
    from core_drained [OF core this] Cancelling Nil t show ?thesis
      by (auto simp: close_keeps_def closer_ok_def busy_def cancelled_at_def)
  next
    case (Cons w vs)
    then have ok': "w \<in> queued (waiters s)" "distinct vs" "set vs \<subseteq> queued (waiters s)"
      "\<forall>v \<in> queued (waiters s). v = w \<or> v \<in> set vs \<or> \<not> is_waiting (store s v)" and "lock"
      using ok Cancelling lock by (auto simp: closer_ok_def busy_def)
    let ?\<sigma> = "if state (store s w) = WAITING then (store s)(w := (store s w)\<lparr>state := CANCELLED\<rparr>) else store s"
    have at: "cancelled_at (store s v) (?\<sigma> v)" for v by (auto simp: cancelled_at_def waiter_tests)
    have done_: "\<not> is_waiting (?\<sigma> w)" by (simp add: waiter_tests)
    have "closer_ok (s\<lparr>store := ?\<sigma>\<rparr>) c'"
      using t Cancelling Cons ok' done_
      by (auto simp: closer_ok_def busy_def exchange_state_cases waiter_tests split: if_splits)
    with core_cancel [OF core at] at t Cancelling Cons \<open>lock\<close> show ?thesis
      by (auto simp: close_keeps_def exchange_state_cases busy_def split: if_splits)
  qed
next
  case (Retrying w ws)
  then have "w \<in> queued (waiters s)" and "lock" using ok lock by (auto simp: closer_ok_def busy_def)
  with queued_waits [OF core_invD(1) [OF core], of w] have "state (store s w) \<noteq> NOTIFIED" by (auto simp: waiter_tests)
  with t Retrying have "c' = Cancelling ws" "l' = lock" "s' = s" by (auto simp: exchange_state_cases)
  with core ok Retrying \<open>lock\<close> show ?thesis
    by (simp add: close_keeps_def closer_ok_def busy_def cancelled_at_def)
next
  case (Rousing w ws)
  with t have r: "c' = Cancelling ws" "l' = lock" "s' = s\<lparr>woken := woken s @ wake_by_ref_under_lock (waker (store s w))\<rparr>"
    by simp_all
  have "core_inv s' F" using core by (rule core_frame) (simp_all add: r)
  with r ok Rousing lock show ?thesis by (simp add: close_keeps_def closer_ok_def busy_def cancelled_at_def)
qed (use t in simp)

end
