(* ===== verification/Leaving.thy ===== *)
theory Leaving
  imports Closing
begin

text \<open>
  The drop of a future (\<open>Drop for Acquire\<close> in \<open>semaphore/futures.rs\<close>, with \<open>WaiterState::cancel\<close> in
  \<open>wait_queue/waiter.rs\<close>) in the atomic steps it takes. No lock is held while it cancels its waiter
  and wakes its task.
\<close>

section \<open>The steps\<close>

text \<open>
  The first exchange is the step that starts it: from then on the task is gone. \<open>Recancel w\<close>: \<open>w\<close> was not waiting,
  about to exchange its state a second time. \<open>Stir w\<close>: \<open>w\<close> is cancelled, about to wake its task by
  reference. \<open>Inspect w\<close>: about to ask whether \<open>w\<close> is still waiting; \<open>Unlink w\<close>: it is, about to take
  the mutex and remove it from the queue.
\<close>

datatype leaving =
    Recancel wid
  | Stir wid
  | Inspect wid
  | Unlink wid
  | Gone

definition leave_first :: "acquire_future \<Rightarrow> sys \<Rightarrow> leaving \<times> sys" where
  "leave_first f s =
     (case f_handle f of
        None \<Rightarrow> (Gone, s)
      | Some w \<Rightarrow>
          let (ok, \<sigma>) = exchange_state WAITING CANCELLED w (store s)
          in (if ok then Stir w else Recancel w, s\<lparr>store := \<sigma>\<rparr>))"

fun leave_tick :: "leaving \<Rightarrow> bool \<times> sys \<Rightarrow> (leaving \<times> bool \<times> sys) option" where
  "leave_tick (Recancel w) (lock, s) =
     (let (ok, \<sigma>) = exchange_state NOTIFIED CANCELLED w (store s)
      in Some (if ok then Stir w else Inspect w, lock, s\<lparr>store := \<sigma>\<rparr>))"
| "leave_tick (Stir w) (lock, s) =
     Some (Inspect w, lock, s\<lparr>woken := woken s @ wake_by_ref_under_lock (waker (store s w))\<rparr>)"
| "leave_tick (Inspect w) (lock, s) =
     Some (if is_waiting (store s w) then Unlink w else Gone, lock, s)"
| "leave_tick (Unlink w) (lock, s) =
     (if lock then None
      else Some (Gone, lock, s\<lparr>waiters := remove_waiter (store s) w (waiters s)\<rparr>))"
| "leave_tick Gone (lock, s) = None"

fun run_leave :: "nat \<Rightarrow> leaving \<times> bool \<times> sys \<Rightarrow> leaving \<times> bool \<times> sys" where
  "run_leave 0 x = x"
| "run_leave (Suc n) (l, lock, s) =
     (case leave_tick l (lock, s) of None \<Rightarrow> (l, lock, s) | Some x \<Rightarrow> run_leave n x)"

text \<open>Without interference the steps make up the drop of the future.\<close>

lemma drop_in_steps_alone:
  assumes "leave_first f s = (l, s1)"
  shows "run_leave 3 (l, lock, s1) = (Gone, lock, drop_future f s)"
proof (cases "f_handle f")
  case None
  with assms show ?thesis by (simp add: leave_first_def drop_future_eq numeral_eq_Suc)
next
  case (Some w)
  with assms show ?thesis
    by (auto simp: leave_first_def drop_future_eq exchange_state_cases cancel_cases waiter_tests numeral_eq_Suc
        wake_by_ref_under_lock_def)
qed

section \<open>What they do\<close>

text \<open>The waiter is the dropped future's alone, and it no longer waits.\<close>

fun leaver_wid :: "leaving \<Rightarrow> wid option" where
  "leaver_wid (Recancel w) = Some w"
| "leaver_wid (Stir w) = Some w"
| "leaver_wid (Inspect w) = Some w"
| "leaver_wid (Unlink w) = Some w"
| "leaver_wid Gone = None"

definition leaver_ok :: "sys \<Rightarrow> task multiset \<Rightarrow> leaving \<Rightarrow> bool" where
  "leaver_ok s F l \<longleftrightarrow> (\<forall>w. l \<noteq> Unlink w) \<and>
     (\<forall>w. leaver_wid l = Some w \<longrightarrow> w < next_wid s \<and> \<not> is_waiting (store s w) \<and> w \<notin># handles F)"

text \<open>The task goes with the first exchange.\<close>

lemma leave_first_store:
  assumes "leave_first f s = (l, s')"
  shows "waiters s' = waiters s" "next_wid s' = next_wid s" "sem_addr s' = sem_addr s" "permits s' = permits s"
    and "f_handle f \<noteq> Some v \<Longrightarrow> store s' v = store s v" "evolves (store s v) (store s' v)"
    and "f_handle f = Some w \<Longrightarrow> \<not> is_waiting (store s' w)"
  using assms by (auto simp: leave_first_def exchange_state_cases evolves_def waiter_ok_def waiter_tests
      split: option.splits if_splits)

lemma core_leave:
  assumes core: "core_inv s (add_mset (f, d) F)" and l: "leave_first f s = (l, s')"
  shows "core_inv s' F" "reserved (store s') F = reserved (store s) F" "leaver_ok s' F l"
proof -
  note L = leave_first_store [OF l]
  have st: "store s' v = store s v" if "v \<in># handles F" for v
    using that L(5) core_own(1) [OF core] by blast
  have "wait_queue_inv (store s') (waiters s)"
  proof (cases "f_handle f")
    case (Some w)
    show ?thesis
    proof (cases "is_waiting (store s w)")
      case True
      with l Some have "store s' = (store s)(w := (store s w)\<lparr>state := CANCELLED\<rparr>)"
        by (auto simp: leave_first_def exchange_state_cases waiter_tests)
      with core_invD(1) [OF core] show ?thesis by (simp, intro wait_queue_inv_upd) (simp_all add: waiter_tests)
    next
      case False
      with l Some core_invD(1) [OF core] show ?thesis
        by (auto simp: leave_first_def exchange_state_cases waiter_tests)
    qed
  qed (use l core_invD(1) [OF core] in \<open>simp add: leave_first_def\<close>)
  then have q: "wait_queue_inv (store s') (waiters s')" "queued (waiters s') \<subseteq> {..<next_wid s'}"
    using core_invD(2) [OF core] by (simp_all add: L)
  have conv: "v \<in># pending_handles {#} \<or> v \<in> queued (waiters s) \<and> is_waiting (store s v) \<and> v \<notin># handle_of (f, d)"
    if "v \<in> queued (waiters s')" "is_waiting (store s' v)" for v
  proof -
    have "f_handle f \<noteq> Some v" using that(2) L(7) [of v] by auto
    with that L(5) [of v] show ?thesis by (auto simp: L handle_of_def split: option.split)
  qed
  have uniq: "unique_handles ({#} + F)" using core_own(2) [OF core] by simp
  note * = core_change [OF core q _ _ _ st _ uniq _ conv]
  show "core_inv s' F" using *(1) by (simp add: L task_sums)
  show "reserved (store s') F = reserved (store s) F" using *(2) by (simp add: L task_sums)
  show "leaver_ok s' F l"
    using l L(7) core_own(1,3) [OF core]
    by (auto simp: leaver_ok_def leave_first_def exchange_state_cases task_ok_def split: option.splits if_splits)
qed

text \<open>A later step touches no waiter but its own, and that one not while it waits.\<close>

lemma leave_tick_effect:
  assumes core: "core_inv s F" and ok: "leaver_ok s F l" and t: "leave_tick l (lock, s) = Some (l', lock', s')"
  shows "core_inv s' F" "reserved (store s') F = reserved (store s) F" "leaver_ok s' F l'" "lock' = lock"
    and "waiters s' = waiters s" "next_wid s' = next_wid s" "sem_addr s' = sem_addr s" "permits s' = permits s"
    and "leaver_wid l \<noteq> Some v \<Longrightarrow> store s' v = store s v" "evolves (store s v) (store s' v)"
proof -
  show frame: "lock' = lock" "waiters s' = waiters s" "next_wid s' = next_wid s" "sem_addr s' = sem_addr s"
    "permits s' = permits s" and st: "\<And>v. leaver_wid l \<noteq> Some v \<Longrightarrow> store s' v = store s v"
    and ev: "\<And>v. evolves (store s v) (store s' v)"
    using t ok by (cases l; auto simp: leaver_ok_def exchange_state_cases evolves_def waiter_ok_def waiter_tests
        split: if_splits)+
  have same: "store s' v = store s v" if "v \<in># handles F" for v
    using that ok st [of v] by (auto simp: leaver_ok_def)
  show "reserved (store s') F = reserved (store s) F" using same by (intro reserved_cong) simp
  have w: "is_waiting (store s' v) = is_waiting (store s v)" for v
    using ok st [of v] ev [of v] by (cases "leaver_wid l = Some v") (auto simp: leaver_ok_def evolves_def)
  show "leaver_ok s' F l'"
  proof -
    have "leaver_wid l' = None \<or> leaver_wid l' = leaver_wid l" "\<And>w. l' \<noteq> Unlink w"
      using t ok by (cases l; auto simp: leaver_ok_def exchange_state_cases split: if_splits)+
    with ok show ?thesis unfolding leaver_ok_def w frame(3) by auto
  qed
  have "wait_queue_inv (store s') (waiters s)"
  proof (cases "store s' = store s")
    case False
    with t ok obtain v where "store s' = (store s)(v := (store s v)\<lparr>state := CANCELLED\<rparr>)"
      by (cases l) (auto simp: exchange_state_cases leaver_ok_def split: if_splits)
    with core_invD(1) [OF core] show ?thesis by (simp, intro wait_queue_inv_upd) (simp_all add: waiter_tests)
  qed (use core_invD(1) [OF core] in simp_all)
  moreover have "waits_ok s' F" using core_invD(3) [OF core] by (simp add: waits_ok_def w frame)
  moreover have "task_ok s' x" if "x \<in># F" for x
    using core_invD(4) [OF core that] by (rule task_ok_evolves) (simp_all add: frame ev)
  ultimately show "core_inv s' F" using core_invD(2) [OF core] by (simp add: core_inv_def frame)
qed

text \<open>The others keep what a leaver relies on.\<close>

lemma leaver_ok_other:
  assumes "leaver_ok s F l" "next_wid s \<le> next_wid s'"
    and "\<And>v. v < next_wid s \<Longrightarrow> is_waiting (store s' v) \<Longrightarrow> is_waiting (store s v)"
    and "\<And>v. v < next_wid s \<Longrightarrow> v \<in># handles F' \<Longrightarrow> v \<in># handles F"
  shows "leaver_ok s' F' l"
  using assms by (fastforce simp: leaver_ok_def)

lemma leave_tick_enabled: "leaver_ok s F l \<Longrightarrow> l \<noteq> Gone \<Longrightarrow> \<exists>x. leave_tick l (lock, s) = Some x"
  by (cases l) (auto simp: leaver_ok_def split: prod.split)

end
