(* ===== verification/World.thy ===== *)
theory World
  imports Threads Picking_Inv Retries Leaving
begin

text \<open>
  Any number of threads that use one semaphore, interleaved at the granularity of the theories
  \<open>Threads\<close>, \<open>Picking\<close>, \<open>Closing\<close>, \<open>Leaving\<close> and \<open>Retries\<close>. A step is one atomic step of an
  operation that is under way or the start of an operation (\<open>call\<close>). The steps of the retry loops
  on the word (\<open>retry\<close>) are kept apart from the others (\<open>move\<close>): a loop may go round for ever as long as
  others write the word or its weak exchange fails for no reason, while all other operations end.
\<close>

section \<open>States\<close>

type_synonym thread = "acquire_future \<times> pc"

text \<open>
  \<open>threads\<close> are the futures, each where its poll stands, \<open>closers\<close> the calls of \<open>close\<close> that have set the
  flag, \<open>leavers\<close> the futures that are being dropped and \<open>attempts\<close> the non-blocking operations.
\<close>

record world =
  wsys :: sys
  locked :: bool
  threads :: "thread multiset"
  releases :: "release multiset"
  wheld :: "permit multiset"
  closers :: "closing multiset"
  leavers :: "leaving multiset"
  attempts :: "attempt multiset"
  wissued :: nat
  wretired :: nat

fun finished :: "pc \<Rightarrow> bool" where
  "finished (Ret (Ready r)) = True"
| "finished _ = False"

fun ret_permit :: "pc \<Rightarrow> permit multiset" where
  "ret_permit (Ret r) = result_permit r"
| "ret_permit _ = {#}"

definition task_of :: "thread \<Rightarrow> task" where
  "task_of t = (fst t, finished (snd t))"

definition tasks :: "world \<Rightarrow> task multiset" where
  "tasks w = image_mset task_of (threads w)"

section \<open>Steps\<close>

text \<open>
  The permits that a step of a selection loses: those it counts as assigned to a waiter that was
  cancelled since the selection looked at it.
\<close>

fun forfeited :: "release \<Rightarrow> sys \<Rightarrow> nat" where
  "forfeited (Choosing rem pk) s = pick_loss pk (store s)"
| "forfeited r s = 0"

inductive move :: "world \<Rightarrow> world \<Rightarrow> bool" where
  poll: "threads w = add_mset (f, pc) T \<Longrightarrow>
    poll_tick cas_ok k pc f (locked w, wsys w) = Some (pc', f', l', s') \<Longrightarrow>
    move w (w\<lparr>wsys := s', locked := l', threads := add_mset (f', pc') T, wheld := wheld w + ret_permit pc'\<rparr>)"
| release: "releases w = add_mset r R \<Longrightarrow> release_tick chk r (locked w, wsys w) = Some (r', l', s') \<Longrightarrow>
    move w (w\<lparr>wsys := s', locked := l', releases := add_mset r' R,
      wretired := wretired w + forfeited r (wsys w)\<rparr>)"
| close: "closers w = add_mset c C \<Longrightarrow> hash_order_ok h \<Longrightarrow>
    close_tick h c (locked w, wsys w) = Some (c', l', s') \<Longrightarrow>
    move w (w\<lparr>wsys := s', locked := l', closers := add_mset c' C\<rparr>)"
| leave: "leavers w = add_mset x L \<Longrightarrow> leave_tick x (locked w, wsys w) = Some (x', l', s') \<Longrightarrow>
    move w (w\<lparr>wsys := s', locked := l', leavers := add_mset x' L\<rparr>)"

inductive retry :: "world \<Rightarrow> world \<Rightarrow> bool" where
  retry: "attempts w = add_mset a A \<Longrightarrow> attempt_tick cas_ok a (wsys w) = Some (a', s') \<Longrightarrow>
    retry w (w\<lparr>wsys := s', wheld := wheld w + gained a', wretired := wretired w + withdrawn a',
      attempts := add_mset a' A\<rparr>)"

text \<open>Dropping a permit object starts a release, unless it is empty.\<close>

definition dropping :: "permit \<Rightarrow> release multiset" where
  "dropping p = (if p_permits p = 0 then {#} else {#Dropping (ucast (p_permits p))#})"

definition idle :: "pc \<Rightarrow> bool" where
  "idle pc \<longleftrightarrow> (case pc of Fresh \<Rightarrow> True | Ret _ \<Rightarrow> True | _ \<Rightarrow> False)"

inductive call :: "world \<Rightarrow> world \<Rightarrow> bool" where
  acquire: "call w (w\<lparr>threads := add_mset (acquire_many_with_priority p n (wsys w), Fresh) (threads w)\<rparr>)"
| poll: "threads w = add_mset (f, pc) T \<Longrightarrow> pc = Fresh \<or> pc = Ret Pending \<Longrightarrow>
    call w (w\<lparr>threads := add_mset (f, poll_entry f) T\<rparr>)"
| drop_future: "threads w = add_mset (f, pc) T \<Longrightarrow> idle pc \<Longrightarrow> leave_first f (wsys w) = (x, s') \<Longrightarrow>
    call w (w\<lparr>wsys := s', threads := T, leavers := add_mset x (leavers w),
      wretired := wretired w + reserved_by (store (wsys w)) (task_of (f, pc))\<rparr>)"
| try_acquire: "call w (w\<lparr>attempts := add_mset Once (attempts w)\<rparr>)"
| try_acquire_many: "n \<noteq> 0 \<Longrightarrow> call w (w\<lparr>attempts := add_mset (Acquiring n) (attempts w)\<rparr>)"
| try_acquire_none: "call w (w\<lparr>wheld := add_mset \<lparr>p_sem = sem_addr (wsys w), p_permits = 0\<rparr> (wheld w)\<rparr>)"
| drop_permit: "wheld w = add_mset p H \<Longrightarrow>
    call w (w\<lparr>wheld := H, releases := dropping p + releases w\<rparr>)"
| forget: "wheld w = add_mset p H \<Longrightarrow>
    call w (w\<lparr>wheld := H, releases := dropping (forget p) + releases w,
      wretired := wretired w + unat (p_permits p)\<rparr>)"
| split: "wheld w = add_mset p H \<Longrightarrow> split_permit n p = (Some q, p') \<Longrightarrow>
    call w (w\<lparr>wheld := add_mset q (add_mset p' H)\<rparr>)"
| merge: "wheld w = add_mset p (add_mset q H) \<Longrightarrow> merge chk p q = Done (p', q') \<Longrightarrow>
    call w (w\<lparr>wheld := add_mset p' H, releases := dropping q' + releases w,
      wretired := wretired w + merge_loss p q p'\<rparr>)"
| add_permits: "wissued w + unat n \<le> max_permits \<Longrightarrow>
    call w (w\<lparr>releases := (if n = 0 then {#} else {#Locking n#}) + releases w,
      wissued := wissued w + unat n\<rparr>)"
| forget_permits: "n \<noteq> 0 \<Longrightarrow> call w (w\<lparr>attempts := add_mset (Forgetting n) (attempts w)\<rparr>)"
| close: "call w (w\<lparr>wsys := close_flag (wsys w), closers := add_mset Flagged (closers w)\<rparr>)"

definition tick :: "world \<Rightarrow> world \<Rightarrow> bool" where
  "tick w w' \<longleftrightarrow> move w w' \<or> retry w w' \<or> call w w'"

definition world_start :: "world \<Rightarrow> bool" where
  "world_start w \<longleftrightarrow> (\<exists>addr n cfg. new_with_config addr n cfg = Done (wsys w) \<and> wissued w = unat n) \<and>
     \<not> locked w \<and> threads w = {#} \<and> releases w = {#} \<and> wheld w = {#} \<and> closers w = {#} \<and>
     leavers w = {#} \<and> attempts w = {#} \<and> wretired w = 0"

inductive world_reachable :: "world \<Rightarrow> bool" where
  start: "world_start w \<Longrightarrow> world_reachable w"
| step: "world_reachable w \<Longrightarrow> tick w w' \<Longrightarrow> world_reachable w'"

text \<open>
  The calls of \<open>add_permits\<close> above keep the permits ever issued within \<open>MAX_PERMITS\<close>, which the code does not
  ask of them. \<open>tick_any\<close> has all calls.
\<close>

inductive tick_any :: "world \<Rightarrow> world \<Rightarrow> bool" where
  bounded: "tick w w' \<Longrightarrow> tick_any w w'"
| add_permits: "tick_any w (w\<lparr>releases := (if n = 0 then {#} else {#Locking n#}) + releases w,
    wissued := wissued w + unat n\<rparr>)"

inductive world_reachable_any :: "world \<Rightarrow> bool" where
  start: "world_start w \<Longrightarrow> world_reachable_any w"
| step: "world_reachable_any w \<Longrightarrow> tick_any w w' \<Longrightarrow> world_reachable_any w'"

lemma tick_any_issued: "tick_any w w' \<Longrightarrow> wissued w \<le> wissued w'"
  by (auto elim!: tick_any.cases move.cases retry.cases call.cases simp: tick_def)

lemma tick_any_bounded: "tick_any w w' \<Longrightarrow> wissued w' \<le> max_permits \<Longrightarrow> tick w w'"
  by (auto elim!: tick_any.cases simp: tick_def intro: call.add_permits)

lemma world_reachable_any_bounded: "world_reachable_any w \<Longrightarrow> wissued w \<le> max_permits \<Longrightarrow> world_reachable w"
proof (induction rule: world_reachable_any.induct)
  case (step w w')
  with tick_any_issued [OF step(2)] tick_any_bounded [OF step(2)] show ?case by (auto intro: world_reachable.step)
qed (rule world_reachable.start)

lemma world_reachable_reachable_any: "world_reachable w \<Longrightarrow> world_reachable_any w"
  by (induction rule: world_reachable.induct) (auto intro: world_reachable_any.intros tick_any.bounded)

section \<open>The invariant\<close>

text \<open>
  The selections under way (at most one, as a selection holds the mutex), and the semaphore with the
  queue as the selection under way has left it so far.
\<close>

fun chosen :: "release \<Rightarrow> picking multiset" where
  "chosen (Choosing rem pk) = {#pk#}"
| "chosen r = {#}"

definition choosing :: "release multiset \<Rightarrow> picking multiset" where
  "choosing R = sum_mset (image_mset chosen R)"

definition view :: "world \<Rightarrow> wait_queue" where
  "view w = (if choosing (releases w) = {#} then waiters (wsys w)
     else pick_view (SOME pk. pk \<in># choosing (releases w)))"

definition seen :: "world \<Rightarrow> sys" where
  "seen w = (wsys w)\<lparr>waiters := view w\<rparr>"

text \<open>Where a thread stands agrees with its handle and its waiter.\<close>

definition handle_ok :: "store \<Rightarrow> pc \<Rightarrow> wid option \<Rightarrow> bool" where
  "handle_ok \<sigma> pc h \<longleftrightarrow>
     (case pc of
        Fresh \<Rightarrow> h = None | Start \<Rightarrow> h = None | Slow \<Rightarrow> h = None | Inside \<Rightarrow> h = None
      | Loaded cur \<Rightarrow> h = None \<and> \<not> word_closed cur
      | Look \<Rightarrow> h \<noteq> None | Check \<Rightarrow> h \<noteq> None | Park \<Rightarrow> h \<noteq> None
      | Recheck \<Rightarrow> (\<exists>w. h = Some w \<and> is_notified (\<sigma> w))
      | Ret Pending \<Rightarrow> (\<exists>w. h = Some w \<and> (is_waiting (\<sigma> w) \<longrightarrow> waker (\<sigma> w) \<noteq> None))
      | Ret (Ready r) \<Rightarrow> True)"

definition thread_ok :: "sys \<Rightarrow> thread \<Rightarrow> bool" where
  "thread_ok s t \<longleftrightarrow> handle_ok (store s) (snd t) (f_handle (fst t)) \<and>
     (\<forall>w. f_handle (fst t) = Some w \<and> is_cancelled (store s w) \<longrightarrow> is_closed s) \<and>
     (\<forall>e. snd t = Ret (Ready (Inl e)) \<longrightarrow> is_closed s)"

text \<open>The permits that a release under way still has to give.\<close>

fun in_flight :: "release \<Rightarrow> nat" where
  "in_flight (Dropping n) = unat n"
| "in_flight (Giving n) = unat n"
| "in_flight (Locking n) = unat n"
| "in_flight (Choosing rem pk) = unat (pk_avail pk)"
| "in_flight (Selected l k rem) = unat rem"
| "in_flight (Waking l rem) = unat rem"
| "in_flight (Putting rem) = unat rem"
| "in_flight _ = 0"

definition flying :: "release multiset \<Rightarrow> nat" where
  "flying R = sum_mset (image_mset in_flight R)"

text \<open>A selection only takes waiters out, and never makes the heap of active priorities larger.\<close>

fun release_ok :: "sys \<Rightarrow> release \<Rightarrow> bool" where
  "release_ok s (Choosing rem pk) \<longleftrightarrow> pick_ok (store s) pk \<and> pk_avail pk = rem - pk_assigned pk \<and>
     length (active_priorities (pick_view pk)) \<le> length (active_priorities (waiters s)) \<and>
     pick_size (pick_view pk) \<le> pick_size (waiters s)"
| "release_ok s (Selected l k rem) \<longleftrightarrow> wake_list_ok l"
| "release_ok s (Waking l rem) \<longleftrightarrow> wake_list_ok l"
| "release_ok s (Dropping n) \<longleftrightarrow> n \<noteq> 0"
| "release_ok s Panicked \<longleftrightarrow> is_closed s"
| "release_ok s _ \<longleftrightarrow> True"

definition inside :: "thread multiset \<Rightarrow> nat" where
  "inside T = size (filter_mset (\<lambda>t. snd t = Inside) T)"

definition world_balance :: "world \<Rightarrow> nat" where
  "world_balance w = free (wsys w) + permits_in (wheld w) + reserved (store (wsys w)) (tasks w) +
     flying (releases w) + wretired w"

definition permits_ok :: "world \<Rightarrow> bool" where
  "permits_ok w \<longleftrightarrow> (is_closed (wsys w) \<or> world_balance w = wissued w) \<and>
     permits_in (wheld w) \<le> wissued w \<and> wissued w \<le> max_permits"

text \<open>The closers that hold the mutex; all calls of \<open>close\<close> have returned.\<close>

definition busy_closers :: "closing multiset \<Rightarrow> nat" where
  "busy_closers C = size (filter_mset busy C)"

definition shut :: "closing multiset \<Rightarrow> bool" where
  "shut C \<longleftrightarrow> (\<forall>c \<in># C. c = Shut)"

definition closing_ok :: "world \<Rightarrow> bool" where
  "closing_ok w \<longleftrightarrow> (closers w \<noteq> {#} \<longrightarrow> is_closed (wsys w)) \<and> (\<forall>c \<in># closers w. closer_ok (wsys w) c) \<and>
     (is_closed (wsys w) \<and> shut (closers w) \<longrightarrow> queued (waiters (wsys w)) = {} \<and> \<not> locked w)"

text \<open>The waiters of futures that are being dropped are nobody else's.\<close>

definition leaving_ok :: "world \<Rightarrow> bool" where
  "leaving_ok w \<longleftrightarrow> (\<forall>x \<in># leavers w. leaver_ok (wsys w) (tasks w) x)"

definition world_inv :: "world \<Rightarrow> bool" where
  "world_inv w \<longleftrightarrow> core_inv (seen w) (tasks w) \<and> (\<forall>t \<in># threads w. thread_ok (wsys w) t) \<and>
     (\<forall>r \<in># releases w. release_ok (wsys w) r) \<and>
     inside (threads w) + size (choosing (releases w)) + busy_closers (closers w) = (if locked w then 1 else 0) \<and>
     closing_ok w \<and> permits_ok w \<and> leaving_ok w"

end
