(* ===== verification/World_Inv.thy ===== *)
theory World_Inv
  imports World
begin

text \<open>
  Every step of the interleaved system keeps its invariant.
\<close>

section \<open>One step of a poll\<close>

lemma task_of_sel [simp]: "fst (task_of t) = fst t" "snd (task_of t) = finished (snd t)"
  by (simp_all add: task_of_def)

lemma task_of_pair: "task_of (f, pc) = (f, finished pc)"
  by (simp add: task_of_def)

text \<open>What a step may do to the system and to its own thread, the other tasks being \<open>F\<close>.\<close>

definition poll_keeps :: "task multiset \<Rightarrow> thread \<Rightarrow> sys \<Rightarrow> thread \<Rightarrow> sys \<Rightarrow> bool" where
  "poll_keeps F t s t' s' \<longleftrightarrow> core_inv s' (add_mset (task_of t') F) \<and> thread_ok s' t' \<and>
     is_closed s' = is_closed s \<and> (\<forall>v \<in># handles F. store s' v = store s v) \<and>
     (if is_closed s then ret_permit (snd t') = {#}
      else free s' + permits_in (ret_permit (snd t')) + reserved (store s') (add_mset (task_of t') F) =
        free s + reserved (store s) (add_mset (task_of t) F))"

lemma reserved_unfinished:
  "finished pc = finished pc' \<Longrightarrow> reserved \<sigma> (add_mset (task_of (f, pc)) F) = reserved \<sigma> (add_mset (task_of (f, pc')) F)"
  by (simp add: task_of_def)

text \<open>A step to another point of the same poll.\<close>

lemma poll_keeps_quiet:
  assumes "core_inv s (add_mset (task_of (f, pc)) F)" "thread_ok s (f, pc')"
    and "finished pc' = finished pc" "ret_permit pc' = {#}"
  shows "poll_keeps F (f, pc) s (f, pc') s"
  using assms by (simp add: poll_keeps_def task_sums task_of_def)

text \<open>A return.\<close>

lemma poll_keeps_error:
  assumes core: "core_inv s (add_mset (task_of (f, pc)) F)" and "is_closed s"
    and "\<And>w. f_handle f = Some w \<Longrightarrow> \<not> is_waiting (store s w)"
  shows "poll_keeps F (f, pc) s (f, Ret (Ready (Inl e))) s"
  using core_finish [OF core [unfolded task_of_def fst_conv snd_conv] assms(3)] assms(2)
  by (simp add: poll_keeps_def thread_ok_def handle_ok_def task_of_def)

lemma poll_keeps_permit:
  assumes core: "core_inv s (add_mset (task_of (f, pc)) F)" and ok: "thread_ok s (f, pc)"
    and open_: "\<not> is_closed s" and f: "f_handle f = Some w" "is_notified (store s w)" "\<not> finished pc"
  shows "poll_keeps F (f, pc) s (f, Ret (Ready (Inr \<lparr>p_sem = f_sem f, p_permits = ucast (f_needed f)\<rparr>))) s"
proof -
  note core' = core [unfolded task_of_def fst_conv snd_conv]
  have "core_inv s (add_mset (f, True) F)"
    using core' by (rule core_finish) (use f in \<open>simp add: waiter_tests\<close>)
  with ok open_ f task_okD(3) [OF core_own(3) [OF core']] show ?thesis
    by (simp add: poll_keeps_def thread_ok_def handle_ok_def task_of_def task_sums)
qed

lemma poll_keeps_take:
  assumes core: "core_inv s (add_mset (task_of (f, pc)) F)" and f: "f_handle f = None"
    and open_: "\<not> is_closed s" and fits: "push_bit PERMIT_SHIFT (f_needed f) \<le> permits s"
  shows "poll_keeps F (f, pc) s (f, Ret (Ready (Inr \<lparr>p_sem = f_sem f, p_permits = ucast (f_needed f)\<rparr>)))
    (s\<lparr>permits := permits s - push_bit PERMIT_SHIFT (f_needed f)\<rparr>)"
proof -
  let ?s' = "s\<lparr>permits := permits s - push_bit PERMIT_SHIFT (f_needed f)\<rparr>"
  note core' = core [unfolded task_of_def fst_conv snd_conv]
  note T = task_okD [OF core_own(3) [OF core']]
  have n: "unat (f_needed f) < 2 ^ 63" using T(2) by simp
  note taken = free_taken [OF n fits]
  have "core_inv s (add_mset (f, True) F)" using core' by (rule core_finish) (use f in simp)
  then have "core_inv ?s' (add_mset (f, True) F)" by (rule core_frame) simp_all
  with open_ taken T(3) f show ?thesis
    by (simp add: poll_keeps_def thread_ok_def handle_ok_def task_of_def task_sums)
qed

lemma word_frame:
  "is_closed (s\<lparr>store := \<sigma>, next_wid := n, waiters := q\<rparr>) = is_closed s"
  "available_permits (s\<lparr>store := \<sigma>, next_wid := n, waiters := q\<rparr>) = available_permits s"
  "is_closed (s\<lparr>store := \<sigma>\<rparr>) = is_closed s" "available_permits (s\<lparr>store := \<sigma>\<rparr>) = available_permits s"
  "is_closed (s\<lparr>store := \<sigma>, waiters := q\<rparr>) = is_closed s"
  "available_permits (s\<lparr>store := \<sigma>, waiters := q\<rparr>) = available_permits s"
  "is_closed (s\<lparr>woken := ws\<rparr>) = is_closed s" "available_permits (s\<lparr>woken := ws\<rparr>) = available_permits s"
  by (simp_all add: is_closed_def available_permits_def)

lemma poll_keeps_push:
  assumes core: "core_inv s (add_mset (task_of (f, Inside)) F)" and f: "f_handle f = None"
    and t: "poll_tick cas_ok k Inside f (lock, s) = Some (pc', f', l', s')"
  shows "poll_keeps F (f, Inside) s (f', pc') s'" "pc' = Look" "\<not> l'"
proof -
  note core' = core [unfolded task_of_def fst_conv snd_conv finished.simps]
  from t have res: "pc' = Look" "f' = f\<lparr>f_handle := Some (next_wid s)\<rparr>" "\<not> l'"
    and s': "s' = s\<lparr>store := (store s)(next_wid s := waiter_new (f_needed f) (f_priority f)),
      next_wid := next_wid s + 1, waiters := insert_waiter_optimized (waiters s) (next_wid s) (f_priority f)\<rparr>"
    by (auto simp: push_waiter_def waiter_handle_new_def Let_def)
  then show "pc' = Look" "\<not> l'" by simp_all
  note C = core_push [OF core' f _ _ _ s']
  have "next_wid s \<notin># handles F" using core_invD(6) [OF core', of "next_wid s"] by (auto simp: task_sums)
  then have other: "store s' v = store s v" if "v \<in># handles F" for v using that by (auto simp: s')
  have new: "\<not> is_cancelled (store s' (next_wid s))" by (simp add: s' waiter_tests)
  have "is_closed s' = is_closed s" "free s' = free s" by (simp_all add: s' word_frame)
  with C other new show "poll_keeps F (f, Inside) s (f', pc') s'"
    by (simp add: poll_keeps_def thread_ok_def handle_ok_def task_of_def res task_sums)
qed

lemma poll_keeps_park:
  assumes core: "core_inv s (add_mset (task_of (f, Park)) F)" and ok: "thread_ok s (f, Park)"
    and f: "f_handle f = Some w"
  shows "poll_keeps F (f, Park) s (f, Ret Pending) (s\<lparr>store := (store s)(w := set_waker (store s w) k)\<rparr>)"
proof -
  let ?s' = "s\<lparr>store := (store s)(w := set_waker (store s w) k)\<rparr>"
  note core' = core [unfolded task_of_def fst_conv snd_conv finished.simps]
  note C = core_set_waker [OF core' f, of ?s' k]
  have "w \<notin># handles F" using core_own(1) [OF core' f] .
  with C ok f show ?thesis
    by (auto simp: poll_keeps_def thread_ok_def handle_ok_def task_of_def task_sums word_frame waiter_tests)
qed

lemma word_closed_permits: "word_closed (permits s) = is_closed s"
  by (simp add: is_closed_def word_closed_def)

lemma poll_tick_keeps:
  assumes core: "core_inv s (add_mset (task_of (f, pc)) F)" and ok: "thread_ok s (f, pc)"
    and t: "poll_tick cas_ok k pc f (lock, s) = Some (pc', f', l', s')"
  shows "poll_keeps F (f, pc) s (f', pc') s'"
proof (cases pc)
  case Start
  then have h: "f_handle f = None" using ok by (simp add: thread_ok_def handle_ok_def)
  show ?thesis
  proof (cases "is_closed s")
    case True
    with t Start have r: "pc' = Ret (Ready (Inl acquire_error_closed))" "f' = f" "s' = s"
      by (auto simp: closed_word)
    show ?thesis unfolding r by (rule poll_keeps_error [OF core True]) (use h in simp)
  next
    case False
    with t Start have r: "pc' = Loaded (permits s)" "f' = f" "s' = s" by (auto simp: closed_word)
    show ?thesis unfolding r
      by (rule poll_keeps_quiet [OF core])
        (use h Start False in \<open>simp_all add: thread_ok_def handle_ok_def word_closed_permits\<close>)
  qed
next
  case (Loaded cur)
  then have h: "f_handle f = None" "\<not> word_closed cur" using ok by (simp_all add: thread_ok_def handle_ok_def)
  show ?thesis
  proof (cases "push_bit PERMIT_SHIFT (f_needed f) \<le> cur \<and> permits s = cur \<and> cas_ok")
    case True
    with t Loaded have r: "pc' = Ret (Ready (Inr \<lparr>p_sem = f_sem f, p_permits = ucast (f_needed f)\<rparr>))"
      "f' = f" "s' = s\<lparr>permits := permits s - push_bit PERMIT_SHIFT (f_needed f)\<rparr>"
      by (auto simp: Let_def)
    have "\<not> is_closed s" using h(2) True word_closed_permits by auto
    with True show ?thesis unfolding r by (intro poll_keeps_take [OF core h(1)]) auto
  next
    case False
    with t Loaded have r: "pc' = Slow" "f' = f" "s' = s" by (auto simp: Let_def)
    show ?thesis unfolding r
      by (rule poll_keeps_quiet [OF core]) (use h Loaded in \<open>simp_all add: thread_ok_def handle_ok_def\<close>)
  qed
next
  case Slow
  then have h: "f_handle f = None" using ok by (simp add: thread_ok_def handle_ok_def)
  show ?thesis
  proof (cases "is_closed s")
    case True
    with t Slow have r: "pc' = Ret (Ready (Inl acquire_error_closed))" "f' = f" "s' = s"
      by (auto simp: closed_word split: if_splits)
    show ?thesis unfolding r by (rule poll_keeps_error [OF core True]) (use h in simp)
  next
    case False
    with t Slow have r: "pc' = Inside" "f' = f" "s' = s" by (auto simp: closed_word split: if_splits)
    show ?thesis unfolding r
      by (rule poll_keeps_quiet [OF core]) (use h Slow in \<open>simp_all add: thread_ok_def handle_ok_def\<close>)
  qed
next
  case Inside
  then have "f_handle f = None" using ok by (simp add: thread_ok_def handle_ok_def)
  from poll_keeps_push(1) [OF core [unfolded Inside] this t [unfolded Inside]] Inside show ?thesis by simp
next
  case Look
  then obtain w where w: "f_handle f = Some w" using ok by (auto simp: thread_ok_def handle_ok_def)
  show ?thesis
  proof (cases "is_cancelled (store s w)")
    case True
    with t Look w have r: "pc' = Ret (Ready (Inl acquire_error_closed))" "f' = f" "s' = s" by auto
    have "is_closed s" using ok True w by (auto simp: thread_ok_def)
    then show ?thesis unfolding r
      by (rule poll_keeps_error [OF core]) (use w True in \<open>auto simp: waiter_tests\<close>)
  next
    case False
    with t Look w have r: "pc' = Check" "f' = f" "s' = s" by auto
    show ?thesis unfolding r
      by (rule poll_keeps_quiet [OF core]) (use w Look ok in \<open>simp_all add: thread_ok_def handle_ok_def\<close>)
  qed
next
  case Check
  then obtain w where w: "f_handle f = Some w" using ok by (auto simp: thread_ok_def handle_ok_def)
  with t Check have r: "pc' = (if is_notified (store s w) then Recheck else Park)" "f' = f" "s' = s" by auto
  show ?thesis unfolding r(2,3)
    by (rule poll_keeps_quiet [OF core]) (use w Check ok r(1) in \<open>auto simp: thread_ok_def handle_ok_def\<close>)
next
  case Recheck
  then obtain w where w: "f_handle f = Some w" "is_notified (store s w)"
    using ok by (auto simp: thread_ok_def handle_ok_def)
  show ?thesis
  proof (cases "is_closed s")
    case True
    with t Recheck have r: "pc' = Ret (Ready (Inl acquire_error_closed))" "f' = f" "s' = s" by auto
    show ?thesis unfolding r
      by (rule poll_keeps_error [OF core True]) (use w in \<open>auto simp: waiter_tests\<close>)
  next
    case False
    with t Recheck have r: "pc' = Ret (Ready (Inr \<lparr>p_sem = f_sem f, p_permits = ucast (f_needed f)\<rparr>))"
      "f' = f" "s' = s" by auto
    show ?thesis unfolding r
      by (rule poll_keeps_permit [OF core ok False w]) (simp add: Recheck)
  qed
next
  case Park
  then obtain w where w: "f_handle f = Some w" using ok by (auto simp: thread_ok_def handle_ok_def)
  with t Park have r: "pc' = Ret Pending" "f' = f" "s' = s\<lparr>store := (store s)(w := set_waker (store s w) k)\<rparr>"
    by auto
  show ?thesis unfolding r Park by (rule poll_keeps_park [OF core [unfolded Park] ok [unfolded Park] w])
qed (use t in simp_all)

lemma poll_tick_lock:
  assumes t: "poll_tick cas_ok k pc f (lock, s) = Some (pc', f', l', s')"
  shows "pc = Slow \<and> pc' = Inside \<and> \<not> lock \<and> l' \<and> \<not> is_closed s \<or> pc = Inside \<and> pc' \<noteq> Inside \<and> \<not> l' \<or>
      pc \<noteq> Inside \<and> pc' \<noteq> Inside \<and> l' = lock"
    and "pc \<noteq> Inside \<Longrightarrow> waiters s' = waiters s"
proof -
  show "pc = Slow \<and> pc' = Inside \<and> \<not> lock \<and> l' \<and> \<not> is_closed s \<or> pc = Inside \<and> pc' \<noteq> Inside \<and> \<not> l' \<or>
      pc \<noteq> Inside \<and> pc' \<noteq> Inside \<and> l' = lock"
    using t by (cases pc)
      (auto simp: closed_word push_waiter_def waiter_handle_new_def Let_def split: if_splits option.splits)
  show "waiters s' = waiters s" if "pc \<noteq> Inside"
    using t that by (cases pc) (auto simp: Let_def split: if_splits option.splits)
qed

text \<open>A step makes no waiter wait again, and the only waiter it may acquire is a new one.\<close>

lemma poll_tick_old:
  assumes t: "poll_tick cas_ok k pc f (lock, s) = Some (pc', f', l', s')"
  shows "next_wid s \<le> next_wid s'"
    and "v < next_wid s \<Longrightarrow> is_waiting (store s' v) = is_waiting (store s v)"
    and "v < next_wid s \<Longrightarrow> v \<in># handle_of (f', d') \<Longrightarrow> v \<in># handle_of (f, d)"
  using t by (cases pc; auto simp: push_waiter_def waiter_handle_new_def Let_def handle_of_def waiter_tests
      split: if_splits option.splits)+

section \<open>One step of a release\<close>

text \<open>Adding permits never touches the closed flag, even when the count wraps.\<close>

lemma add_keeps_flag: "is_closed (s\<lparr>permits := permits s + push_bit PERMIT_SHIFT n\<rparr>) = is_closed s"
proof -
  have "is_closed s \<longleftrightarrow> odd (permits s)" for s
    by (simp add: is_closed_def CLOSED_def and_one_eq odd_iff_mod_2_eq_one)
  moreover have "even (push_bit PERMIT_SHIFT n :: usize)" by (simp add: PERMIT_SHIFT_def even_push_bit_iff)
  ultimately show ?thesis by simp
qed

text \<open>A step that neither makes a selection nor starts or ends one leaves the waiters and the mutex alone.\<close>

definition release_quiet :: "release \<Rightarrow> bool \<times> sys \<Rightarrow> release \<Rightarrow> bool \<times> sys \<Rightarrow> bool" where
  "release_quiet r x r' y \<longleftrightarrow> fst y = fst x \<and> chosen r = {#} \<and> chosen r' = {#} \<and>
     release_ok (snd y) r' \<and> is_closed (snd y) = is_closed (snd x) \<and> store (snd y) = store (snd x) \<and>
     waiters (snd y) = waiters (snd x) \<and> next_wid (snd y) = next_wid (snd x) \<and>
     sem_addr (snd y) = sem_addr (snd x) \<and>
     (is_closed (snd x) \<or> free (snd y) + in_flight r' = free (snd x) + in_flight r)"

text \<open>What a step of a release can be.\<close>

inductive release_case :: "release \<Rightarrow> bool \<times> sys \<Rightarrow> release \<Rightarrow> bool \<times> sys \<Rightarrow> bool" where
  quiet: "release_quiet r (l, s) r' (l', s') \<Longrightarrow> release_case r (l, s) r' (l', s')"
| enter: "r = Dropping n \<or> r = Locking n \<Longrightarrow> \<not> is_empty (waiters s) \<Longrightarrow>
    release_case r (False, s) (Choosing n (pick_start n (waiters s))) (True, s)"
| pick: "pk_at pk \<noteq> Picked \<Longrightarrow> pick_step pk (store s) = Some (pk', \<sigma>) \<Longrightarrow>
    release_case (Choosing rem pk) (l, s) (Choosing rem pk') (l, s\<lparr>store := \<sigma>\<rparr>)"
| leave: "pk_at pk = Picked \<Longrightarrow>
    release_case (Choosing rem pk) (l, s) (pick_result rem pk) (False, s\<lparr>waiters := pk_self pk\<rparr>)"

lemma release_tick_case:
  assumes ok: "release_ok s r" and bound: "is_closed s \<or> free s + in_flight r \<le> max_permits"
    and t: "release_tick chk r (lock, s) = Some (r', l', s')"
  shows "release_case r (lock, s) r' (l', s')"
proof (cases r)
  case (Dropping n)
  show ?thesis
  proof (cases "is_empty (waiters s)")
    case True
    with t Dropping have "r' = Giving n" "s' = s" "l' = lock" by (auto simp: release_enter_def split: if_splits)
    then show ?thesis using Dropping by (intro release_case.quiet) (simp add: release_quiet_def)
  next
    case False
    with t Dropping have e: "r' = Choosing n (pick_start n (waiters s))" "s' = s" "l'" "\<not> lock"
      by (auto simp: release_enter_def split: if_splits)
    with False Dropping release_case.enter [of r n s] show ?thesis by simp
  qed
next
  case (Giving n)
  with t have "r' = Released" "l' = lock" "s' = s\<lparr>permits := permits s + push_bit PERMIT_SHIFT n\<rparr>" by auto
  moreover have "is_closed s \<or> free (s\<lparr>permits := permits s + push_bit PERMIT_SHIFT n\<rparr>) = free s + unat n"
    using bound Giving released_word(1) [of s n] by auto
  ultimately show ?thesis
    using Giving by (intro release_case.quiet) (simp add: release_quiet_def add_keeps_flag)
next
  case (Locking n)
  consider "n = 0" | "n \<noteq> 0" "is_empty (waiters s)" | "n \<noteq> 0" "\<not> is_empty (waiters s)" by blast
  then show ?thesis
  proof cases
    case 3
    with t Locking have e: "r' = Choosing n (pick_start n (waiters s))" "s' = s" "l'" "\<not> lock"
      by (auto simp: release_enter_def split: if_splits)
    with 3 Locking release_case.enter [of r n s] show ?thesis by simp
  qed (use t Locking in \<open>auto simp: release_enter_def release_quiet_def split: if_splits intro!: release_case.quiet\<close>)
next
  case (Choosing rem pk)
  then show ?thesis
    using t by (auto intro: release_case.intros split: if_splits option.splits)
next
  case (Selected l k rem)
  show ?thesis
  proof (cases "is_closed s")
    case True
    with t Selected have "r' = Released" "l' = lock" "s' = s\<lparr>permits := permits s + push_bit PERMIT_SHIFT k\<rparr>" by auto
    then show ?thesis
      using True Selected by (intro release_case.quiet) (simp add: release_quiet_def add_keeps_flag)
  next
    case False
    with t Selected have "r' = Waking l rem" "l' = lock" "s' = s" by auto
    then show ?thesis using Selected ok by (intro release_case.quiet) (simp add: release_quiet_def)
  qed
next
  case (Waking l rem)
  then obtain ws where "l = wake_list_of ws" "length ws \<le> NUM_WAKERS"
    using ok by (auto elim: wake_list_okE)
  then have "wake_all l = Some (ws, wake_list_of [])" by (simp add: wake_all_of)
  with t Waking have "r' = Putting rem" "l' = lock" "s' = s\<lparr>woken := woken s @ ws\<rparr>"
    by (auto simp: NUM_WAKERS_def)
  then show ?thesis
    using Waking by (intro release_case.quiet) (simp add: release_quiet_def word_frame)
next
  case (Putting rem)
  then have r: "(r', s') = release_put chk rem s" and l: "l' = lock" using t by (auto split: prod.splits)
  show ?thesis
  proof (cases "is_closed s")
    case True
    with r l Putting show ?thesis
      by (intro release_case.quiet)
        (auto simp: release_quiet_def release_put_def Let_def add_keeps_flag split: if_splits)
  next
    case False
    then have b: "free s + unat rem \<le> max_permits" using bound Putting by simp
    from r release_put_done [OF this] have "r' = Released" "s' = s\<lparr>permits := permits s + push_bit PERMIT_SHIFT rem\<rparr>"
      by simp_all
    with released_word(1) [OF b] Putting l show ?thesis
      by (intro release_case.quiet) (simp add: release_quiet_def add_keeps_flag)
  qed
qed (use t in simp_all)

text \<open>What a step of a selection adds to the permits assigned it takes from those available.\<close>

lemma pick_step_sum:
  "pick_step pk \<sigma> = Some (pk', \<sigma>') \<Longrightarrow> pk_avail pk' + pk_assigned pk' = pk_avail pk + pk_assigned pk"
  by (auto simp: pick_step_def pick_outer_def pick_finish_def pick_front_def pick_leave_def pick_pop_def
      pick_notify_def pick_take_def pick_swept_def Let_def
      split: point.splits option.splits list.splits if_splits prod.splits)

text \<open>The heap of a selection never grows.\<close>

lemma length_fold_Cons: "length (fold (#) xs ys) = length xs + length ys"
  by (simp add: fold_Cons_rev)

lemma length_heap_pop: "heap_peek h = Some x \<Longrightarrow> length h = Suc (length (heap_pop h))"
  by (drule bh.size_pop) simp

lemma view_heap:
  "length (active_priorities (pick_view pk)) =
     (let n = length (active_priorities (pk_self pk))
      in case pk_at pk of Picked \<Rightarrow> n | Outer \<Rightarrow> length (pk_restore pk) + n | _ \<Rightarrow> Suc (length (pk_restore pk) + n))"
  by (simp add: pick_view_def split: point.split)

lemma pick_finish_heap:
  "length (active_priorities (pick_view (pick_finish pk))) = length (pk_restore pk) + length (active_priorities (pk_self pk))"
  by (simp add: view_heap pick_finish_def length_fold_Cons)

lemma pick_outer_heap:
  "pick_outer pk \<sigma> = Some pk' \<Longrightarrow> pk_at pk = Outer \<Longrightarrow>
   length (active_priorities (pick_view pk')) \<le> length (active_priorities (pick_view pk))"
  by (auto simp: pick_outer_def pick_finish_def length_fold_Cons view_heap Let_def
      split: option.splits list.splits if_splits dest: length_heap_pop)

lemma pick_pop_heap:
  "pick_pop pk = Some pk' \<Longrightarrow> pk_at pk' = pk_at pk \<and> pk_restore pk' = pk_restore pk \<and>
   active_priorities (pk_self pk') = active_priorities (pk_self pk)"
  by (auto simp: pick_pop_def split: if_splits)

lemma pick_leave_heap:
  "pk_at pk = Front \<Longrightarrow> length (active_priorities (pick_view (pick_leave pk))) \<le> length (active_priorities (pick_view pk))"
  by (simp add: view_heap pick_leave_def)

lemma pick_front_heap:
  "pick_front pk \<sigma> = Some pk' \<Longrightarrow> pk_at pk = Front \<Longrightarrow>
   length (active_priorities (pick_view pk')) \<le> length (active_priorities (pick_view pk))"
  by (auto simp: pick_front_def pick_leave_heap split: list.splits if_splits)
    (auto simp: view_heap dest!: pick_pop_heap)

lemma pick_notify_heap:
  "pick_notify w pk \<sigma> = Some (pk', \<sigma>') \<Longrightarrow> pk_at pk = Notify w \<Longrightarrow>
   length (active_priorities (pick_view pk')) \<le> length (active_priorities (pick_view pk))"
  by (auto simp: pick_notify_def view_heap Let_def split: option.splits prod.splits if_splits dest!: pick_pop_heap)

lemma pick_take_heap:
  "pick_take w pk \<sigma> = Some (pk', \<sigma>') \<Longrightarrow> pk_at pk = Take w \<Longrightarrow>
   length (active_priorities (pick_view pk')) \<le> length (active_priorities (pick_view pk))"
  by (auto simp: pick_take_def view_heap Let_def split: option.splits prod.splits if_splits)

lemma pick_swept_heap:
  "pk_at pk = Sweep kept' todo \<Longrightarrow>
   length (active_priorities (pick_view (pick_swept kept pk))) \<le> length (active_priorities (pick_view pk))"
  by (simp add: pick_swept_def Let_def pick_finish_heap) (simp add: view_heap)

lemma pick_step_heap:
  "pick_step pk \<sigma> = Some (pk', \<sigma>') \<Longrightarrow>
   length (active_priorities (pick_view pk')) \<le> length (active_priorities (pick_view pk))"
  by (cases "pk_at pk"; auto simp: pick_step_def pick_outer_heap pick_front_heap pick_notify_heap pick_take_heap
      pick_swept_heap split: list.splits; simp add: view_heap)

section \<open>The parts of the invariant\<close>

lemma world_invD:
  assumes "world_inv w"
  shows "core_inv (seen w) (tasks w)" "t \<in># threads w \<Longrightarrow> thread_ok (wsys w) t"
    and "r \<in># releases w \<Longrightarrow> release_ok (wsys w) r" "inside (threads w) + size (choosing (releases w)) + busy_closers (closers w) = (if locked w then 1 else 0)"
    and "closing_ok w" "permits_ok w" "leaving_ok w"
  using assms by (simp_all add: world_inv_def)

lemma thread_sums:
  "tasks (w\<lparr>threads := add_mset t T\<rparr>) = add_mset (task_of t) (image_mset task_of T)"
  "inside (add_mset t T) = (if snd t = Inside then 1 else 0) + inside T" "inside {#} = 0"
  "flying (add_mset r R) = in_flight r + flying R" "flying {#} = 0" "flying (R + R') = flying R + flying R'"
  "choosing (add_mset r R) = chosen r + choosing R" "choosing {#} = {#}" "choosing (R + R') = choosing R + choosing R'"
  "busy_closers (add_mset c C) = (if busy c then 1 else 0) + busy_closers C" "busy_closers {#} = 0"
  by (simp_all add: tasks_def inside_def flying_def choosing_def busy_closers_def)

lemma tasks_split: "threads w = add_mset t T \<Longrightarrow> tasks w = add_mset (task_of t) (image_mset task_of T)"
  by (simp add: tasks_def)

text \<open>The other threads keep their part as long as their waiters do.\<close>

lemma thread_ok_evolves:
  assumes ok: "thread_ok s t" and flag: "is_closed s \<Longrightarrow> is_closed s'"
    and ev: "\<And>w. f_handle (fst t) = Some w \<Longrightarrow>
      (is_notified (store s w) \<longrightarrow> is_notified (store s' w)) \<and>
      (is_cancelled (store s' w) \<longrightarrow> is_cancelled (store s w) \<or> is_closed s') \<and>
      (is_waiting (store s' w) \<longrightarrow> store s' w = store s w)"
  shows "thread_ok s' t"
proof (cases "f_handle (fst t)")
  case None
  with ok flag show ?thesis by (auto simp: thread_ok_def handle_ok_def split: pc.splits poll.splits)
next
  case (Some w)
  have "handle_ok (store s') (snd t) (Some w)"
    using ok ev [OF Some] Some by (auto simp: thread_ok_def handle_ok_def split: pc.splits poll.splits)
  moreover have "is_cancelled (store s' w) \<longrightarrow> is_closed s'"
    using ok ev [OF Some] Some flag by (auto simp: thread_ok_def)
  ultimately show ?thesis using ok flag Some by (auto simp: thread_ok_def)
qed

lemma thread_ok_other:
  assumes "thread_ok s t" "is_closed s \<Longrightarrow> is_closed s'"
    and "\<And>w. f_handle (fst t) = Some w \<Longrightarrow> store s' w = store s w"
  shows "thread_ok s' t"
  using assms(1,2) by (rule thread_ok_evolves) (simp_all add: assms(3))

lemma thread_ok_picked:
  assumes "thread_ok s t" "is_closed s' = is_closed s" "\<And>v. picked_at (store s v) (store s' v)"
  shows "thread_ok s' t"
  using assms(1)
proof (rule thread_ok_evolves)
  show "(is_notified (store s w) \<longrightarrow> is_notified (store s' w)) \<and>
      (is_cancelled (store s' w) \<longrightarrow> is_cancelled (store s w) \<or> is_closed s') \<and>
      (is_waiting (store s' w) \<longrightarrow> store s' w = store s w)" for w
    using assms(3) [of w] by (auto simp: picked_at_def waiter_tests)
qed (simp add: assms(2))

lemma picked_evolves: "picked_at a b \<Longrightarrow> evolves a b"
  by (auto simp: picked_at_def evolves_def waiter_ok_def waiter_tests)

lemma pick_ok_evolves: "pick_ok \<sigma> pk \<Longrightarrow> (\<And>v. evolves (\<sigma> v) (\<sigma>' v)) \<Longrightarrow> pick_ok \<sigma>' pk"
  by (auto simp: pick_ok_def evolves_def split: point.splits)

text \<open>A release keeps its part, too; what a selection relies on changes only while none is under way.\<close>

lemma release_ok_other:
  assumes "release_ok s r" "is_closed s \<Longrightarrow> is_closed s'"
    and "chosen r \<noteq> {#} \<Longrightarrow> waiters s' = waiters s" "\<And>v. chosen r \<noteq> {#} \<Longrightarrow> evolves (store s v) (store s' v)"
  shows "release_ok s' r"
  using assms pick_ok_evolves [of "store s" _ "store s'"] by (cases r) auto

lemma chosen_none: "choosing R = {#} \<Longrightarrow> r \<in># R \<Longrightarrow> chosen r = {#}"
  by (auto simp: choosing_def)

lemma releases_keep:
  assumes "\<And>r. r \<in># R \<Longrightarrow> release_ok s r" "is_closed s \<Longrightarrow> is_closed s'"
    and "choosing R = {#} \<or> waiters s' = waiters s \<and> (\<forall>v. evolves (store s v) (store s' v))"
    and "r \<in># R"
  shows "release_ok s' r"
  using assms(1) [OF assms(4)] assms(2)
  by (rule release_ok_other) (use assms(3) chosen_none [OF _ assms(4)] in auto)

section \<open>The queue as seen during a selection\<close>

lemma chosen_in: "pk \<in># choosing R \<Longrightarrow> \<exists>rem. Choosing rem pk \<in># R"
proof (induction R)
  case (add r R)
  then show ?case by (cases r) (auto simp: thread_sums)
qed (simp add: thread_sums)

lemma view_free: "choosing (releases w) = {#} \<Longrightarrow> view w = waiters (wsys w)"
  by (simp add: view_def)

lemma view_busy: "choosing (releases w) = {#pk#} \<Longrightarrow> view w = pick_view pk"
  by (simp add: view_def)

lemma view_cong:
  "choosing (releases w') = choosing (releases w) \<Longrightarrow>
   choosing (releases w) = {#} \<Longrightarrow> waiters (wsys w') = waiters (wsys w) \<Longrightarrow> view w' = view w"
  by (simp add: view_def)

lemma view_same:
  "choosing (releases w') = choosing (releases w) \<Longrightarrow> choosing (releases w) = {#} \<longrightarrow> waiters (wsys w') = waiters (wsys w) \<Longrightarrow>
   view w' = view w"
  by (simp add: view_def)

lemma waiters_frame [simp]:
  "is_closed (s\<lparr>waiters := q\<rparr>) = is_closed s" "available_permits (s\<lparr>waiters := q\<rparr>) = available_permits s"
  by (simp_all add: is_closed_def available_permits_def)

lemma seen_sel [simp]:
  "store (seen w) = store (wsys w)" "next_wid (seen w) = next_wid (wsys w)" "sem_addr (seen w) = sem_addr (wsys w)"
  "permits (seen w) = permits (wsys w)" "is_closed (seen w) = is_closed (wsys w)"
  "available_permits (seen w) = available_permits (wsys w)" "waiters (seen w) = view w"
  by (simp_all add: seen_def)

lemma seen_free: "choosing (releases w) = {#} \<Longrightarrow> seen w = wsys w"
  by (simp add: seen_def view_free)

lemma seen_same [simp]: "seen (w\<lparr>threads := T\<rparr>) = seen w" "seen (w\<lparr>attempts := A\<rparr>) = seen w"
  by (simp_all add: seen_def view_def)

lemma drop_future_waiters: "drop_future f (s\<lparr>waiters := q\<rparr>) = (drop_future f s)\<lparr>waiters := q\<rparr>"
  by (simp add: drop_future_eq split: option.split)

lemma thread_ok_seen: "thread_ok (seen w) t = thread_ok (wsys w) t"
  by (simp add: thread_ok_def)

lemma leaver_ok_seen: "leaver_ok (seen w) F x = leaver_ok (wsys w) F x"
  by (simp add: leaver_ok_def)

text \<open>A thread outside the critical section of its poll does not look at the queue.\<close>

lemma poll_tick_waiters:
  assumes "poll_tick cas_ok k pc f (lock, s) = Some (pc', f', l', s')" "pc \<noteq> Inside"
  shows "poll_tick cas_ok k pc f (lock, s\<lparr>waiters := q\<rparr>) = Some (pc', f', l', s'\<lparr>waiters := q\<rparr>)"
    and "waiters s' = waiters s" "evolves (store s v) (store s' v)"
proof -
  show "poll_tick cas_ok k pc f (lock, s\<lparr>waiters := q\<rparr>) = Some (pc', f', l', s'\<lparr>waiters := q\<rparr>)"
    using assms by (cases pc) (auto simp: Let_def split: if_splits option.splits)
  show "waiters s' = waiters s" using poll_tick_lock(2) [OF assms] .
  show "evolves (store s v) (store s' v)"
    using assms by (cases pc) (auto simp: Let_def split: if_splits option.splits)
qed

text \<open>Once closed, no permit is handed out; until then none appears or disappears.\<close>

lemma permits_ok_step:
  assumes ok: "permits_ok w" and issued: "wissued w \<le> wissued w'" "wissued w' \<le> max_permits"
    and flag: "is_closed (wsys w) \<Longrightarrow> is_closed (wsys w')"
    and held: "is_closed (wsys w') \<Longrightarrow> permits_in (wheld w') \<le> permits_in (wheld w)"
    and bal: "\<not> is_closed (wsys w') \<Longrightarrow> world_balance w' + wissued w = world_balance w + wissued w'"
  shows "permits_ok w'"
proof (cases "is_closed (wsys w')")
  case True
  with ok issued held show ?thesis by (force simp: permits_ok_def)
next
  case False
  then have "world_balance w' = wissued w'" using ok flag bal by (auto simp: permits_ok_def)
  then have "permits_in (wheld w') \<le> wissued w'" by (simp add: world_balance_def)
  with \<open>world_balance w' = wissued w'\<close> issued(2) show ?thesis by (simp add: permits_ok_def)
qed


section \<open>The steps of running operations\<close>

lemma lock_holder:
  assumes "world_inv w"
  shows "\<not> locked w \<Longrightarrow> choosing (releases w) = {#} \<and> inside (threads w) = 0 \<and> busy_closers (closers w) = 0"
    and "releases w = add_mset (Choosing rem pk) R \<Longrightarrow>
      choosing (releases w) = {#pk#} \<and> choosing R = {#} \<and> inside (threads w) = 0 \<and>
      busy_closers (closers w) = 0 \<and> locked w"
    and "(f, Inside) \<in># threads w \<Longrightarrow> choosing (releases w) = {#} \<and> busy_closers (closers w) = 0 \<and> locked w"
    and "closers w = add_mset c C \<Longrightarrow> busy c \<Longrightarrow>
      choosing (releases w) = {#} \<and> inside (threads w) = 0 \<and> busy_closers C = 0 \<and> locked w"
proof -
  note L = world_invD(4) [OF assms]
  show "choosing (releases w) = {#} \<and> inside (threads w) = 0 \<and> busy_closers (closers w) = 0" if "\<not> locked w"
    using L that by simp
  show "choosing (releases w) = {#pk#} \<and> choosing R = {#} \<and> inside (threads w) = 0 \<and>
      busy_closers (closers w) = 0 \<and> locked w"
    if "releases w = add_mset (Choosing rem pk) R"
    using L that by (auto simp: thread_sums split: if_splits)
  show "choosing (releases w) = {#} \<and> busy_closers (closers w) = 0 \<and> locked w"
    if member: "(f, Inside) \<in># threads w"
  proof -
    obtain T where "threads w = add_mset (f, Inside) T" using multi_member_split [OF member] by blast
    with L have "Suc (inside T) + size (choosing (releases w)) + busy_closers (closers w) = (if locked w then 1 else 0)"
      by (simp add: thread_sums)
    then show ?thesis by (simp split: if_splits)
  qed
  show "choosing (releases w) = {#} \<and> inside (threads w) = 0 \<and> busy_closers C = 0 \<and> locked w"
    if "closers w = add_mset c C" "busy c"
    using L that by (auto simp: thread_sums split: if_splits)
qed

text \<open>The closers keep their part while one of them holds the mutex and waiters only stop waiting.\<close>

lemma not_busy: "busy_closers C = 0 \<Longrightarrow> c \<in># C \<Longrightarrow> \<not> busy c"
  by (auto simp: busy_closers_def)

lemma closers_keep:
  assumes "\<And>c. c \<in># C \<Longrightarrow> closer_ok s c"
    and "busy_closers C = 0 \<or> waiters s' = waiters s \<and> (\<forall>v. evolves (store s v) (store s' v))"
    and "c \<in># C"
  shows "closer_ok s' c"
  using assms(1) [OF assms(3)]
  by (rule closer_ok_other) (use assms(2) not_busy [OF _ assms(3)] in auto)

lemma closing_okD:
  assumes "closing_ok w"
  shows "closers w \<noteq> {#} \<Longrightarrow> is_closed (wsys w)" "c \<in># closers w \<Longrightarrow> closer_ok (wsys w) c"
    and "is_closed (wsys w) \<Longrightarrow> shut (closers w) \<Longrightarrow> queued (waiters (wsys w)) = {} \<and> \<not> locked w"
  using assms by (auto simp: closing_ok_def)

lemma closing_ok_same:
  assumes ok: "closing_ok w" and same: "closers w' = closers w" "is_closed (wsys w') = is_closed (wsys w)"
    and q: "shut (closers w) \<Longrightarrow> is_closed (wsys w) \<Longrightarrow> queued (waiters (wsys w')) = {} \<and> \<not> locked w'"
    and s: "busy_closers (closers w) = 0 \<or>
      waiters (wsys w') = waiters (wsys w) \<and> (\<forall>v. evolves (store (wsys w) v) (store (wsys w') v))"
  shows "closing_ok w'"
  using closers_keep [OF closing_okD(2) [OF ok] s] closing_okD(1) [OF ok] same q
  by (simp add: closing_ok_def shut_def)

text \<open>The futures that are being dropped keep their part as long as no waiter waits again.\<close>

lemma leaving_ok_keep:
  assumes "leaving_ok w" "leavers w' = leavers w" "next_wid (wsys w) \<le> next_wid (wsys w')"
    and "\<And>v. v < next_wid (wsys w) \<Longrightarrow> is_waiting (store (wsys w') v) \<Longrightarrow> is_waiting (store (wsys w) v)"
    and "\<And>v. v < next_wid (wsys w) \<Longrightarrow> v \<in># handles (tasks w') \<Longrightarrow> v \<in># handles (tasks w)"
  shows "leaving_ok w'"
  using assms leaver_ok_other by (auto simp: leaving_ok_def)

lemma leaving_ok_same:
  assumes "leaving_ok w" "leavers w' = leavers w" "tasks w' = tasks w" "next_wid (wsys w') = next_wid (wsys w)"
    and "\<And>v. is_waiting (store (wsys w') v) \<Longrightarrow> is_waiting (store (wsys w) v)"
  shows "leaving_ok w'"
  using assms(1,2) by (rule leaving_ok_keep) (use assms(3-5) in simp_all)

lemma move_poll_keeps:
  assumes inv: "world_inv w" and T: "threads w = add_mset (f, pc) T"
    and t: "poll_tick cas_ok k pc f (locked w, wsys w) = Some (pc', f', l', s')"
    and w': "releases w' = releases w" "wsys w' = s'"
  shows "poll_keeps (image_mset task_of T) (f, pc) (seen w) (f', pc') (seen w')"
proof -
  note I = world_invD [OF inv]
  have "poll_tick cas_ok k pc f (locked w, seen w) = Some (pc', f', l', seen w')"
  proof (cases "choosing (releases w) = {#}")
    case True
    then show ?thesis using t seen_free [of w] seen_free [of w'] w' by simp
  next
    case False
    then have "pc \<noteq> Inside" using lock_holder(3) [OF inv, of f] T by auto
    from poll_tick_waiters(1) [OF t this, of "view w"] False w' show ?thesis
      by (simp add: seen_def view_def)
  qed
  moreover have "thread_ok (seen w) (f, pc)" using I(2) T by (simp add: thread_ok_seen)
  ultimately show ?thesis using poll_tick_keeps [OF I(1) [unfolded tasks_split [OF T]]] by blast
qed

lemma move_poll_inv:
  assumes inv: "world_inv w" and T: "threads w = add_mset (f, pc) T"
    and t: "poll_tick cas_ok k pc f (locked w, wsys w) = Some (pc', f', l', s')"
  shows "world_inv (w\<lparr>wsys := s', locked := l', threads := add_mset (f', pc') T,
    wheld := wheld w + ret_permit pc'\<rparr>)" (is "world_inv ?w'")
proof -
  let ?s = "wsys w" and ?F = "image_mset task_of T"
  note I = world_invD [OF inv] and F = tasks_split [OF T]
  have inside: "choosing (releases w) = {#}" if "pc = Inside" using lock_holder(3) [OF inv, of f] that T by simp
  have "poll_keeps ?F (f, pc) (seen w) (f', pc') (seen ?w')" by (rule move_poll_keeps [OF inv T t]) simp_all
  then have K: "core_inv (seen ?w') (add_mset (task_of (f', pc')) ?F)" "thread_ok s' (f', pc')" "is_closed s' = is_closed ?s"
    and other: "\<And>v. v \<in># handles ?F \<Longrightarrow> store s' v = store ?s v"
    and bal: "if is_closed ?s then ret_permit pc' = {#}
      else free s' + permits_in (ret_permit pc') + reserved (store s') (add_mset (task_of (f', pc')) ?F) =
        free ?s + reserved (store ?s) (add_mset (task_of (f, pc)) ?F)"
    unfolding poll_keeps_def snd_conv thread_ok_seen by (simp_all split: if_splits)
  note L = poll_tick_lock [OF t]
  have in_T: "inside T + (if pc = Inside then 1 else 0) + size (choosing (releases w)) + busy_closers (closers w) =
      (if locked w then 1 else 0)"
    using I(4) T by (simp add: thread_sums)
  have "thread_ok s' x" if x: "x \<in># T" for x
  proof (rule thread_ok_other)
    show "thread_ok ?s x" using I(2) T x by simp
    show "store s' v = store ?s v" if "f_handle (fst x) = Some v" for v
      using other [of v] x that by (force simp: in_handles_iff)
  qed (simp add: K(3))
  moreover have "release_ok s' r" if r: "r \<in># releases w" for r
  proof (rule release_ok_other [OF I(3) [OF r]])
    assume "chosen r \<noteq> {#}"
    moreover obtain R where "releases w = add_mset r R" using r by (metis insert_DiffM)
    ultimately have "choosing (releases w) \<noteq> {#}" by (simp add: thread_sums)
    with inside have "pc \<noteq> Inside" by blast
    with poll_tick_waiters [OF t] show "waiters s' = waiters ?s" "evolves (store ?s v) (store s' v)" for v
      by blast+
  qed (simp add: K(3))
  moreover have "inside (add_mset (f', pc') T) + size (choosing (releases w)) + busy_closers (closers w) =
      (if l' then 1 else 0)"
    using in_T L(1) by (auto simp: thread_sums split: if_splits)
  moreover have "closing_ok ?w'"
  proof (rule closing_ok_same [OF I(5)])
    have "pc \<noteq> Inside" if "\<not> locked w" using in_T that by (auto split: if_splits)
    then show "queued (waiters (wsys ?w')) = {} \<and> \<not> locked ?w'" if "shut (closers w)" "is_closed ?s"
      using closing_okD(3) [OF I(5) that(2,1)] K(3) L that(2) by auto
    show "busy_closers (closers w) = 0 \<or>
        waiters (wsys ?w') = waiters ?s \<and> (\<forall>v. evolves (store ?s v) (store (wsys ?w') v))"
      using in_T poll_tick_waiters [OF t] by (cases "pc = Inside") (auto split: if_splits)
  qed (simp_all add: K(3))
  moreover have "permits_ok ?w'"
    by (rule permits_ok_step [OF I(6)])
      (use bal K(3) I(6) F in \<open>auto simp: permits_ok_def world_balance_def task_sums tasks_def split: if_splits\<close>)
  moreover have "leaving_ok ?w'"
  proof (rule leaving_ok_keep [OF I(7)])
    note O = poll_tick_old [OF t]
    show "v \<in># handles (tasks w)" if "v < next_wid ?s" "v \<in># handles (tasks ?w')" for v
    proof -
      have "tasks ?w' = add_mset (f', finished pc') ?F" "tasks w = add_mset (f, finished pc) ?F"
        using F by (simp_all add: tasks_def task_of_pair)
      with that O(3) [of v "finished pc'" "finished pc"] show ?thesis by (auto simp: task_sums)
    qed
  qed (use poll_tick_old [OF t] in simp_all)
  ultimately show ?thesis using K(1,2) by (auto simp: world_inv_def tasks_def)
qed

text \<open>A step of a release that leaves the waiters alone.\<close>

lemma move_quiet_inv:
  assumes inv: "world_inv w" and R: "releases w = add_mset r R"
    and q: "release_quiet r (locked w, wsys w) r' (l', s')"
  shows "world_inv (w\<lparr>wsys := s', locked := l', releases := add_mset r' R\<rparr>)" (is "world_inv ?w'")
proof -
  let ?s = "wsys w"
  note I = world_invD [OF inv]
  have Q: "l' = locked w" "chosen r = {#}" "chosen r' = {#}" "release_ok s' r'" "is_closed s' = is_closed ?s"
    "store s' = store ?s" "waiters s' = waiters ?s" "next_wid s' = next_wid ?s" "sem_addr s' = sem_addr ?s"
    "is_closed ?s \<or> free s' + in_flight r' = free ?s + in_flight r"
    using q by (simp_all add: release_quiet_def)
  have ch: "choosing (releases ?w') = choosing (releases w)" using R Q(2,3) by (simp add: thread_sums)
  have "view ?w' = view w" by (rule view_same) (use ch Q(7) in simp_all)
  then have "core_inv (seen ?w') (tasks ?w')"
    using core_frame [OF I(1), of "seen ?w'"] Q by (simp add: tasks_def)
  moreover have "thread_ok s' x" if "x \<in># threads w" for x
    using I(2) [OF that] by (rule thread_ok_other) (simp_all add: Q)
  moreover have "release_ok s' x" if "x \<in># R" for x
  proof (rule release_ok_other)
    show "release_ok ?s x" using I(3) [of x] that R by simp
  qed (simp_all add: Q)
  moreover have "closing_ok ?w'"
    by (rule closing_ok_same [OF I(5)]) (use Q closing_okD(3) [OF I(5)] in simp_all)
  moreover have "permits_ok ?w'"
    by (rule permits_ok_step [OF I(6)])
      (use Q I(6) R in \<open>auto simp: permits_ok_def world_balance_def thread_sums tasks_def\<close>)
  moreover have "inside (threads w) + size (choosing (releases ?w')) + busy_closers (closers w) = (if l' then 1 else 0)"
    using I(4) ch Q(1) by simp
  moreover have "leaving_ok ?w'" by (rule leaving_ok_same [OF I(7)]) (simp_all add: Q tasks_def)
  ultimately show ?thesis using Q(4) by (auto simp: world_inv_def)
qed

text \<open>The start of a selection.\<close>

lemma move_enter_inv:
  assumes inv: "world_inv w" and R: "releases w = add_mset r R" and r: "r = Dropping n \<or> r = Locking n"
    and w: "\<not> locked w" "\<not> is_empty (waiters (wsys w))"
  shows "world_inv (w\<lparr>locked := True, releases := add_mset (Choosing n (pick_start n (waiters (wsys w)))) R\<rparr>)"
    (is "world_inv ?w'")
proof -
  let ?s = "wsys w" and ?pk = "pick_start n (waiters (wsys w))"
  note I = world_invD [OF inv]
  have none: "choosing (releases w) = {#}" "inside (threads w) = 0" "busy_closers (closers w) = 0"
    using lock_holder(1) [OF inv w(1)] by simp_all
  then have core: "core_inv ?s (tasks w)" using I(1) by (simp add: seen_free)
  note S = pick_start_keeps [OF core_invD(1) [OF core], of n]
  have R0: "choosing R = {#}" using none R by (simp add: thread_sums)
  then have ch: "choosing (releases ?w') = {#?pk#}" by (simp add: thread_sums)
  have "seen ?w' = ?s\<lparr>waiters := pick_view ?pk\<rparr>" by (simp add: seen_def view_busy [OF ch])
  with core_same_queues [OF core S(1)] have "core_inv (seen ?w') (tasks ?w')" by (simp add: tasks_def)
  moreover have "release_ok ?s (Choosing n ?pk)"
  proof -
    have "pick_size (pick_view ?pk) = pick_size (waiters ?s)"
      using same_queues_inv(3) [OF core_invD(1) [OF core] S(1)] by (simp add: pick_size_def)
    moreover have "pk_assigned ?pk = 0" by (simp add: pick_start_def Let_def split: option.split)
    ultimately show ?thesis using S by simp
  qed
  moreover have "closing_ok ?w'"
    by (rule closing_ok_same [OF I(5)])
      (use none w is_empty_iff [OF core_invD(1) [OF core]] closing_okD(3) [OF I(5)] in auto)
  moreover have "permits_ok ?w'"
    by (rule permits_ok_step [OF I(6)])
      (use S(3) r I(6) R in \<open>auto simp: permits_ok_def world_balance_def thread_sums tasks_def\<close>)
  moreover have "leaving_ok ?w'" by (rule leaving_ok_same [OF I(7)]) (simp_all add: tasks_def)
  ultimately show ?thesis using I(2,3) none R ch R0 by (auto simp: world_inv_def thread_sums)
qed

text \<open>A step of a selection.\<close>

lemma move_pick_inv:
  assumes inv: "world_inv w" and R: "releases w = add_mset (Choosing rem pk) R" and at: "pk_at pk \<noteq> Picked"
    and t: "pick_step pk (store (wsys w)) = Some (pk', \<sigma>)"
  shows "world_inv (w\<lparr>wsys := (wsys w)\<lparr>store := \<sigma>\<rparr>, releases := add_mset (Choosing rem pk') R,
    wretired := wretired w + pick_loss pk (store (wsys w))\<rparr>)" (is "world_inv ?w'")
proof -
  let ?s = "wsys w"
  note I = world_invD [OF inv] and L = lock_holder(2) [OF inv R]
  have seen: "seen w = ?s\<lparr>waiters := pick_view pk\<rparr>" using L by (simp add: seen_def view_busy)
  have ok: "release_ok ?s (Choosing rem pk)" by (rule I(3)) (simp add: R)
  obtain pk1 \<sigma>1 where "pick_step pk (store ?s) = Some (pk1, \<sigma>1)" "pick_keeps (tasks w) pk ?s pk1 \<sigma>1"
    using pick_step_effect [OF I(1) [unfolded seen] _ at] ok by auto
  with t have K: "core_inv (?s\<lparr>store := \<sigma>, waiters := pick_view pk'\<rparr>) (tasks w)" "pick_ok \<sigma> pk'"
    "\<And>v. picked_at (store ?s v) (\<sigma> v)"
    "unat (pk_avail pk') + reserved \<sigma> (tasks w) + pick_loss pk (store ?s) = unat (pk_avail pk) + reserved (store ?s) (tasks w)"
    "pick_size (pick_view pk') \<le> pick_size (pick_view pk)"
    by (simp_all add: pick_keeps_def)
  have ch: "choosing (releases ?w') = {#pk'#}" using L by (simp add: thread_sums)
  have "seen ?w' = ?s\<lparr>store := \<sigma>, waiters := pick_view pk'\<rparr>" by (simp add: seen_def view_busy [OF ch])
  with K(1) have "core_inv (seen ?w') (tasks ?w')" by (simp add: tasks_def)
  moreover have "thread_ok (?s\<lparr>store := \<sigma>\<rparr>) x" if "x \<in># threads w" for x
    using I(2) [OF that] by (rule thread_ok_picked) (simp_all add: word_frame K(3))
  moreover have "release_ok (?s\<lparr>store := \<sigma>\<rparr>) (Choosing rem pk')"
  proof -
    have "pk_avail pk' = rem - pk_assigned pk'"
      using pick_step_sum [OF t] ok by (simp add: algebra_simps)
    moreover have "length (active_priorities (pick_view pk')) \<le> length (active_priorities (pick_view pk))"
      using pick_step_heap [OF t] .
    ultimately show ?thesis using ok K(2,5) by simp
  qed
  moreover have "release_ok (?s\<lparr>store := \<sigma>\<rparr>) x" if "x \<in># R" for x
  proof -
    have "chosen x = {#}" using L that by (cases x) (auto simp: choosing_def)
    moreover have "release_ok ?s x" using I(3) [of x] that R by simp
    ultimately show ?thesis by (auto intro: release_ok_other simp: word_frame)
  qed
  moreover have "closing_ok ?w'"
    by (rule closing_ok_same [OF I(5)]) (use L closing_okD(3) [OF I(5)] in \<open>auto simp: word_frame\<close>)
  moreover have "permits_ok ?w'"
    by (rule permits_ok_step [OF I(6)])
      (use K(4) I(6) R in \<open>auto simp: permits_ok_def world_balance_def thread_sums tasks_def word_frame\<close>)
  moreover have "leaving_ok ?w'"
  proof (rule leaving_ok_same [OF I(7)])
    show "is_waiting (store ?s v)" if "is_waiting (store (wsys ?w') v)" for v
      using that K(3) [of v] by (auto simp: picked_at_def waiter_tests)
  qed (simp_all add: tasks_def)
  ultimately show ?thesis using L ch by (auto simp: world_inv_def)
qed

text \<open>The end of a selection.\<close>

lemma pick_result_sel:
  "chosen (pick_result rem pk) = {#}" "in_flight (pick_result rem pk) = unat (rem - pk_assigned pk)"
  "wake_list_ok (pk_wakes pk) \<Longrightarrow> release_ok s (pick_result rem pk)"
  by (simp_all add: pick_result_def Let_def)

lemma move_leave_inv:
  assumes inv: "world_inv w" and R: "releases w = add_mset (Choosing rem pk) R" and at: "pk_at pk = Picked"
  shows "world_inv (w\<lparr>wsys := (wsys w)\<lparr>waiters := pk_self pk\<rparr>, locked := False,
    releases := add_mset (pick_result rem pk) R\<rparr>)" (is "world_inv ?w'")
proof -
  let ?s = "wsys w" and ?s' = "(wsys w)\<lparr>waiters := pk_self pk\<rparr>"
  note I = world_invD [OF inv] and L = lock_holder(2) [OF inv R] and P = pick_result_sel [where rem = rem and pk = pk]
  have ok: "release_ok ?s (Choosing rem pk)" by (rule I(3)) (simp add: R)
  have ch: "choosing (releases ?w') = {#}" using L P(1) by (simp add: thread_sums)
  have "seen ?w' = seen w"
    using L at seen_free [OF ch] by (simp add: seen_def view_busy) (simp add: pick_view_def)
  then have "core_inv (seen ?w') (tasks ?w')" using I(1) by (simp add: tasks_def)
  moreover have "thread_ok ?s' x" if "x \<in># threads w" for x
    using I(2) [OF that] by (simp add: thread_ok_def)
  moreover have "release_ok ?s' x" if "x \<in># R" for x
  proof -
    have "chosen x = {#}" using L that by (cases x) (auto simp: choosing_def)
    moreover have "release_ok ?s x" using I(3) [of x] that R by simp
    ultimately show ?thesis by (auto intro: release_ok_other)
  qed
  moreover have "release_ok ?s' (pick_result rem pk)" using ok P(3) by (simp add: pick_ok_def)
  moreover have "closing_ok ?w'"
    by (rule closing_ok_same [OF I(5)]) (use L closing_okD(3) [OF I(5)] in auto)
  moreover have "permits_ok ?w'"
    by (rule permits_ok_step [OF I(6)])
      (use ok P(2) I(6) R in \<open>auto simp: permits_ok_def world_balance_def thread_sums tasks_def\<close>)
  moreover have "leaving_ok ?w'" by (rule leaving_ok_same [OF I(7)]) (simp_all add: tasks_def)
  ultimately show ?thesis using L ch by (auto simp: world_inv_def)
qed

lemma move_release_inv:
  assumes inv: "world_inv w" and R: "releases w = add_mset r R"
    and t: "release_tick chk r (locked w, wsys w) = Some (r', l', s')"
  shows "world_inv (w\<lparr>wsys := s', locked := l', releases := add_mset r' R,
    wretired := wretired w + forfeited r (wsys w)\<rparr>)"
proof -
  note I = world_invD [OF inv]
  have "is_closed (wsys w) \<or> free (wsys w) + in_flight r \<le> max_permits"
    using I(6) R by (auto simp: permits_ok_def world_balance_def thread_sums)
  with I(3) [of r] R t have "release_case r (locked w, wsys w) r' (l', s')"
    by (intro release_tick_case) simp_all
  then show ?thesis
  proof cases
    case quiet
    then have "forfeited r (wsys w) = 0" by (cases r) (simp_all add: release_quiet_def)
    with move_quiet_inv [OF inv R quiet] show ?thesis by simp
  next
    case (enter n)
    then have "forfeited r (wsys w) = 0" by auto
    with move_enter_inv [OF inv R enter(5), folded enter(1-4)] enter show ?thesis by simp
  next
    case (pick pk pk' \<sigma> rem)
    with move_pick_inv [OF inv, of rem pk R pk' \<sigma>] R show ?thesis by simp
  next
    case (leave pk rem)
    then have "forfeited r (wsys w) = 0" by (simp add: pick_loss_def)
    with leave move_leave_inv [OF inv, of rem pk R] R show ?thesis by simp
  qed
qed

text \<open>A step of \<open>close\<close>.\<close>

lemma move_close_inv:
  assumes inv: "world_inv w" and c: "closers w = add_mset c C" and h: "hash_order_ok h"
    and t: "close_tick h c (locked w, wsys w) = Some (c', l', s')"
  shows "world_inv (w\<lparr>wsys := s', locked := l', closers := add_mset c' C\<rparr>)" (is "world_inv ?w'")
proof -
  let ?s = "wsys w"
  note I = world_invD [OF inv]
  have lock: "busy c \<Longrightarrow> locked w" and free: "\<not> busy c \<Longrightarrow> \<not> locked w"
    using lock_holder(4) [OF inv c] t by (auto simp: busy_def split: if_splits closing.splits)
  have none: "choosing (releases w) = {#}" "inside (threads w) = 0" "busy_closers C = 0"
    using lock_holder(1) [OF inv] lock_holder(4) [OF inv c] free c by (cases "busy c"; auto simp: thread_sums)+
  have core: "core_inv ?s (tasks w)" using I(1) none(1) by (simp add: seen_free)
  have "closer_ok ?s c" by (rule closing_okD(2) [OF I(5)]) (simp add: c)
  note K = close_tick_effect [OF core this lock h t, unfolded close_keeps_def fst_conv snd_conv]
  have st: "cancelled_at (store ?s v) (store s' v)" for v using K by blast
  have closed: "is_closed ?s" "is_closed s' = is_closed ?s" "free s' = free ?s"
    using closing_okD(1) [OF I(5)] c K by (auto simp: is_closed_def available_permits_def)
  have "thread_ok s' x" if x: "x \<in># threads w" for x
    using I(2) [OF x]
  proof (rule thread_ok_evolves)
    show "(is_notified (store ?s v) \<longrightarrow> is_notified (store s' v)) \<and>
        (is_cancelled (store s' v) \<longrightarrow> is_cancelled (store ?s v) \<or> is_closed s') \<and>
        (is_waiting (store s' v) \<longrightarrow> store s' v = store ?s v)" for v
      using st [of v] closed by (auto simp: cancelled_at_def waiter_tests)
  qed (simp add: closed)
  moreover have "release_ok s' r" if "r \<in># releases w" for r
    using I(3) _ _ that by (rule releases_keep) (simp_all add: closed none)
  moreover have "closing_ok ?w'"
  proof -
    have "closer_ok s' x" if "x \<in># C" for x
      by (rule closers_keep [OF _ _ that, of ?s]) (use closing_okD(2) [OF I(5)] c none in auto)
    with K closed show ?thesis by (auto simp: closing_ok_def shut_def split: if_splits)
  qed
  moreover have "permits_ok ?w'"
    by (rule permits_ok_step [OF I(6)]) (use closed I(6) in \<open>auto simp: permits_ok_def\<close>)
  moreover have "inside (threads w) + size (choosing (releases w)) + busy_closers (add_mset c' C) = (if l' then 1 else 0)"
    using K none by (auto simp: thread_sums busy_def split: if_splits)
  moreover have "core_inv (seen ?w') (tasks ?w')" using K none by (simp add: seen_free tasks_def)
  moreover have "leaving_ok ?w'"
  proof (rule leaving_ok_same [OF I(7)])
    show "is_waiting (store ?s v)" if "is_waiting (store (wsys ?w') v)" for v
      using that st [of v] by (auto simp: cancelled_at_def waiter_tests)
  qed (use K in \<open>simp_all add: tasks_def\<close>)
  ultimately show ?thesis by (auto simp: world_inv_def)
qed

text \<open>A step of the drop of a future.\<close>

lemma move_drop_inv:
  assumes inv: "world_inv w" and x: "leavers w = add_mset x L"
    and t: "leave_tick x (locked w, wsys w) = Some (x', l', s')"
  shows "world_inv (w\<lparr>wsys := s', locked := l', leavers := add_mset x' L\<rparr>)" (is "world_inv ?w'")
proof -
  let ?s = "wsys w"
  note I = world_invD [OF inv]
  have ok: "leaver_ok ?s (tasks w) x" using I(7) x by (simp add: leaving_ok_def)
  have "leave_tick x (locked w, seen w) = Some (x', l', s'\<lparr>waiters := view w\<rparr>)"
    unfolding seen_def using t ok by (cases x) (auto simp: leaver_ok_def split: prod.splits)
  note E = leave_tick_effect [OF I(1) _ this, unfolded leaver_ok_seen, OF ok]
  have frame: "l' = locked w" "next_wid s' = next_wid ?s" "sem_addr s' = sem_addr ?s" "permits s' = permits ?s"
    and res: "reserved (store s') (tasks w) = reserved (store ?s) (tasks w)"
    and x': "leaver_ok s' (tasks w) x'" and ev: "\<And>v. evolves (store ?s v) (store s' v)"
    and other: "\<And>v. leaver_wid x \<noteq> Some v \<Longrightarrow> store s' v = store ?s v"
    using E(2-10) by (simp_all add: leaver_ok_def)
  have wait: "waiters s' = waiters ?s"
    using t ok by (cases x) (auto simp: leaver_ok_def exchange_state_cases)
  have flag: "is_closed s' = is_closed ?s" "free s' = free ?s"
    by (simp_all add: is_closed_def available_permits_def frame)
  have "view ?w' = view w" by (rule view_same) (simp_all add: wait)
  then have "core_inv (seen ?w') (tasks ?w')" using E(1) by (simp add: seen_def tasks_def)
  moreover have "thread_ok s' y" if y: "y \<in># threads w" for y
  proof (rule thread_ok_other [OF I(2) [OF y]])
    show "store s' v = store ?s v" if "f_handle (fst y) = Some v" for v
    proof -
      have "v \<in># handles (tasks w)" using y that by (force simp: tasks_def in_handles_iff)
      with ok other [of v] show ?thesis by (auto simp: leaver_ok_def)
    qed
  qed (simp add: flag)
  moreover have "release_ok s' r" if "r \<in># releases w" for r
    using I(3) _ _ that by (rule releases_keep) (simp_all add: flag wait ev)
  moreover have "closing_ok ?w'"
    by (rule closing_ok_same [OF I(5)]) (use flag wait ev frame closing_okD(3) [OF I(5)] in simp_all)
  moreover have "permits_ok ?w'"
    by (rule permits_ok_step [OF I(6)])
      (use res flag I(6) in \<open>auto simp: permits_ok_def world_balance_def tasks_def\<close>)
  moreover have "leaver_ok s' (tasks w) y" if "y \<in># L" for y
  proof (rule leaver_ok_other)
    show "leaver_ok ?s (tasks w) y" using I(7) x that by (simp add: leaving_ok_def)
  qed (use ev in \<open>simp_all add: frame evolves_def\<close>)
  ultimately show ?thesis using I(4) x' frame(1) by (auto simp: world_inv_def leaving_ok_def tasks_def)
qed

lemma move_inv: "move w w' \<Longrightarrow> world_inv w \<Longrightarrow> world_inv w'"
  by (induction rule: move.induct) (blast intro: move_poll_inv move_release_inv move_close_inv move_drop_inv)+

section \<open>The start of an operation\<close>

lemma flying_dropping: "flying (dropping p) = unat (p_permits p)"
  by (simp add: dropping_def thread_sums unat_ucast_u32)

lemma choosing_dropping [simp]: "choosing (dropping p) = {#}"
  by (simp add: dropping_def thread_sums)

lemma dropping_ok: "r \<in># dropping p \<Longrightarrow> release_ok s r"
  using unat_ucast_u32 [of "p_permits p"]
  by (auto simp: dropping_def word_unat_eq_iff split: if_splits)

text \<open>Calls that change the word, the permits held and the releases under way, but no waiter.\<close>

lemma call_word_inv:
  assumes inv: "world_inv w"
    and s': "store s' = store (wsys w)" "waiters s' = waiters (wsys w)" "next_wid s' = next_wid (wsys w)"
      "sem_addr s' = sem_addr (wsys w)" "is_closed s' = is_closed (wsys w)"
    and R: "\<forall>r \<in># R. release_ok s' r" "choosing R = {#}"
    and issued: "wissued w \<le> i" "i \<le> max_permits"
    and held: "is_closed (wsys w) \<Longrightarrow> permits_in H \<le> permits_in (wheld w)"
    and bal: "\<not> is_closed (wsys w) \<Longrightarrow> free s' + permits_in H + flying R + r + wissued w =
      free (wsys w) + permits_in (wheld w) + wretired w + i"
  shows "world_inv (w\<lparr>wsys := s', wheld := H, releases := R + releases w, wretired := r, wissued := i\<rparr>)"
    (is "world_inv ?w'")
proof -
  note I = world_invD [OF inv]
  have "view ?w' = view w" by (rule view_same) (simp_all add: R(2) s'(2) thread_sums)
  then have "core_inv (seen ?w') (tasks ?w')"
    using core_frame [OF I(1), of "seen ?w'"] s'(1-4) by (simp add: tasks_def)
  moreover have "thread_ok s' t" if "t \<in># threads w" for t
    using I(2) [OF that] by (rule thread_ok_other) (simp_all add: s')
  moreover have "release_ok s' q" if "q \<in># releases w" for q
    using I(3) _ _ that by (rule releases_keep) (simp_all add: s')
  moreover have "closing_ok ?w'"
    by (rule closing_ok_same [OF I(5)]) (use s' closing_okD(3) [OF I(5)] in simp_all)
  moreover have "permits_ok ?w'"
    by (rule permits_ok_step [OF I(6)])
      (use bal held issued s' in \<open>auto simp: world_balance_def thread_sums tasks_def\<close>)
  moreover have "leaving_ok ?w'" by (rule leaving_ok_same [OF I(7)]) (simp_all add: s' tasks_def)
  ultimately show ?thesis using I(4) R by (auto simp: world_inv_def tasks_def thread_sums)
qed

lemma call_held_inv:
  assumes inv: "world_inv w" and R: "\<forall>r \<in># R. release_ok (wsys w) r" "choosing R = {#}"
    and bal: "permits_in H + flying R + r + wissued w = permits_in (wheld w) + wretired w + i"
      "permits_in H \<le> permits_in (wheld w)" "wissued w \<le> i" "i \<le> max_permits"
  shows "world_inv (w\<lparr>wheld := H, releases := R + releases w, wretired := r, wissued := i\<rparr>)"
  using call_word_inv [OF inv refl refl refl refl refl R bal(3,4) bal(2), of r] bal(1) by simp

text \<open>The calls that start a retry loop, and its steps.\<close>

lemma attempts_inv: "world_inv w \<Longrightarrow> world_inv (w\<lparr>attempts := A\<rparr>)"
  by (simp add: world_inv_def tasks_def closing_ok_def permits_ok_def world_balance_def leaving_ok_def)

lemma retry_inv:
  assumes "retry w w'" and inv: "world_inv w"
  shows "world_inv w'"
  using assms(1)
proof cases
  case (retry a A cas_ok a' s')
  note E = attempt_tick_effect [OF retry(3), unfolded word_step_def]
  have "world_inv (w\<lparr>wsys := s', wheld := wheld w + gained a', releases := {#} + releases w,
      wretired := wretired w + withdrawn a', wissued := wissued w\<rparr>)"
    by (rule call_word_inv [OF inv])
      (use E world_invD(6) [OF inv] in \<open>auto simp: thread_sums task_sums permits_ok_def\<close>)
  from attempts_inv [OF this, of "add_mset a' A"] retry(1) show ?thesis by simp
qed

text \<open>Calls that change the threads.\<close>

lemma call_acquire_inv:
  assumes inv: "world_inv w"
  shows "world_inv (w\<lparr>threads := add_mset (acquire_many_with_priority p n (wsys w), Fresh) (threads w)\<rparr>)"
proof -
  let ?f = "acquire_many_with_priority p n (wsys w)"
  note I = world_invD [OF inv]
  have h: "f_handle ?f = None" by (simp add: acquire_many_with_priority_def)
  have "core_inv (seen w) (add_mset (?f, False) (tasks w))"
    using I(1) h unat_u32_less [of n]
    by (intro core_spawn) (simp_all add: acquire_many_with_priority_def unat_ucast_u32)
  moreover have "thread_ok (wsys w) (?f, Fresh)" using h by (simp add: thread_ok_def handle_ok_def)
  ultimately show ?thesis
    using inv h
    by (simp add: world_inv_def tasks_def task_of_def thread_sums closing_ok_def shut_def permits_ok_def
        world_balance_def task_sums leaving_ok_def leaver_ok_def)
qed

lemma call_poll_inv:
  assumes inv: "world_inv w" and T: "threads w = add_mset (f, pc) T" and pc: "pc = Fresh \<or> pc = Ret Pending"
  shows "world_inv (w\<lparr>threads := add_mset (f, poll_entry f) T\<rparr>)"
proof -
  note I = world_invD [OF inv]
  have "thread_ok (wsys w) (f, pc)" using I(2) T by simp
  then have "thread_ok (wsys w) (f, poll_entry f)"
    using pc by (auto simp: thread_ok_def handle_ok_def poll_entry_def)
  moreover have "task_of (f, poll_entry f) = task_of (f, pc)" "poll_entry f \<noteq> Inside"
    using pc by (auto simp: task_of_def poll_entry_def)
  ultimately show ?thesis
    using inv T pc
    by (auto simp: world_inv_def tasks_def thread_sums closing_ok_def shut_def permits_ok_def world_balance_def
        leaving_ok_def)
qed

lemma call_drop_future_inv:
  assumes inv: "world_inv w" and T: "threads w = add_mset (f, pc) T" and pc: "idle pc"
    and l: "leave_first f (wsys w) = (x, s')"
  shows "world_inv (w\<lparr>wsys := s', threads := T, leavers := add_mset x (leavers w),
    wretired := wretired w + reserved_by (store (wsys w)) (task_of (f, pc))\<rparr>)" (is "world_inv ?w'")
proof -
  let ?s = "wsys w" and ?F = "image_mset task_of T"
  note I = world_invD [OF inv] and F = tasks_split [OF T] and E = leave_first_store [OF l]
  have flag: "is_closed s' = is_closed ?s" "free s' = free ?s"
    by (simp_all add: is_closed_def available_permits_def E)
  note core = I(1) [unfolded F task_of_pair]
  have "leave_first f (seen w) = (x, s'\<lparr>waiters := view w\<rparr>)"
    using l by (auto simp: leave_first_def seen_def split: option.splits prod.splits)
  note C = core_leave [OF core this]
  have "view ?w' = view w" by (rule view_same) (simp_all add: E)
  then have "core_inv (seen ?w') (tasks ?w')" using C(1) by (simp add: seen_def tasks_def)
  moreover have "thread_ok s' y" if y: "y \<in># T" for y
  proof (rule thread_ok_other)
    show "thread_ok ?s y" using I(2) T y by simp
    show "store s' v = store ?s v" if "f_handle (fst y) = Some v" for v
      using core_own(1) [OF core, of v] E(5) [of v] y that by (force simp: in_handles_iff)
  qed (simp add: flag)
  moreover have "release_ok s' r" if "r \<in># releases w" for r
    using I(3) _ _ that by (rule releases_keep) (simp_all add: flag E)
  moreover have "inside T + size (choosing (releases w)) + busy_closers (closers w) = (if locked w then 1 else 0)"
    using I(4) T pc by (auto simp: thread_sums idle_def split: if_splits)
  moreover have "closing_ok ?w'"
    by (rule closing_ok_same [OF I(5)]) (use flag E closing_okD(3) [OF I(5)] in simp_all)
  moreover have "permits_ok ?w'"
    by (rule permits_ok_step [OF I(6)])
      (use C(2) flag I(6) F in \<open>auto simp: permits_ok_def world_balance_def task_sums tasks_def task_of_pair\<close>)
  moreover have "leaver_ok s' ?F y" if "y \<in># leavers w" for y
  proof (rule leaver_ok_other)
    show "leaver_ok ?s (tasks w) y" using I(7) that by (simp add: leaving_ok_def)
  qed (use E in \<open>simp_all add: evolves_def F task_sums\<close>)
  moreover have "leaver_ok s' ?F x" using C(3) by (simp add: leaver_ok_def)
  ultimately show ?thesis by (auto simp: world_inv_def leaving_ok_def tasks_def)
qed

lemma call_close_inv:
  assumes inv: "world_inv w"
  shows "world_inv (w\<lparr>wsys := close_flag (wsys w), closers := add_mset Flagged (closers w)\<rparr>)" (is "world_inv ?w'")
proof -
  let ?s = "wsys w" and ?s' = "close_flag (wsys w)"
  note I = world_invD [OF inv]
  have frame: "store ?s' = store ?s" "waiters ?s' = waiters ?s" "next_wid ?s' = next_wid ?s"
    "sem_addr ?s' = sem_addr ?s"
    by (simp_all add: close_flag_def)
  have "view ?w' = view w" by (rule view_same) (simp_all add: frame)
  then have "core_inv (seen ?w') (tasks ?w')"
    using core_frame [OF I(1), of "seen ?w'"] frame by (simp add: tasks_def)
  moreover have "thread_ok ?s' t" if "t \<in># threads w" for t
    using I(2) [OF that] by (rule thread_ok_other) (simp_all add: frame close_flag_word)
  moreover have "release_ok ?s' r" if "r \<in># releases w" for r
    using I(3) _ _ that by (rule releases_keep) (simp_all add: frame close_flag_word)
  moreover have "closing_ok ?w'"
  proof -
    have "closer_ok ?s' c" if "c \<in># closers w" for c
      by (rule closers_keep [OF _ _ that, of ?s]) (use closing_okD(2) [OF I(5)] frame in simp_all)
    then show ?thesis by (auto simp: closing_ok_def close_flag_word shut_def closer_ok_def busy_def)
  qed
  moreover have "permits_ok ?w'"
    by (rule permits_ok_step [OF I(6)]) (use I(6) in \<open>simp_all add: permits_ok_def close_flag_word\<close>)
  moreover have "leaving_ok ?w'" by (rule leaving_ok_same [OF I(7)]) (simp_all add: frame tasks_def)
  ultimately show ?thesis using I(4) by (auto simp: world_inv_def tasks_def thread_sums busy_def)
qed

lemma call_inv:
  assumes "call w w'" "world_inv w"
  shows "world_inv w'"
  using assms
proof cases
  case try_acquire_none
  with call_held_inv [OF assms(2), of "{#}" "add_mset \<lparr>p_sem = sem_addr (wsys w), p_permits = 0\<rparr> (wheld w)"
      "wretired w" "wissued w"] world_invD(6) [OF assms(2)] show ?thesis
    by (simp add: task_sums thread_sums permits_ok_def)
next
  case (drop_permit p H)
  with call_held_inv [OF assms(2), of "dropping p" H "wretired w" "wissued w"] world_invD(6) [OF assms(2)]
    dropping_ok show ?thesis
    by (simp add: task_sums flying_dropping permits_ok_def)
next
  case (forget p H)
  with call_held_inv [OF assms(2), of "dropping (forget p)" H "wretired w + unat (p_permits p)" "wissued w"]
    world_invD(6) [OF assms(2)] show ?thesis
    by (simp add: task_sums thread_sums dropping_def forget_def permits_ok_def)
next
  case (split p H n q p')
  with split_permitD(4) [OF split(3)] world_invD(6) [OF assms(2)]
    call_held_inv [OF assms(2), of "{#}" "add_mset q (add_mset p' H)" "wretired w" "wissued w"]
  show ?thesis by (simp add: task_sums thread_sums permits_ok_def)
next
  case (merge p q H chk p' q')
  with mergeD(3,4) [OF merge(3)] world_invD(6) [OF assms(2)]
    call_held_inv [OF assms(2), of "dropping q'" "add_mset p' H" "wretired w + merge_loss p q p'" "wissued w"]
  show ?thesis by (simp add: task_sums thread_sums dropping_def permits_ok_def)
next
  case (add_permits n)
  with world_invD(6) [OF assms(2)]
    call_held_inv [OF assms(2), of "if n = 0 then {#} else {#Locking n#}" "wheld w" "wretired w" "wissued w + unat n"]
  show ?thesis by (simp add: thread_sums permits_ok_def split: if_splits)
next
  case (drop_future f pc T x s')
  with call_drop_future_inv [OF assms(2)] show ?thesis by simp
qed (use assms(2) call_acquire_inv call_poll_inv call_close_inv attempts_inv in blast)+

section \<open>Every reachable state\<close>

lemma world_start_inv:
  assumes "world_start w"
  shows "world_inv w"
proof -
  obtain addr n cfg where *: "new_with_config addr n cfg = Done (wsys w)" "wissued w = unat n"
    "\<not> locked w" "threads w = {#}" "releases w = {#}" "wheld w = {#}" "closers w = {#}"
    "leavers w = {#}" "wretired w = 0"
    using assms by (auto simp: world_start_def)
  from new_with_configD [OF *(1)] *(2-) show ?thesis
    by (simp add: world_inv_def core_empty tasks_def thread_sums seen_free closing_ok_def permits_ok_def
        world_balance_def task_sums wait_queue_inv_new leaving_ok_def)
qed

lemma tick_inv: "tick w w' \<Longrightarrow> world_inv w \<Longrightarrow> world_inv w'"
  using move_inv retry_inv call_inv by (auto simp: tick_def)

lemma world_reachable_inv: "world_reachable w \<Longrightarrow> world_inv w"
  by (induction rule: world_reachable.induct) (auto intro: world_start_inv tick_inv)

end
