(* ===== verification/World_Order.thy ===== *)
theory World_Order
  imports World_Inv
begin

text \<open>
  What any step of the interleaved system does to the closed flag and to the order of the queues: the flag is
  never cleared and once it is set no permit is handed out; a queue, also while a selection works on it,
  only loses waiters or gets a new one at the end its strategy says. And no operation reports an error
  on a semaphore that is open.
\<close>

section \<open>The flag\<close>

lemma close_tick_permits: "close_tick h c (lock, s) = Some (c', l', s') \<Longrightarrow> permits s' = permits s"
  by (cases "(h, c, lock, s)" rule: close_tick.cases) (auto simp: exchange_state_cases split: if_splits)

lemma leave_tick_permits: "leave_tick x (lock, s) = Some (x', l', s') \<Longrightarrow> permits s' = permits s"
  by (cases x) (auto simp: exchange_state_cases split: if_splits)

lemma move_release_case:
  assumes "world_inv w" "releases w = add_mset r R" "release_tick chk r (locked w, wsys w) = Some (r', l', s')"
  shows "release_case r (locked w, wsys w) r' (l', s')"
proof -
  note I = world_invD [OF assms(1)]
  have "is_closed (wsys w) \<or> free (wsys w) + in_flight r \<le> max_permits"
    using I(6) assms(2) by (auto simp: permits_ok_def world_balance_def thread_sums)
  with I(3) [of r] assms(2,3) show ?thesis by (intro release_tick_case) simp_all
qed

lemma move_flag:
  assumes "move w w'" "world_inv w"
  shows "is_closed (wsys w') = is_closed (wsys w)"
    and "is_closed (wsys w) \<Longrightarrow> permits_in (wheld w') \<le> permits_in (wheld w)"
proof -
  have "is_closed (wsys w') = is_closed (wsys w) \<and>
      (is_closed (wsys w) \<longrightarrow> permits_in (wheld w') \<le> permits_in (wheld w))"
    using assms(1)
  proof cases
    case (poll f pc T cas_ok k pc' f' l' s')
    have "poll_keeps (image_mset task_of T) (f, pc) (seen w) (f', pc') (seen w')"
      using poll(1) by (intro move_poll_keeps [OF assms(2) poll(2,3)]) simp_all
    with poll(1) show ?thesis by (simp add: poll_keeps_def split: if_splits)
  next
    case (release r R chk r' l' s')
    from move_release_case [OF assms(2) release(2,3)] release(1) show ?thesis
      by cases (simp_all add: release_quiet_def word_frame)
  next
    case (close c C h c' l' s')
    with close_tick_permits [OF close(4)] show ?thesis by (simp add: is_closed_def)
  next
    case (leave x L x' l' s')
    with leave_tick_permits [OF leave(3)] show ?thesis by (simp add: is_closed_def)
  qed
  then show "is_closed (wsys w') = is_closed (wsys w)"
    "is_closed (wsys w) \<Longrightarrow> permits_in (wheld w') \<le> permits_in (wheld w)" by blast+
qed

lemma retry_flag:
  assumes "retry w w'"
  shows "is_closed (wsys w') = is_closed (wsys w)"
    and "is_closed (wsys w) \<Longrightarrow> permits_in (wheld w') \<le> permits_in (wheld w)"
  using assms by (auto elim!: retry.cases dest!: attempt_tick_effect simp: word_step_def task_sums)

lemma call_flag:
  assumes "call w w'" "is_closed (wsys w)"
  shows "is_closed (wsys w') \<and> permits_in (wheld w') \<le> permits_in (wheld w)"
  using assms(1)
proof cases
  case (drop_future f pc T x s')
  with leave_first_store(4) [OF drop_future(4)] assms(2) show ?thesis by (simp add: is_closed_def)
qed (use assms(2) in \<open>auto simp: task_sums close_flag_word dest: split_permitD(4) mergeD(4)\<close>)

lemma tick_closed:
  assumes "tick w w'" "world_inv w" "is_closed (wsys w)"
  shows "is_closed (wsys w')" "permits_in (wheld w') \<le> permits_in (wheld w)"
  using assms(1,3) move_flag [OF _ assms(2)] retry_flag call_flag by (auto simp: tick_def)

section \<open>The order of the queues\<close>

definition thinned :: "wait_queue \<Rightarrow> wait_queue \<Rightarrow> bool" where
  "thinned q q' \<longleftrightarrow> config q' = config q \<and>
     (\<forall>p. subseq (queue_of (priority_queues q') p) (queue_of (priority_queues q) p))"

lemma thinned_refl [simp]: "thinned q q"
  by (simp add: thinned_def)

lemma thinned_ordered: "thinned (waiters s) (waiters s') \<Longrightarrow> ordered s \<Longrightarrow> ordered s'"
  by (auto simp: thinned_def ordered_def intro: sorted_wrt_subseq)

lemma thinned_seen: "thinned (view w) (view w') \<Longrightarrow> ordered (seen w) \<Longrightarrow> ordered (seen w')"
  by (rule thinned_ordered) simp_all

lemma subseq_remove1: "subseq (remove1 x xs) xs"
  by (induction xs) auto

lemma remove_waiter_thins: "thinned q (remove_waiter \<sigma> w q)"
  by (auto simp: thinned_def remove_waiter_def Let_def queue_of_def update_conv' subseq_remove1 split: option.split)

lemma same_queues_thins: "thinned q q1 \<Longrightarrow> same_queues q1 q' \<Longrightarrow> config q' = config q \<Longrightarrow> thinned q q'"
  by (simp add: thinned_def same_queues_def)

lemma config_view: "config (pick_view pk) = config (pk_self pk)"
  by (simp add: pick_view_def put_back_def split: point.split)

lemma pick_moves_config:
  "config (pk_self (pick_leave pk)) = config (pk_self pk)"
  "config (pk_self (pick_finish pk)) = config (pk_self pk)"
  "config (pk_self (pick_swept kept pk)) = config (pk_self pk)"
  "pick_pop pk = Some pk' \<Longrightarrow> config (pk_self pk') = config (pk_self pk)"
  by (auto simp: pick_leave_def pick_finish_def pick_swept_def pick_pop_def Let_def split: if_splits)

lemma pick_outer_config: "pick_outer pk \<sigma> = Some pk' \<Longrightarrow> config (pk_self pk') = config (pk_self pk)"
  by (auto simp: pick_outer_def pick_moves_config Let_def split: option.splits list.splits if_splits)

lemma pick_front_config: "pick_front pk \<sigma> = Some pk' \<Longrightarrow> config (pk_self pk') = config (pk_self pk)"
  by (auto simp: pick_front_def pick_moves_config split: list.splits if_splits)

lemma pick_notify_config: "pick_notify w pk \<sigma> = Some (pk', \<sigma>') \<Longrightarrow> config (pk_self pk') = config (pk_self pk)"
  by (auto simp: pick_notify_def pick_moves_config Let_def split: option.splits prod.splits)

lemma pick_take_config: "pick_take w pk \<sigma> = Some (pk', \<sigma>') \<Longrightarrow> config (pk_self pk') = config (pk_self pk)"
  by (auto simp: pick_take_def Let_def split: option.splits prod.splits if_splits)

lemma pick_step_config:
  "pick_step pk \<sigma> = Some (pk', \<sigma>') \<Longrightarrow> config (pick_view pk') = config (pick_view pk)"
  unfolding config_view
  by (auto simp: pick_step_def pick_moves_config pick_outer_config pick_front_config pick_notify_config pick_take_config
      split: point.splits list.splits)

lemma pick_start_config: "config (pick_view (pick_start n q)) = config q"
  by (simp add: pick_start_def pick_view_def put_back_def Let_def split: option.split)

lemma pick_step_thins:
  assumes "wait_queue_inv \<sigma> (pick_view pk)" "pick_ok \<sigma> pk" "pk_at pk \<noteq> Picked" "pick_step pk \<sigma> = Some (pk', \<sigma>')"
  shows "thinned (pick_view pk) (pick_view pk')"
proof -
  have "pick_effect pk \<sigma> pk' \<sigma>'" using pick_step_keeps [OF assms(1-3)] assms(4) by auto
  then show ?thesis
    by cases (auto intro: same_queues_thins [OF thinned_refl] same_queues_thins [OF remove_waiter_thins]
        pick_step_config [OF assms(4)])
qed

lemma move_ordered:
  assumes "move w w'" and inv: "world_inv w" and ord: "ordered (seen w)"
  shows "ordered (seen w')"
  using assms(1)
proof cases
  case (poll f pc T cas_ok k pc' f' l' s')
  show ?thesis
  proof (cases "pc = Inside")
    case True
    then have free: "choosing (releases w) = {#}" using lock_holder(3) [OF inv, of f] poll(2) by simp
    from poll(3) True have s': "waiters s' = insert_waiter_optimized (waiters (wsys w)) (next_wid (wsys w)) (f_priority f)"
      by (auto simp: push_waiter_def waiter_handle_new_def Let_def)
    have "v < next_wid (wsys w)" if "v \<in> set (queue_of (priority_queues (waiters (wsys w))) p)" for v p
      using that queue_of_subset [of "priority_queues (waiters (wsys w))" p] core_invD(2) [OF world_invD(1) [OF inv]]
      by (auto simp: queued_def view_free [OF free])
    with ord free poll(1) show ?thesis
      by (auto simp: seen_free ordered_def s' insert_waiter_queues intro!: sorted_enqueue)
  next
    case False
    with poll_tick_lock(2) [OF poll(3)] poll(1) have "view w' = view w" by (intro view_same) simp_all
    with ord show ?thesis by (simp add: ordered_def)
  qed
next
  case (release r R chk r' l' s')
  note I = world_invD [OF inv]
  from move_release_case [OF inv release(2,3)] show ?thesis
  proof cases
    case quiet
    with release(1,2) have "view w' = view w"
      by (intro view_same) (simp_all add: release_quiet_def thread_sums)
    with ord show ?thesis by (simp add: ordered_def)
  next
    case (enter n)
    then have free: "choosing (releases w) = {#}" using lock_holder(1) [OF inv] by simp
    with enter(1-4) release(1,2) have "choosing (releases w') = {#pick_start n (waiters (wsys w))#}"
      by (auto simp: thread_sums)
    moreover have "wait_queue_inv (store (wsys w)) (waiters (wsys w))"
      using core_invD(1) [OF I(1)] by (simp add: view_free [OF free])
    moreover from same_queues_thins [OF thinned_refl pick_start_keeps(1) [OF this] pick_start_config]
    have "thinned (waiters (wsys w)) (pick_view (pick_start n (waiters (wsys w))))" .
    ultimately have "thinned (view w) (view w')" by (simp only: view_free [OF free] view_busy)
    with ord show ?thesis by (rule thinned_seen [rotated])
  next
    case (pick pk pk' \<sigma> rem)
    with release(2) have L: "choosing (releases w) = {#pk#}" "choosing R = {#}"
      using lock_holder(2) [OF inv, of rem pk R] by simp_all
    with pick release(1) have "choosing (releases w') = {#pk'#}" by (simp add: thread_sums)
    moreover have "pick_ok (store (wsys w)) pk" using I(3) [of r] release(2) pick(1) by simp
    moreover have "wait_queue_inv (store (wsys w)) (pick_view pk)" using core_invD(1) [OF I(1)] L by (simp add: view_busy)
    ultimately have "thinned (view w) (view w')"
      using pick_step_thins [OF _ _ pick(5,6)] L by (simp add: view_busy)
    with ord show ?thesis by (rule thinned_seen [rotated])
  next
    case (leave pk rem)
    with release(2) have L: "choosing (releases w) = {#pk#}" "choosing R = {#}"
      using lock_holder(2) [OF inv, of rem pk R] by simp_all
    with leave release(1) have "view w' = view w"
      by (simp add: view_free view_busy thread_sums pick_result_sel) (simp add: pick_view_def)
    with ord show ?thesis by (simp add: ordered_def)
  qed
next
  case (close c C h c' l' s')
  have "waiters s' = waiters (wsys w) \<or> waiters s' = drained_queue h (waiters (wsys w)) \<and> busy c"
    using close(4) by (cases "(h, c, locked w, wsys w)" rule: close_tick.cases)
      (auto simp: exchange_state_cases busy_def split: if_splits)
  then show ?thesis
  proof
    assume "waiters s' = waiters (wsys w)"
    with close(1) have "view w' = view w" by (intro view_same) simp_all
    with ord show ?thesis by (simp add: ordered_def)
  next
    assume d: "waiters s' = drained_queue h (waiters (wsys w)) \<and> busy c"
    with lock_holder(4) [OF inv close(2)] have "choosing (releases w) = {#}" by simp
    with d close(1) show ?thesis
      by (simp add: seen_free ordered_def drained_queue_def drain_all_waiters_def queue_of_def)
  qed
next
  case (leave x L x' l' s')
  have "leaver_ok (wsys w) (tasks w) x" using world_invD(7) [OF inv] leave(2) by (simp add: leaving_ok_def)
  then have "waiters s' = waiters (wsys w)"
    using leave(3) by (cases x) (auto simp: leaver_ok_def exchange_state_cases)
  with leave(1) have "view w' = view w" by (intro view_same) simp_all
  with ord show ?thesis by (simp add: ordered_def)
qed

lemma retry_view: "retry w w' \<Longrightarrow> view w' = view w"
  by (auto elim!: retry.cases dest!: attempt_tick_effect intro!: view_same simp: word_step_def)

lemma call_view: "call w w' \<Longrightarrow> view w' = view w"
  by (auto elim!: call.cases dest: leave_first_store(1) intro!: view_same simp: thread_sums close_flag_def)

lemma tick_ordered: "tick w w' \<Longrightarrow> world_inv w \<Longrightarrow> ordered (seen w) \<Longrightarrow> ordered (seen w')"
  using move_ordered retry_view call_view by (auto simp: tick_def ordered_def)

lemma world_reachable_ordered: "world_reachable w \<Longrightarrow> ordered (seen w)"
proof (induction rule: world_reachable.induct)
  case (start w)
  then show ?case
    by (auto simp: world_start_def ordered_def view_def thread_sums wait_queue_new_def dest!: new_with_configD(4))
next
  case (step w w')
  with world_reachable_inv tick_ordered show ?case by blast
qed

section \<open>Errors\<close>

text \<open>A retry loop that has seen the flag, or has reported it, has not been mistaken.\<close>

fun attempt_ok :: "sys \<Rightarrow> attempt \<Rightarrow> bool" where
  "attempt_ok s (Once_Loaded cur) \<longleftrightarrow> (word_closed cur \<longrightarrow> is_closed s)"
| "attempt_ok s (Acquire_Exchange n cur) \<longleftrightarrow> (word_closed cur \<longrightarrow> is_closed s)"
| "attempt_ok s (Obtained r) \<longleftrightarrow> (r = Inl Closed \<longrightarrow> is_closed s)"
| "attempt_ok s a \<longleftrightarrow> True"

lemma attempt_ok_mono: "attempt_ok s a \<Longrightarrow> (is_closed s \<Longrightarrow> is_closed s') \<Longrightarrow> attempt_ok s' a"
  by (cases a) auto

lemma attempt_tick_ok:
  assumes "attempt_tick cas_ok a s = Some (a', s')" "attempt_ok s a"
  shows "attempt_ok s' a'"
proof -
  have c: "is_closed s' = is_closed s" using attempt_tick_effect [OF assms(1)] by (simp add: word_step_def)
  have w: "word_closed (permits s) = is_closed s" by (simp add: is_closed_def word_closed_def)
  have n: "cur AND CLOSED = CLOSED" if "cur AND CLOSED \<noteq> 0" for cur :: usize
    using that by (simp add: permit_word)
  have "attempt_ok s a'"
    using assms w n by (cases a) (auto simp: compare_exchange_def loop_round_def acquire_decide_def word_closed_def Let_def
        split: if_splits sum.splits prod.splits)
  then show ?thesis by (rule attempt_ok_mono) (simp add: c)
qed

lemma world_reachable_attempts: "world_reachable w \<Longrightarrow> a \<in># attempts w \<Longrightarrow> attempt_ok (wsys w) a"
proof (induction arbitrary: a rule: world_reachable.induct)
  case (start w)
  then show ?case by (simp add: world_start_def)
next
  case (step w w')
  note mono = tick_closed(1) [OF step(2) world_reachable_inv [OF step(1)]]
  have old: ?case if "a \<in># attempts w" using step(3) [OF that] mono by (rule attempt_ok_mono)
  consider "move w w'" | "retry w w'" | "call w w'" using step(2) by (auto simp: tick_def)
  then show ?case
  proof cases
    case 1
    then have "attempts w' = attempts w" by cases simp_all
    with old step(4) show ?thesis by simp
  next
    case 2
    then show ?thesis
    proof cases
      case (retry b A cas_ok b' s')
      with old step(4) attempt_tick_ok [OF retry(3)] step(3) [of b] show ?thesis by auto
    qed
  next
    case 3
    then have "\<exists>b. (attempts w' = attempts w \<or> attempts w' = add_mset b (attempts w)) \<and> attempt_ok (wsys w') b"
      by cases (auto intro: exI [of _ Once] exI [of _ "Acquiring n" for n] exI [of _ "Forgetting n" for n])
    with old step(4) show ?thesis by auto
  qed
qed

end
