(* ===== verification/Ranks.thy ===== *)
theory Ranks
  imports World_Inv
begin

text \<open>
  Every operation ends. A poll takes at most seven steps. A release takes as many as its selection,
  which is bounded by the priorities in the heap and the waiters in the queue when it takes the
  mutex, a \<open>close\<close> at most three for each waiter; those in turn grow only by the polls that are about to
  queue a waiter. The drop of a future takes at most four after its first. Each step of an operation brings
  its own bound down and no other operation's up; the steps of the retry loops touch none of them.
\<close>

section \<open>A selection ends\<close>

text \<open>
  How many steps a selection still has, in a queue of at most \<open>N\<close> waiters: four for each waiter of the
  queue being worked on, and for each priority in the heap at most those of a whole queue.
\<close>

definition pick_rank :: "nat \<Rightarrow> picking \<Rightarrow> nat" where
  "pick_rank N pk =
     (let heap = Suc (length (active_priorities (pk_self pk)) * (4 * N + 3)); len = length (pk_queue pk)
      in case pk_at pk of
           Outer \<Rightarrow> heap
         | Front \<Rightarrow> heap + 4 * len + 2
         | Notify w \<Rightarrow> heap + 4 * len + 1
         | Take w \<Rightarrow> heap + 4 * len + 3
         | Sweep kept todo \<Rightarrow> heap + length todo + 1
         | Picked \<Rightarrow> 0)"

definition pick_bound :: "nat \<Rightarrow> nat \<Rightarrow> nat" where
  "pick_bound H N = Suc (Suc H * (4 * N + 3))"

lemma pick_rank_mono: "M \<le> N \<Longrightarrow> pick_rank M pk \<le> pick_rank N pk"
  by (simp add: pick_rank_def Let_def split: point.split)

lemma pick_bound_mono: "H \<le> H' \<Longrightarrow> N \<le> N' \<Longrightarrow> pick_bound H N \<le> pick_bound H' N'"
  unfolding pick_bound_def by (intro Suc_le_mono [THEN iffD2] mult_le_mono) simp_all

lemma pick_step_rank:
  assumes step: "pick_step pk \<sigma> = Some (pk', \<sigma>')" and len: "pk_at pk' = Front \<Longrightarrow> length (pk_queue pk') \<le> N"
    and q: "\<And>w. pk_at pk = Notify w \<Longrightarrow> pk_queue pk \<noteq> []"
  shows "pick_rank N pk' < pick_rank N pk"
proof (cases "pk_at pk")
  case Outer
  with step have o: "pick_outer pk \<sigma> = Some pk'" by (auto simp: pick_step_def)
  then consider (finish) "pk_at pk' = Picked"
    | (pop) "pk_at pk' = Outer \<or> pk_at pk' = Front"
        "length (active_priorities (pk_self pk)) = Suc (length (active_priorities (pk_self pk')))"
    using Outer by (auto simp: pick_outer_def pick_finish_def Let_def
        split: option.splits if_splits list.splits dest: length_heap_pop)
  then show ?thesis
  proof cases
    case finish
    then show ?thesis using Outer by (simp add: pick_rank_def Let_def)
  next
    case pop
    then show ?thesis using Outer len by (auto simp: pick_rank_def Let_def)
  qed
next
  case Front
  with step show ?thesis
    by (auto simp: pick_step_def pick_front_def pick_leave_def pick_pop_def pick_rank_def Let_def
        split: list.splits if_splits)
next
  case (Notify w)
  with q have "pk_queue pk \<noteq> []" by simp
  with Notify step show ?thesis
    by (auto simp: pick_step_def pick_notify_def pick_pop_def pick_rank_def Let_def neq_Nil_conv
        split: list.splits if_splits prod.splits)
next
  case (Take w)
  with step show ?thesis
    by (auto simp: pick_step_def pick_take_def pick_rank_def Let_def split: option.splits if_splits prod.splits)
next
  case (Sweep kept todo)
  with step show ?thesis
    by (cases todo) (auto simp: pick_step_def pick_swept_def pick_finish_def pick_rank_def Let_def)
next
  case Picked
  with step show ?thesis by (simp add: pick_step_def)
qed

text \<open>The queue being worked on is part of the queue.\<close>

lemma length_queue_of: "length (queue_of m p) \<le> length (all_waiters m)"
  by (induction m) (auto simp: queue_of_def)

lemma pick_queue_length:
  assumes "pk_at pk = Front"
  shows "length (pk_queue pk) \<le> pick_size (pick_view pk)"
proof -
  have "queue_of (priority_queues (pick_view pk)) (pk_priority pk) = pk_queue pk"
    using assms by (simp add: pick_view_def)
  with length_queue_of [of "priority_queues (pick_view pk)" "pk_priority pk"] show ?thesis
    by (simp add: pick_size_def)
qed

lemma pick_start_rank:
  "pick_rank (pick_size q) (pick_start n q) < pick_bound (length (active_priorities q)) (pick_size q)"
proof -
  let ?pk = "pick_start n q" and ?N = "pick_size q" and ?H = "length (active_priorities q)"
  have at: "pk_at ?pk = Picked \<or> pk_at ?pk = Outer \<or> pk_at ?pk = Front"
    and self: "length (active_priorities (pk_self ?pk)) \<le> ?H"
    by (auto simp: pick_start_def Let_def split: option.split dest: length_heap_pop)
  have queue: "length (pk_queue ?pk) \<le> ?N"
    using length_queue_of [of "priority_queues q"]
    by (auto simp: pick_start_def pick_size_def Let_def queue_of_def split: option.split) (metis option.simps(5))
  obtain h where h: "h = length (active_priorities (pk_self ?pk)) * (4 * ?N + 3)" by simp
  have "h \<le> ?H * (4 * ?N + 3)" unfolding h using self by (rule mult_le_mono1)
  with at queue show ?thesis by (auto simp: pick_rank_def pick_bound_def Let_def simp flip: h)
qed

section \<open>The ranks\<close>

fun poll_rank :: "pc \<Rightarrow> nat" where
  "poll_rank Start = 7"
| "poll_rank (Loaded cur) = 6"
| "poll_rank Slow = 5"
| "poll_rank Inside = 4"
| "poll_rank Look = 3"
| "poll_rank Check = 2"
| "poll_rank Recheck = 1"
| "poll_rank Park = 1"
| "poll_rank _ = 0"

text \<open>\<open>b\<close> bounds the steps of a selection that has not begun.\<close>

fun release_rank :: "nat \<Rightarrow> release \<Rightarrow> nat" where
  "release_rank b (Dropping n) = b + 4"
| "release_rank b (Locking n) = b + 4"
| "release_rank b (Choosing rem pk) = pick_rank (pick_size (pick_view pk)) pk + 4"
| "release_rank b (Selected l k rem) = 3"
| "release_rank b (Waking l rem) = 2"
| "release_rank b (Putting rem) = 1"
| "release_rank b (Giving n) = 1"
| "release_rank b _ = 0"

fun closer_rank :: "nat \<Rightarrow> closing \<Rightarrow> nat" where
  "closer_rank b Flagged = b"
| "closer_rank b (Cancelling ws) = 3 * length ws + 1"
| "closer_rank b (Retrying w ws) = 3 * length ws + 3"
| "closer_rank b (Rousing w ws) = 3 * length ws + 2"
| "closer_rank b Shut = 0"

text \<open>The polls that may still queue a waiter, and the bound on a selection that they leave.\<close>

fun may_queue :: "pc \<Rightarrow> bool" where
  "may_queue Start = True"
| "may_queue (Loaded cur) = True"
| "may_queue Slow = True"
| "may_queue Inside = True"
| "may_queue _ = False"

definition queuing :: "thread multiset \<Rightarrow> nat" where
  "queuing T = size (filter_mset (\<lambda>t. may_queue (snd t)) T)"

definition select_bound :: "wait_queue \<Rightarrow> nat \<Rightarrow> nat" where
  "select_bound q P = pick_bound (length (active_priorities q) + P) (pick_size q + P)"

definition world_bound :: "world \<Rightarrow> nat" where
  "world_bound w = select_bound (waiters (wsys w)) (queuing (threads w))"

fun leaver_rank :: "leaving \<Rightarrow> nat" where
  "leaver_rank (Recancel w) = 4"
| "leaver_rank (Stir w) = 3"
| "leaver_rank (Inspect w) = 2"
| "leaver_rank (Unlink w) = 1"
| "leaver_rank Gone = 0"

definition world_rank :: "world \<Rightarrow> nat" where
  "world_rank w = sum_mset (image_mset (\<lambda>t. poll_rank (snd t)) (threads w)) +
     sum_mset (image_mset (release_rank (world_bound w)) (releases w)) +
     sum_mset (image_mset (closer_rank (world_bound w)) (closers w)) +
     sum_mset (image_mset leaver_rank (leavers w))"

lemma release_rank_mono: "b \<le> c \<Longrightarrow> release_rank b r \<le> release_rank c r"
  by (cases r) simp_all

lemma closer_rank_mono: "b \<le> c \<Longrightarrow> closer_rank b x \<le> closer_rank c x"
  by (cases x) simp_all

lemma sum_rank_mono: "(\<And>x. x \<in># M \<Longrightarrow> g x \<le> (h x :: nat)) \<Longrightarrow> sum_mset (image_mset g M) \<le> sum_mset (image_mset h M)"
  by (induction M) (simp_all add: add_mono)

lemma ranks_mono:
  assumes "b \<le> c"
  shows "sum_mset (image_mset (release_rank b) R) \<le> sum_mset (image_mset (release_rank c) R)"
    and "sum_mset (image_mset (closer_rank b) C) \<le> sum_mset (image_mset (closer_rank c) C)"
  using assms by (simp_all add: sum_rank_mono release_rank_mono closer_rank_mono)

lemma queuing_add [simp]: "queuing (add_mset t T) = (if may_queue (snd t) then 1 else 0) + queuing T"
  by (simp add: queuing_def)

lemma select_bound_mono:
  "length (active_priorities q) + P \<le> length (active_priorities q') + P' \<Longrightarrow>
   pick_size q + P \<le> pick_size q' + P' \<Longrightarrow> select_bound q P \<le> select_bound q' P'"
  unfolding select_bound_def by (rule pick_bound_mono)

section \<open>The steps bring them down\<close>

lemma poll_tick_rank:
  "poll_tick cas_ok k pc f (lock, s) = Some (pc', f', l', s') \<Longrightarrow> poll_rank pc' < poll_rank pc"
  by (cases pc) (auto simp: push_waiter_def waiter_handle_new_def Let_def split: if_splits option.splits)

lemma size_insert_waiter:
  "distinct_keys (priority_queues q) \<Longrightarrow> pick_size (insert_waiter_optimized q w p) = Suc (pick_size q)"
  using mset_all_waiters_insert [of q w p] by (simp add: pick_size_def flip: size_mset)

lemma heap_insert_waiter:
  "length (active_priorities (insert_waiter_optimized q w p)) \<le> Suc (length (active_priorities q))"
  by (simp add: insert_waiter_optimized_def Let_def split: prod.split)

lemma poll_tick_bound:
  assumes "poll_tick cas_ok k pc f (lock, s) = Some (pc', f', l', s')"
    and keys: "pc = Inside \<Longrightarrow> distinct_keys (priority_queues (waiters s))"
  shows "select_bound (waiters s') ((if may_queue pc' then 1 else 0) + P) \<le>
    select_bound (waiters s) ((if may_queue pc then 1 else 0) + P)"
proof (cases "pc = Inside")
  case True
  with assms(1) size_insert_waiter [OF keys, of "next_wid s" "f_priority f"]
    heap_insert_waiter [of "waiters s" "next_wid s" "f_priority f"]
  show ?thesis by (intro select_bound_mono) (auto simp: push_waiter_def waiter_handle_new_def Let_def)
next
  case False
  have "may_queue pc' \<Longrightarrow> may_queue pc"
    using assms(1) False by (cases pc) (auto simp: Let_def split: if_splits option.splits)
  with poll_tick_lock(2) [OF assms(1) False] show ?thesis by (intro select_bound_mono) auto
qed

lemma pick_result_rank: "release_rank b (pick_result rem pk) \<le> 3"
  by (simp add: pick_result_def Let_def)

text \<open>A step of a release, in a world in which \<open>P\<close> polls may still queue a waiter.\<close>

lemma enter_rank:
  assumes "wait_queue_inv \<sigma> q"
  shows "pick_rank (pick_size (pick_view (pick_start n q))) (pick_start n q) < select_bound q P"
proof -
  have "pick_size (pick_view (pick_start n q)) = pick_size q"
    using same_queues_inv(3) [OF assms pick_start_keeps(1) [OF assms]] by (simp add: pick_size_def)
  with pick_start_rank [where q = q and n = n]
  have "pick_rank (pick_size (pick_view (pick_start n q))) (pick_start n q) < select_bound q 0"
    by (simp add: select_bound_def)
  also have "\<dots> \<le> select_bound q P" by (rule select_bound_mono) simp_all
  finally show ?thesis .
qed

lemma release_quiet_rank:
  assumes q: "release_quiet r (lock, s) r' (l', s')" and t: "release_tick chk r (lock, s) = Some (r', l', s')"
    and ok: "release_ok s r"
  shows "release_rank b r' < release_rank b r"
proof (cases r)
  case (Waking l rem)
  then obtain ws where "l = wake_list_of ws" "length ws \<le> NUM_WAKERS"
    using ok by (auto elim: wake_list_okE)
  then have "wake_all l = Some (ws, wake_list_of [])" by (simp add: wake_all_of)
  with t Waking show ?thesis by (auto simp: NUM_WAKERS_def)
next
  case (Choosing rem pk)
  with q show ?thesis by (simp add: release_quiet_def)
qed (use q t in \<open>auto simp: release_quiet_def release_enter_def release_put_def Let_def split: if_splits\<close>)

lemma release_tick_rank:
  assumes c: "release_case r (lock, s) r' (l', s')" and t: "release_tick chk r (lock, s) = Some (r', l', s')"
    and ok: "release_ok s r" and inv: "lock \<or> wait_queue_inv (store s) (waiters s)"
    and core: "\<And>rem pk. r = Choosing rem pk \<Longrightarrow> core_inv (s\<lparr>waiters := pick_view pk\<rparr>) F"
  shows "release_rank (select_bound (waiters s) P) r' < release_rank (select_bound (waiters s) P) r \<and>
    select_bound (waiters s') P \<le> select_bound (waiters s) P"
  using c
proof cases
  case quiet
  from release_quiet_rank [OF quiet t ok] quiet show ?thesis by (simp add: release_quiet_def)
next
  case (enter n)
  with inv enter_rank [of "store s" "waiters s" n P] show ?thesis by auto
next
  case (pick pk pk' \<sigma> rem)
  note C = core [OF pick(1)]
  have ok': "pick_ok (store s) pk" using ok pick(1) by simp
  obtain pk1 \<sigma>1 where "pick_step pk (store s) = Some (pk1, \<sigma>1)" "pick_keeps F pk s pk1 \<sigma>1"
    using pick_step_effect [OF C ok'] pick(5) by blast
  with pick(6) have size: "pick_size (pick_view pk') \<le> pick_size (pick_view pk)" by (simp add: pick_keeps_def)
  have "pick_rank (pick_size (pick_view pk')) pk' \<le> pick_rank (pick_size (pick_view pk)) pk'"
    using size by (rule pick_rank_mono)
  also have "\<dots> < pick_rank (pick_size (pick_view pk)) pk"
  proof (rule pick_step_rank [OF pick(6)])
    show "length (pk_queue pk') \<le> pick_size (pick_view pk)" if "pk_at pk' = Front"
      using pick_queue_length [OF that] size by linarith
    show "pk_queue pk \<noteq> []" if "pk_at pk = Notify w" for w using ok' that by (auto simp: pick_ok_def)
  qed
  finally show ?thesis using pick(1-4) by simp
next
  case (leave pk rem)
  have "pick_view pk = pk_self pk" using leave(5) by (simp add: pick_view_def)
  then have "select_bound (waiters s') P \<le> select_bound (waiters s) P"
    using ok leave by (intro select_bound_mono) simp_all
  moreover have "release_rank (select_bound (waiters s) P) r' \<le> 3" unfolding leave(2) by (rule pick_result_rank)
  ultimately show ?thesis using leave(1) by simp
qed

text \<open>A step of \<open>close\<close>.\<close>

lemma close_tick_rank:
  assumes t: "close_tick h c (lock, s) = Some (c', l', s')" and h: "hash_order_ok h"
  shows "closer_rank (select_bound (waiters s) P) c' < closer_rank (select_bound (waiters s) P) c \<and>
    select_bound (waiters s') P \<le> select_bound (waiters s) P"
proof (cases c)
  case Flagged
  have "length (fst (drain_all_waiters h (priority_queues (waiters s)))) = pick_size (waiters s)"
    using drain_all_waiters_mset [OF h] by (metis pick_size_def size_mset)
  moreover have "3 * pick_size (waiters s) + 1 < select_bound (waiters s) P"
    by (simp add: select_bound_def pick_bound_def)
  ultimately show ?thesis using t Flagged by (auto split: if_splits)
next
  case (Cancelling ws)
  have "select_bound (drained_queue h q) P \<le> select_bound q P" for q
    by (intro select_bound_mono) (simp_all add: drained_queue_def drain_all_waiters_def pick_size_def)
  with t Cancelling show ?thesis by (cases ws) (auto simp: exchange_state_cases)
qed (use t in \<open>auto simp: exchange_state_cases split: if_splits\<close>)

lemma move_rank:
  assumes "move w w'" and inv: "world_inv w"
  shows "world_rank w' < world_rank w"
  using assms(1)
proof cases
  case (poll f pc T cas_ok k pc' f' l' s')
  note I = world_invD [OF inv]
  have "distinct_keys (priority_queues (waiters (wsys w)))" if "pc = Inside"
    using lock_holder(3) [OF inv, of f] that poll(2) core_invD(1) [OF I(1)]
    by (simp add: view_free wait_queue_inv_def queued_ok_def)
  from poll_tick_bound [OF poll(3) this, of "queuing T"] have "world_bound w' \<le> world_bound w"
    using poll(1,2) by (simp add: world_bound_def)
  from ranks_mono(1) [OF this, of "releases w"] ranks_mono(2) [OF this, of "closers w"] poll_tick_rank [OF poll(3)] poll(1,2) show ?thesis
    by (simp add: world_rank_def)
next
  case (release r R chk r' l' s')
  note I = world_invD [OF inv]
  have ok: "release_ok (wsys w) r" by (rule I(3)) (simp add: release(2))
  have "is_closed (wsys w) \<or> free (wsys w) + in_flight r \<le> max_permits"
    using I(6) release(2) by (auto simp: permits_ok_def world_balance_def thread_sums)
  note c = release_tick_case [OF ok this release(3)]
  have "locked w \<or> wait_queue_inv (store (wsys w)) (waiters (wsys w))"
    using lock_holder(1) [OF inv] core_invD(1) [OF I(1)] view_free [of w]
    by (cases "locked w") simp_all
  moreover have "core_inv ((wsys w)\<lparr>waiters := pick_view pk\<rparr>) (tasks w)" if "r = Choosing rem pk" for rem pk
    using lock_holder(2) [OF inv, of rem pk R] release(2) that I(1) by (simp add: seen_def view_busy)
  ultimately have less: "release_rank (world_bound w) r' < release_rank (world_bound w) r"
    and bound: "world_bound w' \<le> world_bound w"
    using release_tick_rank [OF c release(3) ok, where F = "tasks w" and P = "queuing (threads w)"] release(1)
    by (auto simp: world_bound_def)
  have "world_rank w' \<le> sum_mset (image_mset (\<lambda>t. poll_rank (snd t)) (threads w)) +
      sum_mset (image_mset (release_rank (world_bound w)) (add_mset r' R)) +
      sum_mset (image_mset (closer_rank (world_bound w)) (closers w)) +
      sum_mset (image_mset leaver_rank (leavers w))"
    using ranks_mono(1) [OF bound, of "add_mset r' R"] ranks_mono(2) [OF bound, of "closers w"] release(1)
    by (simp add: world_rank_def)
  with less release(2) show ?thesis by (simp add: world_rank_def)
next
  case (close c C h c' l' s')
  note c = close_tick_rank [OF close(4,3), of "queuing (threads w)"]
  then have bound: "world_bound w' \<le> world_bound w" using close(1) by (simp add: world_bound_def)
  have "closer_rank (world_bound w) c' < closer_rank (world_bound w) c" using c by (simp add: world_bound_def)
  moreover have "world_rank w' \<le> sum_mset (image_mset (\<lambda>t. poll_rank (snd t)) (threads w)) +
      sum_mset (image_mset (release_rank (world_bound w)) (releases w)) +
      sum_mset (image_mset (closer_rank (world_bound w)) (add_mset c' C)) +
      sum_mset (image_mset leaver_rank (leavers w))"
    using ranks_mono(1) [OF bound, of "releases w"] ranks_mono(2) [OF bound, of "add_mset c' C"] close(1)
    by (simp add: world_rank_def)
  ultimately show ?thesis using close(2) by (simp add: world_rank_def)
next
  case (leave x L x' l' s')
  have ok: "leaver_ok (wsys w) (tasks w) x" using world_invD(7) [OF inv] leave(2) by (simp add: leaving_ok_def)
  then have "leaver_rank x' < leaver_rank x \<and> waiters s' = waiters (wsys w)"
    using leave(3) by (cases x) (auto simp: leaver_ok_def exchange_state_cases)
  then show ?thesis using leave(1,2) by (simp add: world_rank_def world_bound_def)
qed

text \<open>The steps of the retry loops may come in between; they do not count.\<close>

lemma retry_rank: "retry w w' \<Longrightarrow> world_rank w' = world_rank w"
  by (cases rule: retry.cases) (auto simp: world_rank_def world_bound_def dest!: attempt_tick_effect simp: word_step_def)

lemma retries_rank: "retry\<^sup>*\<^sup>* w w' \<Longrightarrow> world_inv w \<Longrightarrow> world_inv w' \<and> world_rank w' = world_rank w"
  by (induction rule: rtranclp_induct) (auto simp: retry_rank dest: retry_inv)

definition work :: "world \<Rightarrow> world \<Rightarrow> bool" where
  "work = retry\<^sup>*\<^sup>* OO move"

lemma works_rank: "(work ^^ n) w w' \<Longrightarrow> world_inv w \<Longrightarrow> world_inv w' \<and> n + world_rank w' \<le> world_rank w"
proof (induction n arbitrary: w')
  case (Suc n)
  then obtain v u where v: "(work ^^ n) w v" "retry\<^sup>*\<^sup>* v u" "move u w'" by (auto simp: work_def)
  with Suc have "world_inv v" "n + world_rank v \<le> world_rank w" by blast+
  moreover from retries_rank [OF v(2) this(1)] have "world_inv u" "world_rank u = world_rank v" by simp_all
  ultimately show ?case using move_rank [OF v(3)] move_inv [OF v(3)] by simp
qed simp

section \<open>The bound in terms of the state\<close>

lemma pick_local_length:
  assumes "pick_ok \<sigma> pk" "pk_at pk \<noteq> Picked"
  shows "length (active_priorities (pk_self pk)) \<le> length (active_priorities (pick_view pk))"
    and "pk_at pk \<noteq> Outer \<Longrightarrow> (case pk_at pk of Sweep kept todo \<Rightarrow> length todo | _ \<Rightarrow> length (pk_queue pk))
      \<le> pick_size (pick_view pk)"
  using assms length_queue_of [of "priority_queues (pick_view pk)" "pk_priority pk"]
  by (auto simp: pick_view_def pick_size_def put_back_queues split: point.splits)

lemma pick_rank_bound:
  assumes "pick_ok \<sigma> pk" "length (active_priorities (pick_view pk)) \<le> H" "pick_size (pick_view pk) \<le> N"
  shows "pick_rank (pick_size (pick_view pk)) pk \<le> pick_bound H N"
proof (cases "pk_at pk = Picked")
  case False
  note L = pick_local_length [OF assms(1) False]
  let ?M = "pick_size (pick_view pk)"
  obtain h where h: "h = length (active_priorities (pk_self pk)) * (4 * ?M + 3)" by simp
  have "h \<le> H * (4 * N + 3)"
    unfolding h using L(1) assms(2,3) by (intro mult_le_mono) simp_all
  with L(2) assms(3) False show ?thesis
    by (auto simp: pick_rank_def pick_bound_def Let_def simp flip: h split: point.splits)
qed (simp add: pick_rank_def Let_def)

lemma release_rank_bound:
  assumes "release_ok s r"
  shows "release_rank (select_bound (waiters s) P) r \<le> select_bound (waiters s) P + 4"
proof (cases r)
  case (Choosing rem pk)
  with assms have "pick_rank (pick_size (pick_view pk)) pk \<le> select_bound (waiters s) P"
    unfolding select_bound_def by (intro pick_rank_bound [of "store s"]) auto
  with Choosing show ?thesis by simp
qed simp_all

lemma closer_rank_bound:
  assumes "closer_ok s c"
  shows "closer_rank (select_bound (waiters s) P) c \<le> select_bound (waiters s) P"
proof (cases "busy c")
  case True
  then have "distinct (to_cancel c)" "set (to_cancel c) \<subseteq> set (all_waiters (priority_queues (waiters s)))"
    using assms by (simp_all add: closer_ok_def queued_def)
  then have "length (to_cancel c) \<le> pick_size (waiters s)"
    unfolding pick_size_def by (metis card_mono distinct_card finite_set card_length order_trans)
  then have "3 * length (to_cancel c) + 3 \<le> select_bound (waiters s) P"
    by (simp add: select_bound_def pick_bound_def)
  then show ?thesis by (cases c) simp_all
qed (auto simp: busy_def)

lemma world_rank_bound:
  assumes "world_inv w"
  shows "world_rank w \<le> 7 * size (threads w) + (world_bound w + 4) * size (releases w) +
    world_bound w * size (closers w) + 4 * size (leavers w)"
proof -
  have sum: "sum_mset (image_mset g M) \<le> c * size M" if "\<And>x. x \<in># M \<Longrightarrow> g x \<le> c" for g :: "'x \<Rightarrow> nat" and c M
    using that by (induction M) (simp_all add: add_mono)
  have "poll_rank pc \<le> 7" for pc by (cases pc) simp_all
  then have "sum_mset (image_mset (\<lambda>t. poll_rank (snd t)) (threads w)) \<le> 7 * size (threads w)" by (rule sum)
  moreover have "release_rank (world_bound w) r \<le> world_bound w + 4" if "r \<in># releases w" for r
    using release_rank_bound [OF world_invD(3) [OF assms that]] by (simp add: world_bound_def)
  then have "sum_mset (image_mset (release_rank (world_bound w)) (releases w)) \<le> (world_bound w + 4) * size (releases w)"
    by (rule sum)
  moreover have "closer_rank (world_bound w) c \<le> world_bound w" if "c \<in># closers w" for c
    using closer_rank_bound [OF closing_okD(2) [OF world_invD(5) [OF assms] that]] by (simp add: world_bound_def)
  then have "sum_mset (image_mset (closer_rank (world_bound w)) (closers w)) \<le> world_bound w * size (closers w)"
    by (rule sum)
  moreover have "leaver_rank x \<le> 4" for x by (cases x) simp_all
  then have "sum_mset (image_mset leaver_rank (leavers w)) \<le> 4 * size (leavers w)" by (rule sum)
  ultimately show ?thesis by (simp add: world_rank_def)
qed

end
