(* ===== verification/Progress.thy ===== *)
theory Progress
  imports Ranks
begin

text \<open>
  No deadlock in the interleaved system: as long as an operation is under way some operation can move. Also
  that the coarse system, whose steps are whole operations, is a special case of the interleaved one.
\<close>

section \<open>No deadlock\<close>

definition settled :: "world \<Rightarrow> bool" where
  "settled w \<longleftrightarrow> (\<forall>t \<in># threads w. idle (snd t)) \<and> (\<forall>r \<in># releases w. r = Released \<or> r = Panicked) \<and>
     shut (closers w) \<and> (\<forall>x \<in># leavers w. x = Gone) \<and> (\<forall>a \<in># attempts w. returned a) \<and> \<not> locked w"

lemma poll_tick_enabled:
  assumes "thread_ok s (f, pc)" "\<not> idle pc" "lock \<Longrightarrow> pc \<noteq> Slow"
  shows "\<exists>x. poll_tick cas_ok k pc f (lock, s) = Some x"
proof (cases pc)
  case Inside
  obtain w \<sigma> n q where "push_waiter (f_needed f) (f_priority f) (store s) (next_wid s) (waiters s) = (w, \<sigma>, n, q)"
    by (metis prod_cases4)
  with Inside show ?thesis by (auto intro: exI [of _ False])
qed (use assms in \<open>auto simp: thread_ok_def handle_ok_def idle_def Let_def\<close>)

lemma release_tick_enabled:
  assumes "release_ok s r" "r \<noteq> Released" "r \<noteq> Panicked" "lock \<Longrightarrow> chosen r \<noteq> {#}"
    and core: "\<And>rem pk. r = Choosing rem pk \<Longrightarrow> core_inv (s\<lparr>waiters := pick_view pk\<rparr>) F"
  shows "\<exists>x. release_tick chk r (lock, s) = Some x"
proof (cases r)
  case (Waking l rem)
  then obtain ws where "l = wake_list_of ws" "length ws \<le> NUM_WAKERS"
    using assms(1) by (auto elim: wake_list_okE)
  then have "wake_all l = Some (ws, wake_list_of [])" by (simp add: wake_all_of)
  with Waking show ?thesis by simp
next
  case (Choosing rem pk)
  show ?thesis
  proof (cases "pk_at pk = Picked")
    case False
    with pick_step_effect [OF core [OF Choosing]] assms(1) Choosing
    obtain pk' \<sigma> where "pick_step pk (store s) = Some (pk', \<sigma>)" by auto
    with False Choosing show ?thesis by simp
  next
    case True
    with Choosing have "release_tick chk r (lock, s) = Some (pick_result rem pk, False, s\<lparr>waiters := pk_self pk\<rparr>)"
      by simp
    then show ?thesis by blast
  qed
qed (use assms(2-4) in \<open>auto simp: release_enter_def split: prod.split\<close>)

lemma close_tick_enabled: "c \<noteq> Shut \<Longrightarrow> lock \<longrightarrow> busy c \<Longrightarrow> close_tick h c (lock, s) \<noteq> None"
  by (cases "(h, c, lock, s)" rule: close_tick.cases) (auto simp: busy_def split: prod.split)

lemma stuck_settled:
  assumes inv: "world_inv w" and stuck: "\<And>w'. \<not> move w w'" "\<And>w'. \<not> retry w w'"
  shows "settled w"
proof -
  note I = world_invD [OF inv]
  have thread: "idle pc \<or> pc = Slow \<and> locked w" if t: "(f, pc) \<in># threads w" for f pc
  proof (rule ccontr)
    assume "\<not> ?thesis"
    with poll_tick_enabled [OF I(2) [OF t], of "locked w" True 0] obtain pc' f' l' s'
      where "poll_tick True 0 pc f (locked w, wsys w) = Some (pc', f', l', s')" by fastforce
    with t stuck(1) move.poll show False by (metis insert_DiffM)
  qed
  have release: "r = Released \<or> r = Panicked \<or> locked w \<and> chosen r = {#}" if r: "r \<in># releases w" for r
  proof (rule ccontr)
    assume no: "\<not> ?thesis"
    have "core_inv ((wsys w)\<lparr>waiters := pick_view pk\<rparr>) (tasks w)" if "r = Choosing rem pk" for rem pk
    proof -
      have "releases w = add_mset (Choosing rem pk) (releases w - {#r#})" using r that by simp
      from lock_holder(2) [OF inv this] I(1) show ?thesis by (simp add: seen_def view_busy)
    qed
    from release_tick_enabled [OF I(3) [OF r] _ _ _ this, where lock = "locked w" and chk = True] no obtain r' l' s'
      where "release_tick True r (locked w, wsys w) = Some (r', l', s')" by fastforce
    with r stuck(1) move.release show False by (metis insert_DiffM)
  qed
  have closing: "c = Shut \<or> locked w \<and> \<not> busy c" if c: "c \<in># closers w" for c
  proof (rule ccontr)
    assume "\<not> ?thesis"
    then have "close_tick id c (locked w, wsys w) \<noteq> None" by (intro close_tick_enabled) simp_all
    then obtain c' l' s' where "close_tick id c (locked w, wsys w) = Some (c', l', s')" by auto
    with c stuck(1) move.close [where h = id] show False by (metis hash_order_ok_def id_apply insert_DiffM)
  qed
  have unlocked: "\<not> locked w"
  proof
    assume "locked w"
    then consider "inside (threads w) \<noteq> 0" | "choosing (releases w) \<noteq> {#}" | "busy_closers (closers w) \<noteq> 0"
      using I(4) by force
    then show False
    proof cases
      assume "inside (threads w) \<noteq> 0"
      then obtain t where "t \<in># filter_mset (\<lambda>t. snd t = Inside) (threads w)"
        by (auto simp: inside_def elim: multiset_nonemptyE)
      then have "t \<in># threads w" "snd t = Inside" by simp_all
      with thread [of "fst t" "snd t"] show False by (cases t) (simp add: idle_def)
    next
      assume "busy_closers (closers w) \<noteq> 0"
      then obtain c where "c \<in># filter_mset busy (closers w)"
        by (auto simp: busy_closers_def elim: multiset_nonemptyE)
      then have "c \<in># closers w" "busy c" by simp_all
      with closing [of c] show False by (auto simp: busy_def)
    next
      assume "choosing (releases w) \<noteq> {#}"
      then obtain pk where "pk \<in># choosing (releases w)" by (rule multiset_nonemptyE)
      from chosen_in [OF this] release show False by fastforce
    qed
  qed
  moreover have "idle (snd t)" if "t \<in># threads w" for t
    using thread [of "fst t" "snd t"] that unlocked by simp
  moreover have "r = Released \<or> r = Panicked" if "r \<in># releases w" for r
    using release [OF that] unlocked by simp
  moreover have "shut (closers w)" using closing unlocked by (auto simp: shut_def)
  moreover have "x = Gone" if x: "x \<in># leavers w" for x
  proof (rule ccontr)
    assume no: "x \<noteq> Gone"
    have "leaver_ok (wsys w) (tasks w) x" using I(7) x by (simp add: leaving_ok_def)
    from leave_tick_enabled [OF this no, of "locked w"] obtain x' l' s'
      where "leave_tick x (locked w, wsys w) = Some (x', l', s')" by fastforce
    with x stuck(1) move.leave show False by (metis insert_DiffM)
  qed
  moreover have "returned a" if a: "a \<in># attempts w" for a
  proof (rule ccontr)
    assume "\<not> returned a"
    from attempt_tick_enabled [OF this, of True "wsys w"] obtain a' s'
      where "attempt_tick True a (wsys w) = Some (a', s')" by fastforce
    with a stuck(2) retry.retry show False by (metis insert_DiffM)
  qed
  ultimately show ?thesis by (simp add: settled_def)
qed

section \<open>Whole operations are runs of steps\<close>

lemma run_poll_ret: "run_poll n cas_ok k (Ret r, f, lock, s) = (Ret r, f, lock, s)"
  by (cases n) simp_all

lemma run_poll_moves:
  assumes "threads w = add_mset (f, pc) T" "\<And>r. pc \<noteq> Ret r"
    and "run_poll n cas_ok k (pc, f, locked w, wsys w) = (pc', f', l', s')"
  shows "move\<^sup>*\<^sup>* w (w\<lparr>wsys := s', locked := l', threads := add_mset (f', pc') T,
    wheld := wheld w + ret_permit pc'\<rparr>)"
  using assms
proof (induction n arbitrary: w f pc)
  case 0
  then have "ret_permit pc = {#}" by (cases pc) auto
  with 0 have "w\<lparr>wsys := s', locked := l', threads := add_mset (f', pc') T, wheld := wheld w + ret_permit pc'\<rparr> = w"
    by (cases w) auto
  then show ?case by simp
next
  case (Suc n)
  show ?case
  proof (cases "poll_tick cas_ok k pc f (locked w, wsys w)")
    case None
    have "ret_permit pc = {#}" using Suc.prems(2) by (cases pc) auto
    with None Suc.prems have
      "w\<lparr>wsys := s', locked := l', threads := add_mset (f', pc') T, wheld := wheld w + ret_permit pc'\<rparr> = w"
      by (cases w) auto
    then show ?thesis by simp
  next
    case (Some x)
    then obtain pc1 f1 l1 s1 where t: "poll_tick cas_ok k pc f (locked w, wsys w) = Some (pc1, f1, l1, s1)"
      by (metis prod_cases4)
    let ?w1 = "w\<lparr>wsys := s1, locked := l1, threads := add_mset (f1, pc1) T, wheld := wheld w + ret_permit pc1\<rparr>"
    have m: "move w ?w1" using Suc.prems(1) t by (rule move.poll)
    have run: "run_poll n cas_ok k (pc1, f1, l1, s1) = (pc', f', l', s')" using Suc.prems(3) t by simp
    show ?thesis
    proof (cases "\<exists>r. pc1 = Ret r")
      case True
      with run m show ?thesis by (auto simp: run_poll_ret)
    next
      case False
      then have "ret_permit pc1 = {#}" by (cases pc1) auto
      with Suc.IH [of ?w1 f1 pc1] False run m show ?thesis
        by (auto intro: converse_rtranclp_into_rtranclp)
    qed
  qed
qed

text \<open>A run of a release, with the permits its selection loses on the way.\<close>

lemma run_release_moves:
  assumes "releases w = add_mset r R" "run_release n chk (r, locked w, wsys w) = (r', l', s')"
  shows "\<exists>x. move\<^sup>*\<^sup>* w (w\<lparr>wsys := s', locked := l', releases := add_mset r' R, wretired := x\<rparr>)"
  using assms
proof (induction n arbitrary: w r)
  case 0
  then have "w\<lparr>wsys := s', locked := l', releases := add_mset r' R, wretired := wretired w\<rparr> = w" by (cases w) auto
  then show ?case by (metis rtranclp.rtrancl_refl)
next
  case (Suc n)
  show ?case
  proof (cases "release_tick chk r (locked w, wsys w)")
    case None
    with Suc.prems have "w\<lparr>wsys := s', locked := l', releases := add_mset r' R, wretired := wretired w\<rparr> = w"
      by (cases w) auto
    then show ?thesis by (metis rtranclp.rtrancl_refl)
  next
    case (Some x)
    then obtain r1 l1 s1 where t: "release_tick chk r (locked w, wsys w) = Some (r1, l1, s1)"
      by (cases x) auto
    let ?w1 = "w\<lparr>wsys := s1, locked := l1, releases := add_mset r1 R, wretired := wretired w + forfeited r (wsys w)\<rparr>"
    have "move w ?w1" using Suc.prems(1) t by (rule move.release)
    moreover have "run_release n chk (r1, l1, s1) = (r', l', s')" using Suc.prems(2) t by simp
    ultimately show ?thesis
      using Suc.IH [of ?w1 r1] by (auto intro: converse_rtranclp_into_rtranclp)
  qed
qed

lemma run_close_moves:
  assumes "closers w = add_mset c C" "hash_order_ok h" "run_close n h (c, locked w, wsys w) = (c', l', s')"
  shows "move\<^sup>*\<^sup>* w (w\<lparr>wsys := s', locked := l', closers := add_mset c' C\<rparr>)"
  using assms
proof (induction n arbitrary: w c)
  case 0
  then have "w\<lparr>wsys := s', locked := l', closers := add_mset c' C\<rparr> = w" by (cases w) auto
  then show ?case by simp
next
  case (Suc n)
  show ?case
  proof (cases "close_tick h c (locked w, wsys w)")
    case None
    with Suc.prems have "w\<lparr>wsys := s', locked := l', closers := add_mset c' C\<rparr> = w" by (cases w) auto
    then show ?thesis by simp
  next
    case (Some x)
    then obtain c1 l1 s1 where t: "close_tick h c (locked w, wsys w) = Some (c1, l1, s1)" by (cases x) auto
    let ?w1 = "w\<lparr>wsys := s1, locked := l1, closers := add_mset c1 C\<rparr>"
    have "move w ?w1" using Suc.prems(1,2) t by (rule move.close)
    moreover have "run_close n h (c1, l1, s1) = (c', l', s')" using Suc.prems(3) t by simp
    ultimately show ?thesis
      using Suc.IH [of ?w1 c1] Suc.prems(2) by (auto intro: converse_rtranclp_into_rtranclp)
  qed
qed

text \<open>A run of the drop of a future, and of a retry loop nobody interferes with.\<close>

lemma run_leave_moves:
  assumes "leavers w = add_mset x L" "run_leave n (x, locked w, wsys w) = (x', l', s')"
  shows "move\<^sup>*\<^sup>* w (w\<lparr>wsys := s', locked := l', leavers := add_mset x' L\<rparr>)"
  using assms
proof (induction n arbitrary: w x)
  case 0
  then have "w\<lparr>wsys := s', locked := l', leavers := add_mset x' L\<rparr> = w" by (cases w) auto
  then show ?case by simp
next
  case (Suc n)
  show ?case
  proof (cases "leave_tick x (locked w, wsys w)")
    case None
    with Suc.prems have "w\<lparr>wsys := s', locked := l', leavers := add_mset x' L\<rparr> = w" by (cases w) auto
    then show ?thesis by simp
  next
    case (Some y)
    then obtain x1 l1 s1 where t: "leave_tick x (locked w, wsys w) = Some (x1, l1, s1)" by (cases y) auto
    let ?w1 = "w\<lparr>wsys := s1, locked := l1, leavers := add_mset x1 L\<rparr>"
    have "move w ?w1" using Suc.prems(1) t by (rule move.leave)
    moreover have "run_leave n (x1, l1, s1) = (x', l', s')" using Suc.prems(2) t by simp
    ultimately show ?thesis
      using Suc.IH [of ?w1 x1] by (auto intro: converse_rtranclp_into_rtranclp)
  qed
qed

lemma not_returned: "\<not> returned a \<Longrightarrow> gained a = {#}" "\<not> returned a \<Longrightarrow> withdrawn a = 0"
  by (cases a; simp)+

lemma run_attempt_retries:
  assumes "attempts w = add_mset a A" "\<not> returned a" "run_attempt n (a, wsys w) = (a', s')"
  shows "retry\<^sup>*\<^sup>* w (w\<lparr>wsys := s', wheld := wheld w + gained a', wretired := wretired w + withdrawn a',
    attempts := add_mset a' A\<rparr>)"
  using assms
proof (induction n arbitrary: w a)
  case 0
  with not_returned [of a] have "w\<lparr>wsys := s', wheld := wheld w + gained a', wretired := wretired w + withdrawn a',
      attempts := add_mset a' A\<rparr> = w" by (cases w) auto
  then show ?case by simp
next
  case (Suc n)
  obtain a1 s1 where t: "attempt_tick True a (wsys w) = Some (a1, s1)"
    using attempt_tick_enabled [OF Suc.prems(2), of True "wsys w"] by fastforce
  let ?w1 = "w\<lparr>wsys := s1, wheld := wheld w + gained a1, wretired := wretired w + withdrawn a1,
    attempts := add_mset a1 A\<rparr>"
  have m: "retry w ?w1" using Suc.prems(1) t by (rule retry.retry)
  have run: "run_attempt n (a1, s1) = (a', s')" using Suc.prems(3) t by simp
  show ?case
  proof (cases "returned a1")
    case True
    then have "attempt_tick True a1 s1 = None" by (cases a1) simp_all
    with run have "a' = a1" "s' = s1" by (cases n; simp)+
    with m show ?thesis by auto
  next
    case False
    with Suc.IH [of ?w1 a1] not_returned [of a1] run m show ?thesis
      by (auto intro: converse_rtranclp_into_rtranclp)
  qed
qed

lemma retries_ticks: "retry\<^sup>*\<^sup>* w w' \<Longrightarrow> tick\<^sup>*\<^sup>* w w'"
  by (erule rtranclp_mono [THEN predicate2D, rotated]) (auto simp: tick_def)

lemma moves_ticks: "move\<^sup>*\<^sup>* w w' \<Longrightarrow> tick\<^sup>*\<^sup>* w w'"
  by (erule rtranclp_mono [THEN predicate2D, rotated]) (auto simp: tick_def)

lemma call_moves_ticks: "call w v \<Longrightarrow> move\<^sup>*\<^sup>* v w' \<Longrightarrow> tick\<^sup>*\<^sup>* w w'"
  using moves_ticks by (auto simp: tick_def intro: converse_rtranclp_into_rtranclp)

lemma call_retries_ticks: "call w v \<Longrightarrow> retry\<^sup>*\<^sup>* v w' \<Longrightarrow> tick\<^sup>*\<^sup>* w w'"
  using retries_ticks by (auto simp: tick_def intro: converse_rtranclp_into_rtranclp)

section \<open>The coarse system is a special case\<close>

text \<open>
  A settled world and a state of the coarse system agree on everything but the count of
  withdrawn permits, which only the models have.
\<close>

definition implements :: "world \<Rightarrow> client \<Rightarrow> bool" where
  "implements w c \<longleftrightarrow> settled w \<and> wsys w = csys c \<and> tasks w = futs c \<and> wheld w = held c \<and>
     wissued w = issued c"

lemma settled_thread:
  assumes "settled w" "tasks w = add_mset (f, d) F"
  obtains pc T where "threads w = add_mset (f, pc) T" "finished pc = d" "image_mset task_of T = F"
    "idle pc" "d \<or> pc = Fresh \<or> pc = Ret Pending"
proof -
  obtain T t where T: "threads w = add_mset t T" "task_of t = (f, d)" "image_mset task_of T = F"
    using assms(2) msed_map_invR [of task_of "threads w"] unfolding tasks_def by metis
  moreover from this assms(1) have "idle (snd t)" by (simp add: settled_def)
  moreover from this have "d \<or> snd t = Fresh \<or> snd t = Ret Pending"
    using T(2) by (auto simp: task_of_def idle_def split: pc.splits) (metis finished.simps(1) poll.exhaust)
  ultimately show thesis using that [of "snd t" T] by (cases t) (auto simp: task_of_def)
qed

lemma simulate_poll:
  assumes w: "implements w c" and F: "futs c = add_mset (f, False) F"
    and p: "poll cas_ok k f (csys c) = (r, f', s')"
  shows "\<exists>w'. tick\<^sup>*\<^sup>* w w' \<and> implements w' (c\<lparr>csys := s', futs := add_mset (f', r \<noteq> Pending) F,
    held := held c + result_permit r, retired := x\<rparr>)"
proof -
  have "settled w" "tasks w = add_mset (f, False) F" using w F by (simp_all add: implements_def)
  then obtain pc T where T: "threads w = add_mset (f, pc) T" "image_mset task_of T = F"
    "pc = Fresh \<or> pc = Ret Pending"
    by (rule settled_thread) auto
  let ?w1 = "w\<lparr>threads := add_mset (f, poll_entry f) T\<rparr>"
  let ?w2 = "?w1\<lparr>wsys := s', locked := False, threads := add_mset (f', Ret r) T, wheld := wheld w + ret_permit (Ret r)\<rparr>"
  have call: "call w ?w1" using T(1,3) by (rule call.poll)
  have "\<not> locked w" using w by (simp add: implements_def settled_def)
  moreover have "run_poll 7 cas_ok k (poll_entry f, f, False, wsys w) = (Ret r, f', False, s')"
    using w p by (simp add: poll_in_steps implements_def)
  moreover have "poll_entry f \<noteq> Ret r" for r by (simp add: poll_entry_def)
  ultimately have "move\<^sup>*\<^sup>* ?w1 ?w2"
    using run_poll_moves [of ?w1 f "poll_entry f" T 7 cas_ok k "Ret r" f' False s'] by simp
  with call have "tick\<^sup>*\<^sup>* w ?w2" by (rule call_moves_ticks)
  moreover have "finished (Ret r) = (r \<noteq> Pending)" by (cases r) auto
  then have "implements ?w2 (c\<lparr>csys := s', futs := add_mset (f', r \<noteq> Pending) F,
      held := held c + result_permit r, retired := x\<rparr>)"
    using w T by (auto simp: implements_def settled_def tasks_def task_of_def idle_def)
  ultimately show ?thesis by blast
qed

lemma simulate_release:
  assumes "call w w1" "releases w1 = add_mset r R" "\<not> locked w1"
    and "release_runs chk (r, False, wsys w1) (Released, False, s')"
    and "\<And>x. implements (w1\<lparr>wsys := s', locked := False, releases := add_mset Released R, wretired := x\<rparr>) c'"
  shows "\<exists>w'. tick\<^sup>*\<^sup>* w w' \<and> implements w' c'"
proof -
  obtain n where "run_release n chk (r, locked w1, wsys w1) = (Released, False, s')"
    using assms(3,4) by (auto simp: release_runs_def)
  from run_release_moves [OF assms(2) this] obtain x
    where "move\<^sup>*\<^sup>* w1 (w1\<lparr>wsys := s', locked := False, releases := add_mset Released R, wretired := x\<rparr>)" by blast
  from call_moves_ticks [OF assms(1) this] assms(5) show ?thesis by blast
qed

lemma simulate_call: "call w w' \<Longrightarrow> implements w' c' \<Longrightarrow> \<exists>w'. tick\<^sup>*\<^sup>* w w' \<and> implements w' c'"
  using tick_def by blast

lemma simulate_drop_permit:
  assumes w: "implements w c" and inv: "client_inv c" and held: "held c = add_mset p H"
    and d: "drop_permit chk p (csys c) = (Done (), s')"
  shows "\<exists>w'. tick\<^sup>*\<^sup>* w w' \<and> implements w' (c\<lparr>csys := s', held := H\<rparr>)"
proof -
  have W: "wsys w = csys c" "wheld w = add_mset p H" "\<not> locked w" "settled w"
    using w held by (simp_all add: implements_def settled_def)
  let ?w1 = "w\<lparr>wheld := H, releases := dropping p + releases w\<rparr>"
  have call: "call w ?w1" using W(2) by (rule call.drop_permit)
  show ?thesis
  proof (cases "p_permits p = 0")
    case True
    with d have "s' = csys c" by (simp add: drop_permit_empty)
    with True w call show ?thesis
      by (intro simulate_call [OF call]) (simp add: implements_def settled_def tasks_def dropping_def)
  next
    case False
    have "free (csys c) + unat (p_permits p) \<le> max_permits"
      using client_invD(9) [OF inv] held by (simp add: task_sums)
    from drop_in_steps [OF client_invD(8) [OF inv] this False, of chk]
    have "release_runs chk (Dropping (ucast (p_permits p)), False, wsys ?w1) (Released, False, s')"
      using d W(1) by simp
    moreover have "releases ?w1 = add_mset (Dropping (ucast (p_permits p))) (releases w)"
      using False by (simp add: dropping_def)
    moreover have "implements (?w1\<lparr>wsys := s', locked := False, releases := add_mset Released (releases w), wretired := x\<rparr>)
        (c\<lparr>csys := s', held := H\<rparr>)" for x
      using w by (simp add: implements_def settled_def tasks_def)
    ultimately show ?thesis using W(3) by (intro simulate_release [OF call]) simp_all
  qed
qed

lemma simulate_add_permits:
  assumes w: "implements w c" and inv: "client_inv c" and n: "issued c + unat n \<le> max_permits"
    and a: "add_permits chk n (csys c) = (Done (), s')"
  shows "\<exists>w'. tick\<^sup>*\<^sup>* w w' \<and> implements w' (c\<lparr>csys := s', issued := issued c + unat n\<rparr>)"
proof -
  have W: "wsys w = csys c" "\<not> locked w" "wissued w = issued c"
    using w by (simp_all add: implements_def settled_def)
  let ?R = "if n = 0 then {#} else {#Locking n#}"
  let ?w1 = "w\<lparr>releases := ?R + releases w, wissued := wissued w + unat n\<rparr>"
  have call: "call w ?w1" by (rule call.add_permits) (simp add: n W(3))
  show ?thesis
  proof (cases "n = 0")
    case True
    with a have "s' = csys c" by (simp add: add_permits_def)
    with True w show ?thesis
      by (intro simulate_call [OF call]) (simp add: implements_def settled_def tasks_def)
  next
    case False
    have "free (csys c) + unat n \<le> max_permits"
      using n client_invD(6) [OF inv] by (simp add: balance_def)
    from release_in_steps [OF client_invD(8) [OF inv] this, of chk]
    have "release_runs chk (Locking n, False, wsys ?w1) (Released, False, s')" using a W(1) by simp
    moreover have "releases ?w1 = add_mset (Locking n) (releases w)" using False by simp
    moreover have "implements (?w1\<lparr>wsys := s', locked := False, releases := add_mset Released (releases w), wretired := x\<rparr>)
        (c\<lparr>csys := s', issued := issued c + unat n\<rparr>)" for x
      using w by (simp add: implements_def settled_def tasks_def)
    ultimately show ?thesis using W(2) by (intro simulate_release [OF call]) simp_all
  qed
qed

text \<open>A retry loop: started, then run with nobody in between.\<close>

lemma simulate_attempt:
  assumes w: "implements w c" and call: "call w (w\<lparr>attempts := add_mset a (attempts w)\<rparr>)"
    and run: "run_attempt n (a, csys c) = (a', s')" and a: "\<not> returned a" "returned a'"
    and c': "csys c' = s'" "futs c' = futs c" "held c' = held c + gained a'" "issued c' = issued c"
  shows "\<exists>w'. tick\<^sup>*\<^sup>* w w' \<and> implements w' c'"
proof -
  let ?w1 = "w\<lparr>attempts := add_mset a (attempts w)\<rparr>"
  have "run_attempt n (a, wsys ?w1) = (a', s')" using run w by (simp add: implements_def)
  from run_attempt_retries [OF _ a(1) this, of "attempts w"]
  have "retry\<^sup>*\<^sup>* ?w1 (?w1\<lparr>wsys := s', wheld := wheld w + gained a', wretired := wretired w + withdrawn a',
      attempts := add_mset a' (attempts w)\<rparr>)" by simp
  from call_retries_ticks [OF call this] w a(2) c' show ?thesis
    by (intro exI conjI) (auto simp: implements_def settled_def tasks_def)
qed

lemma simulate:
  assumes "step c c'" and inv: "client_inv c" and w: "implements w c"
  shows "\<exists>w'. tick\<^sup>*\<^sup>* w w' \<and> implements w' c'"
  using assms(1)
proof cases
  case (acquire p n)
  with w show ?thesis
    by (intro simulate_call [OF call.acquire [of w p n]])
      (simp add: implements_def settled_def tasks_def task_of_def idle_def)
next
  case (poll f F cas_ok k r f' s')
  with simulate_poll [OF w poll(2,3)] show ?thesis by simp
next
  case (drop_future f d F)
  have W: "settled w" "tasks w = add_mset (f, d) F" using w drop_future(2) by (simp_all add: implements_def)
  then obtain pc T where T: "threads w = add_mset (f, pc) T" "image_mset task_of T = F" "idle pc"
    by (rule settled_thread) auto
  obtain x s1 where x: "leave_first f (wsys w) = (x, s1)" by (rule prod.exhaust)
  let ?w1 = "w\<lparr>wsys := s1, threads := T, leavers := add_mset x (leavers w),
    wretired := wretired w + reserved_by (store (wsys w)) (task_of (f, pc))\<rparr>"
  have call: "call w ?w1" using T(1,3) x by (rule call.drop_future)
  have "run_leave 3 (x, locked ?w1, wsys ?w1) = (Gone, locked w, drop_future f (wsys w))"
    using drop_in_steps_alone [OF x] by simp
  from run_leave_moves [OF _ this, of "leavers w"]
  have "move\<^sup>*\<^sup>* ?w1 (?w1\<lparr>wsys := drop_future f (wsys w), locked := locked w, leavers := add_mset Gone (leavers w)\<rparr>)"
    by simp
  from call_moves_ticks [OF call this] w drop_future T(2) W(1) T(1) show ?thesis
    by (intro exI conjI) (auto simp: implements_def settled_def tasks_def)
next
  case (try_acquire env r s')
  show ?thesis
    using simulate_attempt [OF w call.try_acquire once_in_steps [OF try_acquire(2,3)]] try_acquire(1) by simp
next
  case (try_acquire_many env n r s')
  show ?thesis
  proof (cases "n = 0")
    case True
    with try_acquire_many w show ?thesis
      by (intro simulate_call [OF call.try_acquire_none [of w]])
        (auto simp: try_acquire_many_def implements_def settled_def tasks_def acquired_def)
  next
    case False
    show ?thesis
      using simulate_attempt [OF w call.try_acquire_many [OF False]
        acquire_in_steps [OF try_acquire_many(2) False try_acquire_many(3)]] try_acquire_many(1) by simp
  qed
next
  case (drop_permit p H chk s')
  with simulate_drop_permit [OF w inv drop_permit(2,3)] show ?thesis by simp
next
  case (forget p H chk s')
  then have "s' = csys c" by (simp add: drop_permit_empty forget_def)
  with w forget show ?thesis
    by (intro simulate_call [OF call.forget [of w p H]])
      (simp_all add: implements_def settled_def tasks_def dropping_def forget_def)
next
  case (split p H n q p')
  with w show ?thesis
    by (intro simulate_call [OF call.split [of w p H n q p']])
      (simp_all add: implements_def settled_def tasks_def)
next
  case (merge p q H chk p' q' s')
  have "p_permits q' = 0" "s' = csys c" using mergeD(3) [OF merge(3)] merge(4) by (simp_all add: drop_permit_empty)
  with w merge show ?thesis
    by (intro simulate_call [OF call.merge [of w p q H chk p' q']])
      (simp_all add: implements_def settled_def tasks_def dropping_def)
next
  case (add_permits n chk s')
  with simulate_add_permits [OF w inv add_permits(2,3)] show ?thesis by simp
next
  case (forget_permits env n removed s')
  show ?thesis
  proof (cases "n = 0")
    case True
    with forget_permits w have "implements w c'" by (auto simp: forget_permits_def implements_def)
    then show ?thesis by blast
  next
    case False
    show ?thesis
      using simulate_attempt [OF w call.forget_permits [OF False]
        forget_in_steps [OF forget_permits(2) False forget_permits(3)]] forget_permits(1) by simp
  qed
next
  case (close h)
  let ?w1 = "w\<lparr>wsys := close_flag (wsys w), closers := add_mset Flagged (closers w)\<rparr>"
  have W: "\<not> locked w" "wsys w = csys c" using w by (simp_all add: implements_def settled_def)
  obtain n where "run_close n h (Flagged, locked ?w1, wsys ?w1) = (Shut, False, close_waiters h (wsys ?w1))"
    using closing_runs [of h "close_flag (wsys w)"] W by (auto simp: close_runs_def)
  from run_close_moves [OF _ close(2) this, of "closers w"]
  have "move\<^sup>*\<^sup>* ?w1 (?w1\<lparr>wsys := close_waiters h (wsys ?w1), locked := False, closers := add_mset Shut (closers w)\<rparr>)"
    by simp
  from call_moves_ticks [OF call.close this] w close(1) show ?thesis
    by (intro exI conjI) (auto simp: implements_def settled_def shut_def tasks_def close_def)
qed

end
