(* ===== verification/Wakeups.thy ===== *)
theory Wakeups
  imports World_Order Progress
begin

text \<open>
  The fate of a waker that a sleeping task has stored: whoever ends the wait of the task takes the waker
  or reads it, and wakes the task before it is done. The exceptions are those of the code: a release that finds
  the semaphore closed, and a request for no permits.
\<close>

section \<open>What a step does to a waiter that is not its own\<close>

text \<open>A thread that is not the one that moves keeps its waiter, unless that one is selected or closed.\<close>

lemma thread_other:
  assumes inv: "world_inv w" and T: "threads w = add_mset x T" and y: "y \<in># T" "f_handle (fst y) = Some v"
  shows "f_handle (fst x) \<noteq> Some v" "v \<in># handles (image_mset task_of T)"
proof -
  show v: "v \<in># handles (image_mset task_of T)" using y by (force simp: in_handles_iff)
  have "unique_handles (add_mset (task_of x) (image_mset task_of T))"
    using core_invD(5) [OF world_invD(1) [OF inv]] by (simp add: tasks_split [OF T])
  from unique_handles_add(2) [OF this, of v] v show "f_handle (fst x) \<noteq> Some v" by auto
qed

lemma poll_tick_store:
  "poll_tick cas_ok k pc f (lock, s) = Some (pc', f', l', s') \<Longrightarrow> f_handle f \<noteq> Some v \<Longrightarrow> v \<noteq> next_wid s \<Longrightarrow>
   store s' v = store s v"
  by (cases pc) (auto simp: push_waiter_def waiter_handle_new_def Let_def split: if_splits option.splits)

lemma sleeper_handle:
  "(f, Ret Pending) \<in># threads w \<Longrightarrow> f_handle f = Some v \<Longrightarrow> v \<in># handles (tasks w)"
  by (force simp: tasks_def in_handles_iff)

lemma poll_other:
  assumes inv: "world_inv w" and T: "threads w = add_mset (g, pc) T"
    and t: "poll_tick cas_ok k pc g (locked w, wsys w) = Some (pc', g', l', s')"
    and y: "(f, Ret Pending) \<in># threads w" "f_handle f = Some v"
  shows "store s' v = store (wsys w) v"
proof -
  have "pc \<noteq> Ret Pending" using t by (cases pc) auto
  then have "(f, Ret Pending) \<in># T" using y(1) T by auto
  from thread_other(1) [OF inv T this] y(2) have "f_handle g \<noteq> Some v" by simp
  moreover have "v \<noteq> next_wid (wsys w)"
    using core_invD(6) [OF world_invD(1) [OF inv] sleeper_handle [OF y]] by simp
  ultimately show ?thesis using poll_tick_store [OF t] by blast
qed

lemma leaver_other:
  assumes inv: "world_inv w" and L: "leavers w = add_mset x L"
    and t: "leave_tick x (locked w, wsys w) = Some (x', l', s')"
    and y: "(f, Ret Pending) \<in># threads w" "f_handle f = Some v"
  shows "store s' v = store (wsys w) v"
proof -
  have ok: "leaver_ok (wsys w) (tasks w) x" using world_invD(7) [OF inv] L by (simp add: leaving_ok_def)
  with sleeper_handle [OF y] have "leaver_wid x \<noteq> Some v" by (auto simp: leaver_ok_def)
  with t ok show ?thesis by (cases x) (auto simp: leaver_ok_def exchange_state_cases)
qed

lemma retry_store: "retry w w' \<Longrightarrow> store (wsys w') = store (wsys w)"
  by (cases rule: retry.cases) (auto dest!: attempt_tick_effect simp: word_step_def)

lemma call_other:
  assumes "call w w'" and inv: "world_inv w" and y: "(f, Ret Pending) \<in># threads w" "f_handle f = Some v"
    and keep: "(f, Ret Pending) \<in># threads w'"
  shows "store (wsys w') v = store (wsys w) v"
  using assms(1)
proof cases
  case (drop_future g pc T x s')
  then have "(f, Ret Pending) \<in># T" using keep by simp
  from thread_other(1) [OF inv drop_future(2) this] y(2) have "f_handle g \<noteq> Some v" by simp
  with leave_first_store(5) [OF drop_future(4)] drop_future(1) show ?thesis by simp
qed (simp_all add: close_flag_def)

lemma move_close_keeps:
  assumes inv: "world_inv w" and c: "closers w = add_mset c C" and h: "hash_order_ok h"
    and t: "close_tick h c (locked w, wsys w) = Some (c', l', s')"
  shows "close_keeps (tasks w) (wsys w) c' (l', s')"
proof -
  note I = world_invD [OF inv]
  have lock: "busy c \<Longrightarrow> locked w" and "\<not> busy c \<Longrightarrow> \<not> locked w"
    using lock_holder(4) [OF inv c] t by (auto simp: busy_def split: if_splits closing.splits)
  then have "seen w = wsys w"
    using lock_holder(1) [OF inv] lock_holder(4) [OF inv c] by (intro seen_free) blast
  with I(1) have core: "core_inv (wsys w) (tasks w)" by simp
  have "closer_ok (wsys w) c" by (rule closing_okD(2) [OF I(5)]) (simp add: c)
  from close_tick_effect [OF core this lock h t] show ?thesis .
qed

section \<open>A selection never assigns more than it was given\<close>

fun within :: "release \<Rightarrow> bool" where
  "within (Choosing rem pk) \<longleftrightarrow> pk_avail pk \<le> rem"
| "within r \<longleftrightarrow> True"

lemma pick_avail:
  assumes "wait_queue_inv \<sigma> (pick_view pk)" "pick_ok \<sigma> pk" "pk_at pk \<noteq> Picked" "pick_step pk \<sigma> = Some (pk', \<sigma>')"
  shows "pk_avail pk' \<le> pk_avail pk"
    and "pk_at pk = Notify v \<Longrightarrow> permits_needed (\<sigma> v) \<noteq> 0 \<Longrightarrow> pk_avail pk' < pk_avail pk"
proof -
  have e: "pick_effect pk \<sigma> pk' \<sigma>'" using pick_step_keeps [OF assms(1-3)] assms(4) by auto
  have "a - n \<le> a \<and> (n \<noteq> 0 \<longrightarrow> a - n < a)" if "n \<le> a" for a n :: usize
    using that by (auto simp: word_le_nat_alt word_less_nat_alt unat_sub word_unat_eq_iff)
  note less = this [THEN conjunct1] this [THEN conjunct2, rule_format]
  show "pk_avail pk' \<le> pk_avail pk" using e by cases (simp_all add: less)
  show "pk_avail pk' < pk_avail pk" if "pk_at pk = Notify v" "permits_needed (\<sigma> v) \<noteq> 0"
    using e that by cases (simp_all add: less)
qed

lemma choosing_facts:
  assumes inv: "world_inv w" and r: "releases w = add_mset (Choosing rem pk) R"
  shows "wait_queue_inv (store (wsys w)) (pick_view pk)" "pick_ok (store (wsys w)) pk"
    and "pk_avail pk = rem - pk_assigned pk" "choosing R = {#}" "busy_closers (closers w) = 0"
proof -
  note I = world_invD [OF inv]
  have L: "choosing (releases w) = {#pk#}" "choosing R = {#}" "busy_closers (closers w) = 0"
    using lock_holder(2) [OF inv r] by simp_all
  then show "choosing R = {#}" "busy_closers (closers w) = 0" by simp_all
  show "wait_queue_inv (store (wsys w)) (pick_view pk)" using core_invD(1) [OF I(1)] L by (simp add: view_busy)
  show "pick_ok (store (wsys w)) pk" "pk_avail pk = rem - pk_assigned pk"
    using I(3) [of "Choosing rem pk"] r by simp_all
qed

lemma world_reachable_within: "world_reachable w \<Longrightarrow> r \<in># releases w \<Longrightarrow> within r"
proof (induction arbitrary: r rule: world_reachable.induct)
  case (start w)
  then show ?case by (simp add: world_start_def)
next
  case (step w w')
  note inv = world_reachable_inv [OF step(1)]
  consider "move w w'" | "retry w w'" | "call w w'" using step(2) by (auto simp: tick_def)
  then show ?case
  proof cases
    case 1
    then show ?thesis
    proof cases
      case (release q R chk q' l' s')
      have "within q'"
        using move_release_case [OF inv release(2,3)]
      proof cases
        case quiet
        then show ?thesis by (cases q') (simp_all add: release_quiet_def)
      next
        case (pick pk pk' \<sigma> rem)
        note F = choosing_facts(1,2) [OF inv release(2) [unfolded pick(1)]]
        from pick_avail(1) [OF F pick(5,6)] step(3) [of q] release(2) pick(1,2) show ?thesis
          by (auto intro: order_trans)
      next
        case (leave pk rem)
        then show ?thesis by (simp add: pick_result_def Let_def)
      next
        case (enter n)
        with core_invD(1) [OF world_invD(1) [OF inv]] lock_holder(1) [OF inv] pick_start_keeps(3) show ?thesis
          by (fastforce simp: view_free)
      qed
      with step(3,4) release show ?thesis by auto
    qed (use step(3,4) in simp_all)
  next
    case 2
    then have "releases w' = releases w" by cases simp
    with step(3,4) show ?thesis by simp
  next
    case 3
    then have "releases w' = releases w \<or> (\<exists>R. releases w' = R + releases w \<and> (\<forall>q \<in># R. within q))"
      by cases (auto simp: dropping_def)
    with step(3,4) show ?thesis by auto
  qed
qed

section \<open>The fate of a waker\<close>

text \<open>
  A release that has the waker \<open>k\<close> in its batch and permits assigned, one that is about to take the waker of \<open>v\<close>,
  and a \<open>close\<close> that is about to wake the task of \<open>v\<close>.
\<close>

fun carries :: "waker \<Rightarrow> release \<Rightarrow> bool" where
  "carries k (Choosing rem pk) \<longleftrightarrow> k \<in> set (wake_contents (pk_wakes pk)) \<and> pk_avail pk < rem"
| "carries k (Selected l assigned rem) \<longleftrightarrow> k \<in> set (wake_contents l)"
| "carries k (Waking l rem) \<longleftrightarrow> k \<in> set (wake_contents l)"
| "carries k r \<longleftrightarrow> False"

fun at_waker :: "wid \<Rightarrow> release \<Rightarrow> bool" where
  "at_waker v (Choosing rem pk) \<longleftrightarrow> pk_at pk = Take v \<and> pk_avail pk < rem"
| "at_waker v r \<longleftrightarrow> False"

definition rouses :: "wid \<Rightarrow> closing \<Rightarrow> bool" where
  "rouses v c \<longleftrightarrow> (case c of Rousing u ws \<Rightarrow> u = v | _ \<Rightarrow> False)"

text \<open>
  What is owed to a task that sleeps with waiter \<open>v\<close>, request \<open>n\<close> and waker \<open>k\<close>: it has been woken, or it still
  waits, or whoever has ended its wait is about to wake it, or will not as the code has it.
\<close>

definition due :: "nat \<Rightarrow> usize \<Rightarrow> wid \<Rightarrow> waker \<Rightarrow> world \<Rightarrow> bool" where
  "due b n v k w \<longleftrightarrow> b \<le> length (woken (wsys w)) \<and>
     (k \<in> set (drop b (woken (wsys w))) \<or>
      (let x = store (wsys w) v
       in is_waiting x \<and> waker x = Some k \<or>
          is_notified x \<and> (is_closed (wsys w) \<or> n = 0 \<or> (\<exists>r \<in># releases w. carries k r) \<or>
            waker x = Some k \<and> (\<exists>r \<in># releases w. at_waker v r)) \<or>
          is_cancelled x \<and> waker x = Some k \<and> (\<exists>c \<in># closers w. rouses v c)))"

lemma due_bound: "due b n v k w \<Longrightarrow> b \<le> length (woken (wsys w))"
  by (simp add: due_def)

lemma due_intros:
  assumes "b \<le> length (woken (wsys w))"
  shows "k \<in> set (drop b (woken (wsys w))) \<Longrightarrow> due b n v k w"
    and "is_notified (store (wsys w) v) \<Longrightarrow> is_closed (wsys w) \<Longrightarrow> due b n v k w"
    and "is_notified (store (wsys w) v) \<Longrightarrow> n = 0 \<Longrightarrow> due b n v k w"
    and "is_notified (store (wsys w) v) \<Longrightarrow> carries k r \<Longrightarrow> r \<in># releases w \<Longrightarrow> due b n v k w"
    and "is_notified (store (wsys w) v) \<Longrightarrow> waker (store (wsys w) v) = Some k \<Longrightarrow> at_waker v r \<Longrightarrow>
      r \<in># releases w \<Longrightarrow> due b n v k w"
    and "is_cancelled (store (wsys w) v) \<Longrightarrow> waker (store (wsys w) v) = Some k \<Longrightarrow> rouses v c \<Longrightarrow>
      c \<in># closers w \<Longrightarrow> due b n v k w"
    and "is_waiting (store (wsys w) v) \<Longrightarrow> waker (store (wsys w) v) = Some k \<Longrightarrow> due b n v k w"
  using assms by (auto simp: due_def Let_def)

lemma dueE:
  assumes "due b n v k w"
  obtains (woken) "k \<in> set (drop b (woken (wsys w)))"
  | (waits) "is_waiting (store (wsys w) v)" "waker (store (wsys w) v) = Some k"
  | (lost) "is_notified (store (wsys w) v)" "is_closed (wsys w) \<or> n = 0"
  | (carried) r where "is_notified (store (wsys w) v)" "r \<in># releases w" "carries k r"
  | (taking) r where "is_notified (store (wsys w) v)" "waker (store (wsys w) v) = Some k" "r \<in># releases w" "at_waker v r"
  | (rousing) c where "is_cancelled (store (wsys w) v)" "waker (store (wsys w) v) = Some k" "c \<in># closers w" "rouses v c"
  using assms by (auto simp: due_def Let_def)

lemma prefix_later:
  assumes "prefix xs ys" "b \<le> length xs"
  shows "b \<le> length ys" "set (drop b xs) \<subseteq> set (drop b ys)" "set (drop (length xs) ys) \<subseteq> set (drop b ys)"
  using assms by (auto simp: prefix_def)

text \<open>
  A step that leaves the waiter alone, and of which we know that it pays when it ends the release or the \<open>close\<close>
  in question.
\<close>

lemma due_frame:
  assumes due: "due b n v k w" and s: "store (wsys w') v = store (wsys w) v"
    and w: "prefix (woken (wsys w)) (woken (wsys w'))" and c: "is_closed (wsys w) \<Longrightarrow> is_closed (wsys w')"
    and r: "\<forall>r \<in># releases w. r \<in># releases w' \<or> (is_notified (store (wsys w) v) \<and> carries k r \<longrightarrow> due b n v k w') \<and>
      (is_notified (store (wsys w) v) \<and> waker (store (wsys w) v) = Some k \<and> at_waker v r \<longrightarrow> due b n v k w')"
    and cl: "\<forall>c \<in># closers w. c \<in># closers w' \<or> (waker (store (wsys w) v) = Some k \<and> rouses v c \<longrightarrow> due b n v k w')"
  shows "due b n v k w'"
proof -
  note P = prefix_later [OF w due_bound [OF due]] and I = due_intros [OF prefix_later(1) [OF w due_bound [OF due]]]
  from due show ?thesis
  proof (cases rule: dueE)
    case woken
    with P(2) show ?thesis by (intro I(1)) blast
  next
    case waits
    with s show ?thesis by (intro I(7)) simp_all
  next
    case lost
    with s c show ?thesis by (auto intro: I(2,3))
  next
    case (carried q)
    with r s show ?thesis by (metis I(4))
  next
    case (taking q)
    with r s show ?thesis by (metis I(5))
  next
    case (rousing d)
    with cl s show ?thesis by (metis I(6))
  qed
qed

section \<open>Each step pays what is due\<close>

lemma poll_tick_woken: "poll_tick cas_ok k pc f (lock, s) = Some (pc', f', l', s') \<Longrightarrow> woken s' = woken s"
  by (cases pc) (auto simp: push_waiter_def waiter_handle_new_def Let_def split: if_splits option.splits)

lemma attempt_tick_woken: "attempt_tick cas_ok a s = Some (a', s') \<Longrightarrow> woken s' = woken s"
  by (cases a) (auto simp: compare_exchange_def loop_round_def Let_def split: if_splits sum.splits prod.splits)

lemma leave_tick_woken: "leave_tick x (lock, s) = Some (x', l', s') \<Longrightarrow> prefix (woken s) (woken s')"
  by (cases x) (auto simp: exchange_state_cases split: if_splits)

lemma leave_first_woken: "leave_first f s = (x, s') \<Longrightarrow> woken s' = woken s"
  by (auto simp: leave_first_def exchange_state_cases split: option.splits)

text \<open>Outside its selection a release keeps its batch until it wakes it, or finds the semaphore closed.\<close>

lemma release_tick_batch:
  assumes t: "release_tick chk r (lock, s) = Some (r', l', s')" and ok: "release_ok s r" and r: "chosen r = {#}"
  shows "prefix (woken s) (woken s')"
    and "carries k r \<Longrightarrow> carries k r' \<or> k \<in> set (drop (length (woken s)) (woken s')) \<or> is_closed s"
proof -
  have "prefix (woken s) (woken s') \<and> (carries k r \<longrightarrow> carries k r' \<or> k \<in> set (drop (length (woken s)) (woken s')) \<or> is_closed s)"
  proof (cases r)
    case (Waking l rem)
    then obtain ws where "l = wake_list_of ws" "length ws \<le> NUM_WAKERS" using ok by (auto elim: wake_list_okE)
    with t Waking show ?thesis by (auto simp: wake_all_of)
  qed (use t r in \<open>auto simp: release_enter_def release_put_def Let_def split: if_splits prod.splits\<close>)
  then show "prefix (woken s) (woken s')"
    "carries k r \<Longrightarrow> carries k r' \<or> k \<in> set (drop (length (woken s)) (woken s')) \<or> is_closed s" by blast+
qed

text \<open>A step of a selection.\<close>

lemma pick_take_batch:
  assumes "pick_take w pk \<sigma> = Some (pk', \<sigma>')" "wake_list_ok (pk_wakes pk)" "can_push (pk_wakes pk)"
  shows "set (wake_contents (pk_wakes pk)) \<subseteq> set (wake_contents (pk_wakes pk'))"
    and "waker (\<sigma> w) = Some k \<Longrightarrow> k \<in> set (wake_contents (pk_wakes pk'))"
proof -
  obtain ws where ws: "pk_wakes pk = wake_list_of ws" "length ws < NUM_WAKERS"
    using assms(2,3) by (auto elim: wake_list_okE)
  with assms(1) have "set (wake_contents (pk_wakes pk)) \<subseteq> set (wake_contents (pk_wakes pk')) \<and>
      (waker (\<sigma> w) = Some k \<longrightarrow> k \<in> set (wake_contents (pk_wakes pk')))"
    by (cases "waker (\<sigma> w)") (auto simp: pick_take_def take_waker_eq push_unchecked_eq_push push_of)
  then show "set (wake_contents (pk_wakes pk)) \<subseteq> set (wake_contents (pk_wakes pk'))"
    "waker (\<sigma> w) = Some k \<Longrightarrow> k \<in> set (wake_contents (pk_wakes pk'))" by blast+
qed

lemma pick_moves_wakes:
  "pk_wakes (pick_leave pk) = pk_wakes pk" "pk_wakes (pick_finish pk) = pk_wakes pk"
  "pk_wakes (pick_swept kept pk) = pk_wakes pk" "pick_pop pk = Some pk' \<Longrightarrow> pk_wakes pk' = pk_wakes pk"
  "pick_outer pk \<sigma> = Some pk' \<Longrightarrow> pk_wakes pk' = pk_wakes pk"
  by (auto simp: pick_leave_def pick_finish_def pick_swept_def pick_pop_def pick_outer_def Let_def
      split: if_splits option.splits list.splits)

lemma pick_front_wakes: "pick_front pk \<sigma> = Some pk' \<Longrightarrow> pk_wakes pk' = pk_wakes pk"
  by (auto simp: pick_front_def pick_moves_wakes split: if_splits list.splits)

lemma pick_notify_wakes: "pick_notify v pk \<sigma> = Some (pk', \<sigma>') \<Longrightarrow> pk_wakes pk' = pk_wakes pk"
  by (auto simp: pick_notify_def pick_moves_wakes Let_def split: option.splits prod.splits)

lemma pick_step_batch:
  assumes "pick_step pk \<sigma> = Some (pk', \<sigma>')" "pick_ok \<sigma> pk"
  shows "set (wake_contents (pk_wakes pk)) \<subseteq> set (wake_contents (pk_wakes pk'))"
    and "pk_at pk = Take v \<Longrightarrow> waker (\<sigma> v) = Some k \<Longrightarrow> k \<in> set (wake_contents (pk_wakes pk'))"
proof -
  have "set (wake_contents (pk_wakes pk)) \<subseteq> set (wake_contents (pk_wakes pk')) \<and>
      (pk_at pk = Take v \<and> waker (\<sigma> v) = Some k \<longrightarrow> k \<in> set (wake_contents (pk_wakes pk')))"
  proof (cases "pk_at pk")
    case (Take u)
    with assms pick_take_batch [where w = u] show ?thesis by (auto simp: pick_step_def pick_ok_def)
  qed (use assms(1) in \<open>auto simp: pick_step_def pick_moves_wakes pick_front_wakes pick_notify_wakes split: list.splits\<close>)
  then show "set (wake_contents (pk_wakes pk)) \<subseteq> set (wake_contents (pk_wakes pk'))"
    "pk_at pk = Take v \<Longrightarrow> waker (\<sigma> v) = Some k \<Longrightarrow> k \<in> set (wake_contents (pk_wakes pk'))" by blast+
qed

text \<open>A selection ends the wait of a waiter by notifying it, and takes its waker next.\<close>

lemma pick_step_waiter:
  assumes "pick_step pk \<sigma> = Some (pk', \<sigma>')" "pick_ok \<sigma> pk" "is_waiting (\<sigma> v)"
  shows "\<sigma>' v = \<sigma> v \<or> pk_at pk = Notify v \<and> pk_at pk' = Take v \<and> \<sigma>' v = (\<sigma> v)\<lparr>state := NOTIFIED\<rparr>"
proof (cases "pk_at pk")
  case (Notify u)
  with assms show ?thesis
    by (auto simp: pick_step_def pick_notify_def try_notify_cases Let_def split: option.splits if_splits)
next
  case (Take u)
  with assms show ?thesis
    by (auto simp: pick_step_def pick_ok_def pick_take_def take_waker_eq Let_def split: option.splits if_splits)
qed (use assms in \<open>auto simp: pick_step_def split: list.splits\<close>)


text \<open>A step of a selection, a step of a release.\<close>

lemma due_pick:
  assumes inv: "world_inv w" and R: "releases w = add_mset (Choosing rem pk) R" and at: "pk_at pk \<noteq> Picked"
    and t: "pick_step pk (store (wsys w)) = Some (pk', \<sigma>)" and le: "pk_avail pk \<le> rem"
    and n: "permits_needed (store (wsys w) v) = n" and due: "due b n v k w"
    and w': "wsys w' = (wsys w)\<lparr>store := \<sigma>\<rparr>" "releases w' = add_mset (Choosing rem pk') R" "closers w' = closers w"
  shows "due b n v k w'"
proof -
  let ?\<sigma> = "store (wsys w)" and ?r' = "Choosing rem pk'"
  note F = choosing_facts(1,2) [OF inv R] and B = pick_step_batch [OF t choosing_facts(2) [OF inv R]]
  note A = pick_avail [OF F at t]
  have r': "?r' \<in># releases w'" by (simp add: w')
  have "b \<le> length (woken (wsys w'))" using due_bound [OF due] by (simp add: w')
  note I = due_intros [OF this]
  have carries: "carries k ?r'" if "carries k (Choosing rem pk)" using that B(1) A(1) by auto
  have taken: "carries k ?r'" if "waker (?\<sigma> v) = Some k" "at_waker v q" "q \<in># releases w" for q
  proof -
    have "q = Choosing rem pk"
      using that(2,3) R choosing_facts(4) [OF inv R] by (cases q) (auto simp: choosing_def)
    with that B(2) A(1) show ?thesis by auto
  qed
  have quiet: "\<not> rouses v c" if "c \<in># closers w" for c
  proof
    assume "rouses v c"
    then have "busy c" by (auto simp: rouses_def busy_def)
    with that choosing_facts(5) [OF inv R] show False by (simp add: busy_closers_def)
  qed
  have "pick_effect pk ?\<sigma> pk' \<sigma>" using pick_step_keeps [OF F at] t by auto
  then have "\<sigma> v = ?\<sigma> v \<or> is_waiting (?\<sigma> v) \<or> \<sigma> v = (?\<sigma> v)\<lparr>waker := None\<rparr>"
    by cases auto
  then consider (same) "\<sigma> v = ?\<sigma> v" | (notified) "is_waiting (?\<sigma> v)" "\<sigma> v \<noteq> ?\<sigma> v"
    | (took) "\<not> is_waiting (?\<sigma> v)" "\<sigma> v = (?\<sigma> v)\<lparr>waker := None\<rparr>"
    by blast
  then show ?thesis
  proof cases
    case same
    have "due b n v k w'" if "is_notified (?\<sigma> v)" "carries k (Choosing rem pk)"
      by (rule I(4) [OF _ carries r']) (use that same w' in simp_all)
    moreover have "due b n v k w'" if "is_notified (?\<sigma> v)" "waker (?\<sigma> v) = Some k" "at_waker v (Choosing rem pk)"
      by (rule I(4) [OF _ taken [of "Choosing rem pk"] r']) (use that same w' R in simp_all)
    ultimately show ?thesis
      by (intro due_frame [OF due]) (simp_all add: w' R same is_closed_def)
  next
    case notified
    with pick_step_waiter [OF t F(2)] have e: "pk_at pk = Notify v" "pk_at pk' = Take v"
      "\<sigma> v = (?\<sigma> v)\<lparr>state := NOTIFIED\<rparr>" by blast+
    from due notified(1) have "k \<in> set (drop b (woken (wsys w))) \<or> waker (?\<sigma> v) = Some k"
      by (cases rule: dueE) (simp_all add: waiter_tests)
    moreover have "n \<noteq> 0 \<Longrightarrow> at_waker v ?r'" using A(2) [OF e(1)] n le e(2) by auto
    ultimately show ?thesis
      using e(3) w' due_bound [OF due] by (auto simp: due_def waiter_tests)
  next
    case took
    then have st: "is_notified (\<sigma> v) = is_notified (?\<sigma> v)" "is_cancelled (\<sigma> v) = is_cancelled (?\<sigma> v)"
      by (simp_all add: waiter_tests)
    from due show ?thesis
    proof (cases rule: dueE)
      case (carried q)
      with carries r' st w' R due_bound [OF due] show ?thesis by (cases "q = Choosing rem pk") (auto simp: due_def Let_def)
    next
      case (taking q)
      from I(4) [OF _ taken [OF taking(2,4,3)] r'] taking(1) st w' show ?thesis by simp
    qed (use st took(1) w' quiet due_bound [OF due] in \<open>auto simp: due_def word_frame Let_def\<close>)
  qed
qed


lemma due_release:
  assumes inv: "world_inv w" and R: "releases w = add_mset r R"
    and t: "release_tick chk r (locked w, wsys w) = Some (r', l', s')" and le: "within r"
    and n: "permits_needed (store (wsys w) v) = n" and due: "due b n v k w"
    and w': "wsys w' = s'" "releases w' = add_mset r' R" "closers w' = closers w"
  shows "due b n v k w'"
proof -
  have r': "r' \<in># releases w'" by (simp add: w')
  note D = due_bound [OF due]
  from move_release_case [OF inv R t] show ?thesis
  proof cases
    case quiet
    then have Q: "store s' = store (wsys w)" "is_closed s' = is_closed (wsys w)" "chosen r = {#}"
      by (simp_all add: release_quiet_def)
    have "release_ok (wsys w) r" by (rule world_invD(3) [OF inv]) (simp add: R)
    note B = release_tick_batch [OF t this Q(3)]
    have "due b n v k w'" if "is_notified (store (wsys w) v)" "carries k r"
    proof -
      have s: "is_notified (store (wsys w') v)" using that(1) Q(1) w'(1) by simp
      note P = prefix_later [OF B(1) D, folded w'(1)]
      from B(2) [OF that(2)] consider "carries k r'" | "k \<in> set (drop b (woken (wsys w')))" | "is_closed (wsys w')"
        using P(3) Q(2) w'(1) by auto
      then show ?thesis using due_intros(1,2) [OF P(1)] due_intros(4) [OF P(1) s _ r'] s by cases blast+
    qed
    moreover have "\<not> at_waker v r" using Q(3) by (cases r) auto
    ultimately show ?thesis
      using B(1) by (intro due_frame [OF due]) (auto simp: w' R Q)
  next
    case (enter m)
    have "\<not> carries k r" "\<not> at_waker v r" using enter by auto
    with enter show ?thesis by (intro due_frame [OF due]) (auto simp: w' R)
  next
    case (pick pk pk' \<sigma> rem)
    from le pick(1) have "pk_avail pk \<le> rem" by simp
    from due_pick [OF inv R [unfolded pick(1)] pick(5,6) this n due] pick(1-4) w' show ?thesis by simp
  next
    case (leave pk rem)
    have "pk_avail pk = rem - pk_assigned pk" using choosing_facts(3) [OF inv R [unfolded leave(1)]] .
    moreover have "wake_contents (pk_wakes pk) = []" if "wake_list_is_empty (pk_wakes pk)"
      using that by (simp add: wake_list_is_empty_def wake_contents_def)
    ultimately have "carries k r'" if "carries k r" using that leave(1,2) by (auto simp: pick_result_def Let_def)
    then have "due b n v k w'" if "is_notified (store (wsys w) v)" "carries k r"
      using that leave r' w'(1) D by (intro due_intros(4)) simp_all
    moreover have "\<not> at_waker v r" using leave(1,5) by simp
    ultimately show ?thesis using leave by (intro due_frame [OF due]) (auto simp: w' R)
  qed
qed


text \<open>A step of \<open>close\<close>.\<close>

lemma close_tick_fate:
  assumes "close_tick h c (lock, s) = Some (c', l', s')"
  shows "prefix (woken s) (woken s')" "rouses v c \<Longrightarrow> waker (store s v) = Some k \<Longrightarrow> k \<in> set (drop (length (woken s)) (woken s'))"
    and "store s' v = store s v \<or> is_waiting (store s v) \<and> store s' v = (store s v)\<lparr>state := CANCELLED\<rparr> \<and> rouses v c'
      \<or> is_notified (store s v)"
  using assms
  by (cases "(h, c, lock, s)" rule: close_tick.cases; auto simp: rouses_def exchange_state_cases
      wake_by_ref_under_lock_def waiter_tests split: if_splits)+

lemma due_close:
  assumes inv: "world_inv w" and C: "closers w = add_mset c C" and h: "hash_order_ok h"
    and t: "close_tick h c (locked w, wsys w) = Some (c', l', s')" and due: "due b n v k w"
    and w': "wsys w' = s'" "releases w' = releases w" "closers w' = add_mset c' C"
  shows "due b n v k w'"
proof -
  have keeps: "cancelled_at (store (wsys w) v) (store s' v)" "permits s' = permits (wsys w)"
    using move_close_keeps [OF inv C h t] by (simp_all add: close_keeps_def)
  show ?thesis
  proof (cases "store s' v = store (wsys w) v")
    case True
    have "due b n v k w'" if "waker (store (wsys w) v) = Some k" "rouses v c"
    proof -
      note P = prefix_later [OF close_tick_fate(1) [OF t] due_bound [OF due], folded w'(1)]
      from close_tick_fate(2) [OF t that(2,1)] P(3) w'(1) show ?thesis by (intro due_intros(1) [OF P(1)]) auto
    qed
    with True keeps(2) close_tick_fate(1) [OF t] show ?thesis
      by (intro due_frame [OF due]) (auto simp: w' C is_closed_def)
  next
    case False
    with keeps(1) have e: "is_waiting (store (wsys w) v)" "store s' v = (store (wsys w) v)\<lparr>state := CANCELLED\<rparr>"
      by (auto simp: cancelled_at_def)
    with False close_tick_fate(3) [OF t, of v] have "rouses v c'" by (auto simp: waiter_tests)
    moreover from due e(1) have "k \<in> set (drop b (woken (wsys w))) \<or> waker (store (wsys w) v) = Some k"
      by (cases rule: dueE) (simp_all add: waiter_tests)
    moreover note P = prefix_later [OF close_tick_fate(1) [OF t] due_bound [OF due]]
    ultimately show ?thesis
      using e(2) w' P(1,2) by (auto simp: due_def Let_def waiter_tests)
  qed
qed

section \<open>Every step pays\<close>

lemma due_tick:
  assumes reach: "world_reachable w" and tick: "tick w w'"
    and y: "(f, Ret Pending) \<in># threads w" "(f, Ret Pending) \<in># threads w'" "f_handle f = Some v"
    and due: "due b (f_needed f) v k w"
  shows "due b (f_needed f) v k w'"
proof -
  note inv = world_reachable_inv [OF reach]
  have n: "permits_needed (store (wsys w) v) = f_needed f"
  proof -
    have "task_of (f, Ret Pending) \<in># tasks w" using y(1) by (simp add: tasks_def)
    from core_invD(4) [OF world_invD(1) [OF inv] this] y(3) show ?thesis by (simp add: task_ok_def task_of_def)
  qed
  from tick consider "move w w'" | "retry w w'" | "call w w'" by (auto simp: tick_def)
  then show ?thesis
  proof cases
    case 1
    then show ?thesis
    proof cases
      case (poll g pc T cas_ok j pc' g' l' s')
      have "permits s' = permits (wsys w) \<or> is_closed s' = is_closed (wsys w)"
        using move_flag(1) [OF 1 inv] poll(1) by simp
      with poll show ?thesis
        using move_flag(1) [OF 1 inv] poll_tick_woken [OF poll(3)] poll_other [OF inv poll(2,3) y(1,3)]
        by (intro due_frame [OF due]) simp_all
    next
      case (release r R chk r' l' s')
      have "within r" by (rule world_reachable_within [OF reach]) (simp add: release(2))
      from due_release [OF inv release(2,3) this n due] release(1) show ?thesis by simp
    next
      case (close c C h c' l' s')
      from due_close [OF inv close(2-4) due] close(1) show ?thesis by simp
    next
      case (leave x L x' l' s')
      then show ?thesis
        using move_flag(1) [OF 1 inv] leave_tick_woken [OF leave(3)] leaver_other [OF inv leave(2,3) y(1,3)]
        by (intro due_frame [OF due]) simp_all
    qed
  next
    case 2
    then show ?thesis
    proof cases
      case (retry a A cas_ok a' s')
      then show ?thesis
        using retry_flag(1) [OF 2] retry_store [OF 2] attempt_tick_woken [OF retry(3)]
        by (intro due_frame [OF due]) simp_all
    qed
  next
    case 3
    have "prefix (woken (wsys w)) (woken (wsys w'))" "\<forall>r \<in># releases w. r \<in># releases w'"
      "\<forall>c \<in># closers w. c \<in># closers w'"
      using 3 by (cases; auto simp: close_flag_def dest: leave_first_woken)+
    moreover have "is_closed (wsys w) \<Longrightarrow> is_closed (wsys w')" using call_flag [OF 3] by blast
    ultimately show ?thesis
      using call_other [OF 3 inv y(1,3,2)] by (intro due_frame [OF due]) simp_all
  qed
qed


section \<open>A task that sleeps\<close>

text \<open>A run of any number of steps during which the thread \<open>t\<close> makes none and is not dropped.\<close>

inductive asleep :: "thread \<Rightarrow> world \<Rightarrow> world \<Rightarrow> bool" where
  here: "t \<in># threads w \<Longrightarrow> asleep t w w"
| tick: "asleep t w w' \<Longrightarrow> tick w' w'' \<Longrightarrow> t \<in># threads w'' \<Longrightarrow> asleep t w w''"

lemma asleep_stays: "asleep t w w' \<Longrightarrow> t \<in># threads w'"
  by (induction rule: asleep.induct) simp_all

lemma asleep_reachable: "asleep t w w' \<Longrightarrow> world_reachable w \<Longrightarrow> world_reachable w'"
  by (induction rule: asleep.induct) (auto intro: world_reachable.step)

lemma asleep_due:
  "asleep (f, Ret Pending) w w' \<Longrightarrow> world_reachable w \<Longrightarrow> f_handle f = Some v \<Longrightarrow>
   due b (f_needed f) v k w \<Longrightarrow> due b (f_needed f) v k w'"
proof (induction "(f, Ret Pending)" w w' rule: asleep.induct)
  case (tick w w' w'')
  with due_tick [OF asleep_reachable [OF tick(1)] tick(3) asleep_stays [OF tick(1)] tick(4)] show ?case by blast
qed

lemma settled_owes_nothing:
  assumes "settled w"
  shows "r \<in># releases w \<Longrightarrow> \<not> carries k r" "r \<in># releases w \<Longrightarrow> \<not> at_waker v r" "c \<in># closers w \<Longrightarrow> \<not> rouses v c"
  using assms by (auto simp: settled_def shut_def rouses_def split: closing.split)

lemma sleeper_woken:
  assumes "world_reachable w" "asleep (f, Ret Pending) w w'" "settled w'" "f_handle f = Some v"
    and "is_waiting (store (wsys w) v)" "waker (store (wsys w) v) = Some k" "\<not> is_waiting (store (wsys w') v)"
  shows "k \<in> set (drop (length (woken (wsys w))) (woken (wsys w'))) \<or>
     is_notified (store (wsys w') v) \<and> (is_closed (wsys w') \<or> f_needed f = 0)"
proof -
  have "due (length (woken (wsys w))) (f_needed f) v k w" using assms(5,6) by (intro due_intros(7)) simp_all
  from asleep_due [OF assms(2,1,4) this] show ?thesis
    using settled_owes_nothing [OF assms(3)] assms(7) by (cases rule: dueE) auto
qed

end
