(* ===== verification/Races.thy ===== *)
theory Races
  imports Wakeups
begin

text \<open>
  Concrete runs of the interleaved system, and the properties that hold of its reachable states
  only: what interleaving may and may not do.
\<close>

section \<open>Executable runs\<close>

definition do_spawn :: "isize \<Rightarrow> u32 \<Rightarrow> world \<Rightarrow> world" where
  "do_spawn p n w = w\<lparr>threads := add_mset (acquire_many_with_priority p n (wsys w), Fresh) (threads w)\<rparr>"

definition do_take :: "u32 \<Rightarrow> world \<Rightarrow> world" where
  "do_take n w =
     (let (a', s') = run_attempt 2 (Acquiring n, wsys w)
      in w\<lparr>wsys := s', wheld := wheld w + gained a', wretired := wretired w + withdrawn a',
           attempts := add_mset a' (attempts w)\<rparr>)"

definition start_poll :: "thread \<Rightarrow> world \<Rightarrow> world" where
  "start_poll t w = w\<lparr>threads := add_mset (fst t, poll_entry (fst t)) (threads w - {#t#})\<rparr>"

definition run_thread :: "nat \<Rightarrow> waker \<Rightarrow> thread \<Rightarrow> world \<Rightarrow> world" where
  "run_thread n k t w =
     (let (pc', f', l', s') = run_poll n True k (snd t, fst t, locked w, wsys w)
      in w\<lparr>wsys := s', locked := l', threads := add_mset (f', pc') (threads w - {#t#}),
           wheld := wheld w + ret_permit pc'\<rparr>)"

definition start_drop :: "permit \<Rightarrow> world \<Rightarrow> world" where
  "start_drop p w = w\<lparr>wheld := wheld w - {#p#}, releases := dropping p + releases w\<rparr>"

fun run_drop :: "nat \<Rightarrow> release \<Rightarrow> world \<Rightarrow> world" where
  "run_drop 0 r w = w"
| "run_drop (Suc n) r w =
     (case release_tick True r (locked w, wsys w) of
        None \<Rightarrow> w
      | Some (r', l', s') \<Rightarrow> run_drop n r' (w\<lparr>wsys := s', locked := l',
          releases := add_mset r' (releases w - {#r#}), wretired := wretired w + forfeited r (wsys w)\<rparr>))"

definition drop_task :: "thread \<Rightarrow> world \<Rightarrow> world" where
  "drop_task t w =
     (let (x, s') = leave_first (fst t) (wsys w)
      in w\<lparr>wsys := s', threads := threads w - {#t#}, leavers := add_mset x (leavers w),
           wretired := wretired w + reserved_by (store (wsys w)) (task_of t)\<rparr>)"

definition run_leaver :: "nat \<Rightarrow> leaving \<Rightarrow> world \<Rightarrow> world" where
  "run_leaver n x w =
     (let (x', l', s') = run_leave n (x, locked w, wsys w)
      in w\<lparr>wsys := s', locked := l', leavers := add_mset x' (leavers w - {#x#})\<rparr>)"

definition start_close :: "world \<Rightarrow> world" where
  "start_close w = w\<lparr>wsys := close_flag (wsys w), closers := add_mset Flagged (closers w)\<rparr>"

definition run_closer :: "nat \<Rightarrow> closing \<Rightarrow> world \<Rightarrow> world" where
  "run_closer n c w =
     (let (c', l', s') = run_close n id (c, locked w, wsys w)
      in w\<lparr>wsys := s', locked := l', closers := add_mset c' (closers w - {#c#})\<rparr>)"

lemma world_reachable_ticks: "tick\<^sup>*\<^sup>* w w' \<Longrightarrow> world_reachable w \<Longrightarrow> world_reachable w'"
  by (induction rule: rtranclp_induct) (auto intro: world_reachable.step)

lemma run_drop_induct:
  assumes "P w" "r \<in># releases w" "\<And>w w'. P w \<Longrightarrow> move w w' \<Longrightarrow> threads w' = threads w \<Longrightarrow> P w'"
  shows "P (run_drop m r w)"
  using assms(1,2)
proof (induction m r w rule: run_drop.induct)
  case (2 n r w)
  show ?case
  proof (cases "release_tick True r (locked w, wsys w)")
    case (Some x)
    then obtain r' l' s' where t: "release_tick True r (locked w, wsys w) = Some (r', l', s')" by (cases x) auto
    let ?w' = "w\<lparr>wsys := s', locked := l', releases := add_mset r' (releases w - {#r#}),
      wretired := wretired w + forfeited r (wsys w)\<rparr>"
    have "move w ?w'" using 2(3) t by (intro move.release) simp_all
    with 2(2) have "P ?w'" by (rule assms(3)) simp
    with 2(1) [OF t refl refl] t show ?thesis by simp
  qed (use 2(2) in simp)
qed simp

lemma world_runs:
  "world_reachable w \<Longrightarrow> world_reachable (do_spawn p n w)"
  "world_reachable w \<Longrightarrow> n \<noteq> 0 \<Longrightarrow> world_reachable (do_take n w)"
  "world_reachable w \<Longrightarrow> t \<in># threads w \<Longrightarrow> snd t = Fresh \<or> snd t = Ret Pending \<Longrightarrow> world_reachable (start_poll t w)"
  "world_reachable w \<Longrightarrow> t \<in># threads w \<Longrightarrow> \<not> idle (snd t) \<Longrightarrow> world_reachable (run_thread m k t w)"
  "world_reachable w \<Longrightarrow> p' \<in># wheld w \<Longrightarrow> world_reachable (start_drop p' w)"
  "world_reachable w \<Longrightarrow> r \<in># releases w \<Longrightarrow> world_reachable (run_drop m r w)"
  "world_reachable w \<Longrightarrow> t \<in># threads w \<Longrightarrow> idle (snd t) \<Longrightarrow> world_reachable (drop_task t w)"
  "world_reachable w \<Longrightarrow> world_reachable (start_close w)"
  "world_reachable w \<Longrightarrow> c \<in># closers w \<Longrightarrow> world_reachable (run_closer m c w)"
  "world_reachable w \<Longrightarrow> x \<in># leavers w \<Longrightarrow> world_reachable (run_leaver m x w)"
proof -
  assume w: "world_reachable w"
  have call: "world_reachable w'" if "call w w'" for w'
    using w that by (auto intro: world_reachable.step simp: tick_def)
  show "world_reachable (do_spawn p n w)" unfolding do_spawn_def by (intro call call.acquire)
  show "world_reachable (start_poll t w)" if "t \<in># threads w" "snd t = Fresh \<or> snd t = Ret Pending"
    unfolding start_poll_def using that by (intro call call.poll [where pc = "snd t"]) simp_all
  show "world_reachable (start_drop p' w)" if "p' \<in># wheld w"
    unfolding start_drop_def using that by (intro call call.drop_permit) simp
  show "world_reachable (start_close w)" unfolding start_close_def by (intro call call.close)
  show "world_reachable (do_take n w)" if "n \<noteq> 0"
  proof -
    let ?w1 = "w\<lparr>attempts := add_mset (Acquiring n) (attempts w)\<rparr>"
    obtain a' s' where run: "run_attempt 2 (Acquiring n, wsys ?w1) = (a', s')" by (rule prod.exhaust)
    from run_attempt_retries [OF _ _ this, of "attempts w"] run have "retry\<^sup>*\<^sup>* ?w1 (do_take n w)"
      by (simp add: do_take_def)
    from call_retries_ticks [OF call.try_acquire_many [OF that] this] w world_reachable_ticks show ?thesis by blast
  qed
  show "world_reachable (run_closer m c w)" if c: "c \<in># closers w"
  proof -
    obtain c' l' s' where run: "run_close m id (c, locked w, wsys w) = (c', l', s')" by (metis prod_cases3)
    with run_close_moves [OF _ _ run, of "closers w - {#c#}"] c
    have "move\<^sup>*\<^sup>* w (run_closer m c w)" by (simp add: run_closer_def hash_order_ok_def)
    then show ?thesis using w world_reachable_ticks moves_ticks by blast
  qed
  show "world_reachable (run_thread m k t w)" if t: "t \<in># threads w" "\<not> idle (snd t)"
  proof -
    obtain pc' f' l' s' where run: "run_poll m True k (snd t, fst t, locked w, wsys w) = (pc', f', l', s')"
      by (metis prod_cases4)
    have "snd t \<noteq> Ret r" for r using t(2) by (auto simp: idle_def)
    with run_poll_moves [OF _ _ run, of "threads w - {#t#}"] t(1) run
    have "move\<^sup>*\<^sup>* w (run_thread m k t w)" by (simp add: run_thread_def)
    then show ?thesis using w world_reachable_ticks moves_ticks by blast
  qed
  show "world_reachable (drop_task t w)" if "t \<in># threads w" "idle (snd t)"
  proof -
    obtain y s' where "leave_first (fst t) (wsys w) = (y, s')" by (rule prod.exhaust)
    with that call.drop_future [of w "fst t" "snd t" "threads w - {#t#}" y s'] have "call w (drop_task t w)"
      by (simp add: drop_task_def)
    then show ?thesis by (rule call)
  qed
  show "world_reachable (run_leaver m x w)" if x: "x \<in># leavers w"
  proof -
    obtain x' l' s' where run: "run_leave m (x, locked w, wsys w) = (x', l', s')" by (metis prod_cases3)
    with run_leave_moves [OF _ run, of "leavers w - {#x#}"] x
    have "move\<^sup>*\<^sup>* w (run_leaver m x w)" by (simp add: run_leaver_def)
    then show ?thesis using w world_reachable_ticks moves_ticks by blast
  qed
  show "world_reachable (run_drop m r w)" if r: "r \<in># releases w"
    using w r by (rule run_drop_induct) (auto intro: world_reachable.step simp: tick_def)
qed

text \<open>A task sleeps on while a permit is dropped.\<close>

lemma asleep_run_drop:
  assumes "asleep t w0 w" "r \<in># releases w"
  shows "asleep t w0 (run_drop m r w)"
  using assms
proof (rule run_drop_induct)
  fix w1 w2
  assume a: "asleep t w0 w1" "move w1 w2" "threads w2 = threads w1"
  show "asleep t w0 w2" by (rule asleep.tick [OF a(1)]) (use a asleep_stays [OF a(1)] in \<open>simp_all add: tick_def\<close>)
qed

section \<open>Four runs\<close>

text \<open>One permit, taken; a task has been queued and has looked at its waiter, but not yet stored its waker.\<close>

definition world_init :: world where
  "world_init = \<lparr>wsys = csys demo_start, locked = False, threads = {#}, releases = {#}, wheld = {#},
     closers = {#}, leavers = {#}, attempts = {#}, wissued = 1, wretired = 0\<rparr>"

definition world_checked :: world where
  "world_checked = run_thread 6 20 (demo_future (ISize 0) None, Start)
     (start_poll (demo_future (ISize 0) None, Fresh) (do_spawn (ISize 0) 1 (do_take 1 world_init)))"

text \<open>The permit is dropped right then; only after that the task stores its waker and sleeps.\<close>

definition world_lost :: world where
  "world_lost = run_thread 1 20 (demo_future (ISize 0) (Some 0), Park)
     (run_drop 7 (Dropping 1) (start_drop demo_permit world_checked))"

text \<open>
  The task sleeps first; the drop of the permit has selected it when it is polled again and takes
  the permit; the semaphore is closed before the drop looks at the flag.
\<close>

definition world_parked :: world where
  "world_parked = run_thread 1 20 (demo_future (ISize 0) (Some 0), Park) world_checked"

definition world_doubled :: world where
  "world_doubled = run_closer 2 Flagged (run_drop 3 (Selected (wake_list_of [20]) 1 0) (start_close
     (run_thread 3 20 (demo_future (ISize 0) (Some 0), Look)
       (start_poll (demo_future (ISize 0) (Some 0), Ret Pending)
         (run_drop 6 (Dropping 1) (start_drop demo_permit world_parked))))))"

text \<open>
  The semaphore is closed after the task has looked at its waiter; then the task stores its waker and
  sleeps. The closer takes the mutex, cancels the waiter, wakes nobody and releases the mutex.
\<close>

definition world_stranded :: world where
  "world_stranded = run_thread 1 20 (demo_future (ISize 0) (Some 0), Park)
     (run_closer 4 Flagged (start_close world_checked))"

text \<open>
  The task sleeps; the drop of the permit has found its waiter at the front of the queue, not
  cancelled and served by the permit, when the task's future is dropped and cancels the waiter; then the
  selection goes on, and after it the drop of the future.
\<close>

definition world_looked :: world where
  "world_looked = run_drop 2 (Dropping 1) (start_drop demo_permit world_parked)"

definition looked_release :: release where
  "looked_release = fst (run_release 2 True (Dropping 1, False, wsys world_parked))"

definition world_missed :: world where
  "world_missed = run_leaver 3 (Stir 0) (run_drop 5 looked_release
     (drop_task (demo_future (ISize 0) (Some 0), Ret Pending) world_looked))"

text \<open>
  The task has been queued and is about to store its waker, while the drop of the permit has notified
  its waiter and is about to take the waker. The same with a task that sleeps and whose future is dropped:
  it has cancelled its notified waiter and is about to wake by reference.
\<close>

definition world_raced :: world where
  "world_raced = run_drop 3 (Dropping 1) (start_drop demo_permit world_checked)"

definition raced_release :: release where
  "raced_release = fst (run_release 3 True (Dropping 1, False, wsys world_checked))"

definition world_raced_leaving :: world where
  "world_raced_leaving = run_leaver 1 (Recancel 0) (drop_task (demo_future (ISize 0) (Some 0), Ret Pending)
     (run_drop 3 (Dropping 1) (start_drop demo_permit world_parked)))"

lemma world_init_reachable: "world_reachable world_init"
proof (rule world_reachable.start)
  have "new_with_config 7 1 config_default = Done (csys demo_start)"
    by (simp add: new_with_config_def demo_start_def PERMIT_SHIFT_def MAX_PERMITS_def word_less_nat_alt
        unat_drop_bit_eq drop_bit_eq_div unsigned_minus_1_eq_mask mask_eq_exp_minus_1)
  then have "\<exists>addr n cfg. new_with_config addr n cfg = Done (wsys world_init) \<and> wissued world_init = unat n"
    by (intro exI [of _ 7] exI [of _ 1] exI [of _ config_default]) (simp add: world_init_def)
  then show "world_start world_init" by (simp add: world_start_def world_init_def)
qed

lemma world_checked_reachable: "world_reachable world_checked"
proof -
  let ?w1 = "do_spawn (ISize 0) 1 (do_take 1 world_init)"
  have "(demo_future (ISize 0) None, Fresh) \<in># threads ?w1" by code_simp
  moreover have "(demo_future (ISize 0) None, Start) \<in>#
      threads (start_poll (demo_future (ISize 0) None, Fresh) ?w1)" by code_simp
  ultimately show ?thesis
    unfolding world_checked_def by (intro world_runs world_init_reachable) (simp_all add: idle_def)
qed

lemma world_lost_reachable: "world_reachable world_lost"
proof -
  let ?w1 = "start_drop demo_permit world_checked"
  have "demo_permit \<in># wheld world_checked" "Dropping 1 \<in># releases ?w1"
    "(demo_future (ISize 0) (Some 0), Park) \<in># threads (run_drop 7 (Dropping 1) ?w1)"
    by code_simp+
  then show ?thesis
    unfolding world_lost_def by (intro world_runs world_checked_reachable) (simp_all add: idle_def)
qed

lemma world_parked_reachable: "world_reachable world_parked"
proof -
  have "(demo_future (ISize 0) (Some 0), Park) \<in># threads world_checked" by code_simp
  then show ?thesis
    unfolding world_parked_def by (intro world_runs world_checked_reachable) (simp_all add: idle_def)
qed

lemma world_doubled_reachable: "world_reachable world_doubled"
proof -
  let ?f = "demo_future (ISize 0) (Some 0)"
  let ?w1 = "start_drop demo_permit world_parked"
  let ?w2 = "run_drop 6 (Dropping 1) ?w1"
  let ?w3 = "start_poll (?f, Ret Pending) ?w2"
  let ?w4 = "start_close (run_thread 3 20 (?f, Look) ?w3)"
  let ?w5 = "run_drop 3 (Selected (wake_list_of [20]) 1 0) ?w4"
  have "demo_permit \<in># wheld world_parked" "Dropping 1 \<in># releases ?w1"
    "(?f, Ret Pending) \<in># threads ?w2" "(?f, Look) \<in># threads ?w3"
    "Selected (wake_list_of [20]) 1 0 \<in># releases ?w4" "Flagged \<in># closers ?w5"
    by code_simp+
  then show ?thesis
    unfolding world_doubled_def by (intro world_runs world_parked_reachable) (simp_all add: idle_def)
qed

lemma world_stranded_reachable: "world_reachable world_stranded"
proof -
  let ?w1 = "start_close world_checked"
  have "Flagged \<in># closers ?w1"
    "(demo_future (ISize 0) (Some 0), Park) \<in># threads (run_closer 4 Flagged ?w1)"
    by code_simp+
  then show ?thesis
    unfolding world_stranded_def by (intro world_runs world_checked_reachable) (simp_all add: idle_def)
qed

lemma world_looked_reachable: "world_reachable world_looked"
proof -
  have "demo_permit \<in># wheld world_parked" "Dropping 1 \<in># releases (start_drop demo_permit world_parked)"
    by code_simp+
  then show ?thesis unfolding world_looked_def by (intro world_runs world_parked_reachable)
qed

lemma world_missed_reachable: "world_reachable world_missed"
proof -
  let ?t = "(demo_future (ISize 0) (Some 0), Ret Pending)"
  have "?t \<in># threads world_looked" "looked_release \<in># releases (drop_task ?t world_looked)"
    "Stir 0 \<in># leavers (run_drop 5 looked_release (drop_task ?t world_looked))" by code_simp+
  then show ?thesis
    unfolding world_missed_def by (intro world_runs world_looked_reachable) (simp_all add: idle_def)
qed

lemma world_raced_reachable: "world_reachable world_raced"
proof -
  have "demo_permit \<in># wheld world_checked" "Dropping 1 \<in># releases (start_drop demo_permit world_checked)"
    by code_simp+
  then show ?thesis unfolding world_raced_def by (intro world_runs world_checked_reachable)
qed

lemma world_raced_leaving_reachable: "world_reachable world_raced_leaving"
proof -
  let ?w1 = "start_drop demo_permit world_parked" and ?t = "(demo_future (ISize 0) (Some 0), Ret Pending)"
  have "demo_permit \<in># wheld world_parked" "Dropping 1 \<in># releases ?w1" "?t \<in># threads (run_drop 3 (Dropping 1) ?w1)"
    "Recancel 0 \<in># leavers (drop_task ?t (run_drop 3 (Dropping 1) ?w1))" by code_simp+
  then show ?thesis
    unfolding world_raced_leaving_def by (intro world_runs world_parked_reachable) (simp_all add: idle_def)
qed

section \<open>What interleaving cannot break\<close>

text \<open>
  In the states \<open>world_reachable\<close> has, at most \<open>MAX_PERMITS\<close> permits have been issued. This is an assumption on
  the clients: the code does not enforce it.
\<close>

text \<open>C2: with polls, releases and \<open>close\<close> interleaved step by step by any number of threads, as long as the
  permits issued do not exceed \<open>MAX_PERMITS\<close> (the code does not enforce it), never
  more permits are held than were issued. As long as the semaphore is open too, the free permits, those
  held, those reserved for notified tasks, those a release under way still has to give and those
  withdrawn or lost (with a notified future that is dropped, to a waiter that is cancelled during a
  selection, or in a \<open>merge\<close> that wraps) are exactly the ones issued, and no release has panicked.\<close>

theorem interleaved_permit_safety:
  assumes "world_reachable_any w" "wissued w \<le> max_permits"
  shows "permits_in (wheld w) \<le> wissued w \<and>
    (is_closed (wsys w) \<or>
     free (wsys w) + permits_in (wheld w) + reserved (store (wsys w)) (tasks w) + flying (releases w) +
       wretired w = wissued w \<and> Panicked \<notin># releases w)"
proof -
  note I = world_invD [OF world_reachable_inv [OF world_reachable_any_bounded [OF assms]]]
  have "Panicked \<notin># releases w" if "\<not> is_closed (wsys w)" using I(3) [of Panicked] that by auto
  with I(6) show ?thesis by (auto simp: permits_ok_def world_balance_def)
qed

theorem interleaved_permit_safety_witness:
  "free (wsys world_parked) + permits_in (wheld world_parked) +
     reserved (store (wsys world_parked)) (tasks world_parked) + flying (releases world_parked) +
     wretired world_parked = 1"
proof -
  have i: "wissued world_parked = 1" "\<not> is_closed (wsys world_parked)" by code_simp+
  then have "wissued world_parked \<le> max_permits" by (simp add: max_permits_def)
  with interleaved_permit_safety [OF world_reachable_reachable_any [OF world_parked_reachable]] i show ?thesis by simp
qed

text \<open>C5: no waiter is lost, under any interleaving of the single steps of all operations (as long as at most
  \<open>MAX_PERMITS\<close> permits are issued): the waiter of a task that has not finished and still waits belongs to that
  task alone, carries its request and is in the queue of its priority (while a release selects, in what
  the selection has left of that queue); and if the semaphore is closed, a call of \<open>close\<close> has set the flag and has
  not yet returned, so the waiter is still to be cancelled.\<close>

theorem waiting_task_is_queued:
  assumes "world_reachable_any w" "wissued w \<le> max_permits" "(f, pc) \<in># threads w" "\<not> finished pc"
    and "f_handle f = Some v" "is_waiting (store (wsys w) v)"
  shows "v \<in> set (queue_of (priority_queues (view w)) (f_priority f)) \<and>
    permits_needed (store (wsys w) v) = f_needed f \<and> priority (store (wsys w) v) = f_priority f \<and>
    Multiset.count (handles (tasks w)) v = 1 \<and> (is_closed (wsys w) \<longrightarrow> (\<exists>c \<in># closers w. c \<noteq> Shut))"
proof (intro conjI impI)
  note reach = world_reachable_any_bounded [OF assms(1,2)]
  note I = world_invD [OF world_reachable_inv [OF reach]]
  have t: "(f, False) \<in># tasks w" using assms(3,4) by (force simp: tasks_def task_of_def)
  then have pend: "v \<in># pending_handles (tasks w)" using assms(5) by (auto simp: in_pending_handles_iff)
  with core_invD(3) [OF I(1)] assms(6) have q: "v \<in> queued (view w)" by (auto simp: waits_ok_def)
  from core_invD(4) [OF I(1) t] assms(5)
  show n: "permits_needed (store (wsys w) v) = f_needed f" "priority (store (wsys w) v) = f_priority f"
    by (simp_all add: task_ok_def)
  from core_invD(1) [OF I(1)] q n(2) queued_okD(6)
  show "v \<in> set (queue_of (priority_queues (view w)) (f_priority f))"
    by (fastforce simp: wait_queue_inv_def queued_def)
  have "0 < Multiset.count (handles (tasks w)) v"
    using pending_in_handles [OF pend] by (simp only: count_greater_zero_iff)
  moreover have "Multiset.count (handles (tasks w)) v \<le> 1"
    using core_invD(5) [OF I(1)] by (simp add: unique_handles_def)
  ultimately show "Multiset.count (handles (tasks w)) v = 1" by linarith
  show "\<exists>c \<in># closers w. c \<noteq> Shut" if "is_closed (wsys w)"
  proof (rule ccontr)
    assume "\<not> ?thesis"
    then have "shut (closers w)" by (auto simp: shut_def)
    with I(5) that have "queued (waiters (wsys w)) = {}" "\<not> locked w" by (simp_all add: closing_ok_def)
    moreover from this(2) have "choosing (releases w) = {#}"
      using lock_holder(1) [OF world_reachable_inv [OF reach]] by simp
    ultimately show False using q by (simp add: view_free)
  qed
qed

theorem waiting_task_is_queued_witness:
  "0 \<in> set (queue_of (priority_queues (view (start_close world_parked))) (ISize 0)) \<and>
   (\<exists>c \<in># closers (start_close world_parked). c \<noteq> Shut)"
proof -
  let ?w = "start_close world_parked"
  have w: "(demo_future (ISize 0) (Some 0), Ret Pending) \<in># threads ?w" "is_waiting (store (wsys ?w) 0)"
    "is_closed (wsys ?w)" "wissued ?w = 1" by code_simp+
  then have "wissued ?w \<le> max_permits" by (simp add: max_permits_def)
  moreover have "world_reachable_any ?w"
    by (intro world_reachable_reachable_any world_runs world_parked_reachable)
  ultimately show ?thesis
    using waiting_task_is_queued [OF _ _ w(1) _ _ w(2)] w(3) by (simp add: demo_future_def)
qed

text \<open>C7: closing is complete even when it races with polls that queue: once the semaphore is closed and
  every call of \<open>close\<close> has returned, the queue is empty, no poll is about to queue a waiter, and no
  task that has not finished still waits, so each of them gets an error when it is next polled.\<close>

theorem close_leaves_no_waiter:
  assumes "world_reachable w" "is_closed (wsys w)" "shut (closers w)" "(f, pc) \<in># threads w"
  shows "queued (waiters (wsys w)) = {} \<and> pc \<noteq> Inside \<and>
    (finished pc \<or> (case f_handle f of None \<Rightarrow> True | Some v \<Rightarrow> \<not> is_waiting (store (wsys w) v)))"
proof -
  note I = world_invD [OF world_reachable_inv [OF assms(1)]]
  have q: "queued (waiters (wsys w)) = {}" "\<not> locked w" using I(5) assms(2,3) by (simp_all add: closing_ok_def)
  have L: "choosing (releases w) = {#}" "inside (threads w) = 0"
    using lock_holder(1) [OF world_reachable_inv [OF assms(1)]] q(2) by simp_all
  then have "pc \<noteq> Inside" using assms(4) by (auto simp: inside_def)
  moreover have "\<not> is_waiting (store (wsys w) v)" if "f_handle f = Some v" "\<not> finished pc" for v
  proof -
    have "(f, False) \<in># tasks w" using assms(4) that(2) by (force simp: tasks_def task_of_def)
    then have "v \<in># pending_handles (tasks w)" using that(1) by (auto simp: in_pending_handles_iff)
    with core_invD(3) [OF I(1)] q(1) L(1) show ?thesis by (auto simp: waits_ok_def view_free)
  qed
  ultimately show ?thesis using q(1) by (auto split: option.split)
qed

theorem close_leaves_no_waiter_witness:
  "\<not> is_waiting (store (wsys (run_closer 4 Flagged (start_close world_parked))) 0)"
proof -
  let ?w = "run_closer 4 Flagged (start_close world_parked)"
  have "is_closed (wsys ?w)" "shut (closers ?w)" "(demo_future (ISize 0) (Some 0), Ret Pending) \<in># threads ?w"
    "Flagged \<in># closers (start_close world_parked)"
    by code_simp+
  with close_leaves_no_waiter [of ?w "demo_future (ISize 0) (Some 0)" "Ret Pending"] show ?thesis
    by (simp add: world_runs world_parked_reachable demo_future_def)
qed

text \<open>C13: a task that sleeps can be woken: whenever a poll has returned \<open>Pending\<close>, the task has a
  waiter, and while that waiter still waits it is in the queue of its priority (while a release selects,
  in what the selection leaves of that queue) and holds a waker.\<close>

theorem sleeping_task_keeps_waker:
  assumes "world_reachable w" "(f, Ret Pending) \<in># threads w"
  shows "\<exists>v. f_handle f = Some v \<and> (\<not> is_waiting (store (wsys w) v) \<or>
    waker (store (wsys w) v) \<noteq> None \<and>
    v \<in> set (queue_of (priority_queues (view w)) (f_priority f)))"
proof -
  note I = world_invD [OF world_reachable_inv [OF assms(1)]]
  from I(2) [OF assms(2)] obtain v where v: "f_handle f = Some v"
    "is_waiting (store (wsys w) v) \<longrightarrow> waker (store (wsys w) v) \<noteq> None"
    by (auto simp: thread_ok_def handle_ok_def)
  have t: "(f, False) \<in># tasks w" using assms(2) by (force simp: tasks_def task_of_def)
  have "v \<in> set (queue_of (priority_queues (view w)) (f_priority f))" if "is_waiting (store (wsys w) v)"
  proof -
    have "v \<in># pending_handles (tasks w)" using t v(1) by (auto simp: in_pending_handles_iff)
    with core_invD(3) [OF I(1)] that have "v \<in> queued (view w)" by (auto simp: waits_ok_def)
    moreover have "priority (store (wsys w) v) = f_priority f"
      using core_invD(4) [OF I(1) t] v(1) by (simp add: task_ok_def)
    ultimately show ?thesis
      using core_invD(1) [OF I(1)] queued_okD(6) by (fastforce simp: wait_queue_inv_def queued_def)
  qed
  with v show ?thesis by blast
qed

theorem sleeping_task_keeps_waker_witness:
  "waker (store (wsys world_parked) 0) \<noteq> None"
proof -
  have "(demo_future (ISize 0) (Some 0), Ret Pending) \<in># threads world_parked"
    "is_waiting (store (wsys world_parked) 0)" by code_simp+
  with sleeping_task_keeps_waker [OF world_parked_reachable this(1)] show ?thesis by (simp add: demo_future_def)
qed

text \<open>C22: a parked task is woken: while a task sleeps on a waiter that waits, whatever the other threads do and in
  whatever order, once nothing is under way any more and the waiter no longer waits (a release has notified it
  or \<open>close\<close> has cancelled it), the waker the task had stored has been woken since; the only exceptions are a
  notified waiter on a semaphore that has been closed and a request for no permits.\<close>

theorem parked_task_is_woken:
  assumes "world_reachable w" "asleep (f, Ret Pending) w w'" "settled w'" "f_handle f = Some v"
    and "is_waiting (store (wsys w) v)" "waker (store (wsys w) v) = Some k" "\<not> is_waiting (store (wsys w') v)"
  shows "k \<in> set (drop (length (woken (wsys w))) (woken (wsys w'))) \<or>
    is_notified (store (wsys w') v) \<and> (is_closed (wsys w') \<or> f_needed f = 0)"
  by (rule sleeper_woken [OF assms])

theorem parked_task_is_woken_witness:
  "20 \<in> set (woken (wsys (run_drop 12 (Dropping 1) (start_drop demo_permit world_parked))))"
    (is "_ \<in> set (woken (wsys ?w))")
proof -
  let ?f = "demo_future (ISize 0) (Some 0)"
  have t: "(?f, Ret Pending) \<in># threads world_parked" "demo_permit \<in># wheld world_parked"
    "Dropping 1 \<in># releases (start_drop demo_permit world_parked)" by code_simp+
  have "tick world_parked (start_drop demo_permit world_parked)"
    unfolding start_drop_def using t(2) by (auto simp: tick_def intro!: call.drop_permit)
  from asleep.tick [OF asleep.here this] t have "asleep (?f, Ret Pending) world_parked ?w"
    by (intro asleep_run_drop) (simp_all add: start_drop_def)
  moreover have "settled ?w" unfolding settled_def by code_simp
  moreover have "is_waiting (store (wsys world_parked) 0)" "waker (store (wsys world_parked) 0) = Some 20"
    "\<not> is_waiting (store (wsys ?w) 0)" "\<not> is_closed (wsys ?w)" "woken (wsys world_parked) = []" by code_simp+
  ultimately show ?thesis
    using parked_task_is_woken [OF world_parked_reachable, of ?f ?w 0 20] by (simp add: demo_future_def)
qed

text \<open>C17: closing is irreversible and final under every interleaving: once the flag is set no step of any thread
  clears it, and none hands out a permit, not even one of an operation that has looked at the word or at its
  waiter before.\<close>

theorem closing_is_final:
  assumes "world_reachable w" "is_closed (wsys w)" "tick w w'"
  shows "is_closed (wsys w') \<and> permits_in (wheld w') \<le> permits_in (wheld w)"
  using tick_closed [OF assms(3) world_reachable_inv [OF assms(1)] assms(2)] by simp

theorem closing_is_final_witness:
  "is_closed (wsys (do_spawn (ISize 0) 1 world_stranded)) \<and>
   permits_in (wheld (do_spawn (ISize 0) 1 world_stranded)) \<le> 1"
proof -
  have "tick world_stranded (do_spawn (ISize 0) 1 world_stranded)"
    by (simp add: tick_def do_spawn_def call.acquire)
  moreover have "is_closed (wsys world_stranded)" "permits_in (wheld world_stranded) = 1" by code_simp+
  ultimately show ?thesis using closing_is_final [OF world_stranded_reachable] by fastforce
qed

text \<open>C18: no error is spurious: if a poll has returned an error, or a non-blocking acquisition has reported that
  the semaphore is closed, then it is closed, whatever came between what the operation saw and its return.\<close>

theorem error_means_closed:
  assumes "world_reachable w"
    and "(f, Ret (Ready (Inl e))) \<in># threads w \<or> Obtained (Inl Closed) \<in># attempts w"
  shows "is_closed (wsys w)"
  using assms(2) world_invD(2) [OF world_reachable_inv [OF assms(1)], of "(f, Ret (Ready (Inl e)))"]
    world_reachable_attempts [OF assms(1), of "Obtained (Inl Closed)"]
  by (auto simp: thread_ok_def)

theorem error_means_closed_witness:
  "is_closed (wsys (run_thread 1 20 (demo_future (ISize 0) (Some 0), Look)
     (start_poll (demo_future (ISize 0) (Some 0), Ret Pending) world_stranded)))"
    (is "is_closed (wsys ?w)")
proof (rule error_means_closed)
  let ?f = "demo_future (ISize 0) (Some 0)"
  have "(?f, Ret Pending) \<in># threads world_stranded"
    "(?f, Look) \<in># threads (start_poll (?f, Ret Pending) world_stranded)" by code_simp+
  then show "world_reachable ?w" by (intro world_runs world_stranded_reachable) (simp_all add: idle_def)
  have "(?f, Ret (Ready (Inl acquire_error_closed))) \<in># threads ?w" by code_simp
  then show "(?f, Ret (Ready (Inl acquire_error_closed))) \<in># threads ?w \<or> Obtained (Inl Closed) \<in># attempts ?w" by blast
qed

text \<open>C19: under every interleaving each priority's queue holds its waiters in arrival order if the
  configuration resolves that priority to FIFO and in reverse arrival order if to LIFO (waiters are
  numbered as they arrive), every non-empty queue is in the heap of active priorities and the counter is the
  number of queued waiters; while a release selects, this holds of the queue as the selection has left it so
  far.\<close>

theorem queues_keep_arrival_order:
  assumes "world_reachable w"
  shows "sorted_wrt (case resolve_strategy (config (view w)) p of Fifo \<Rightarrow> (<) | Lifo \<Rightarrow> (>))
      (queue_of (priority_queues (view w)) p) \<and>
    (queue_of (priority_queues (view w)) p \<noteq> [] \<longrightarrow> p \<in> set (active_priorities (view w))) \<and>
    total_waiters (view w) = length (all_waiters (priority_queues (view w)))"
proof (intro conjI)
  have eq: "arrival_order st = (case st of Fifo \<Rightarrow> (<) | Lifo \<Rightarrow> (>))" for st
    by (auto simp: arrival_order_def fun_eq_iff split: QueueStrategy.split)
  show "sorted_wrt (case resolve_strategy (config (view w)) p of Fifo \<Rightarrow> (<) | Lifo \<Rightarrow> (>))
      (queue_of (priority_queues (view w)) p)"
    using world_reachable_ordered [OF assms] by (simp add: ordered_def eq)
  show "queue_of (priority_queues (view w)) p \<noteq> [] \<longrightarrow> p \<in> set (active_priorities (view w))"
    and "total_waiters (view w) = length (all_waiters (priority_queues (view w)))"
    using core_invD(1) [OF world_invD(1) [OF world_reachable_inv [OF assms]]] by (simp_all add: wait_queue_inv_def)
qed

theorem queues_keep_arrival_order_witness:
  "sorted_wrt (<) (queue_of (priority_queues (view world_looked)) (ISize 0)) \<and>
   queue_of (priority_queues (view world_looked)) (ISize 0) = [0]"
proof -
  have r: "releases world_looked = {#looked_release#}" by code_simp
  have "queue_of (priority_queues (case looked_release of Choosing rem pk \<Rightarrow> pick_view pk)) (ISize 0) = [0]"
    "resolve_strategy (config (case looked_release of Choosing rem pk \<Rightarrow> pick_view pk)) (ISize 0) = Fifo"
    "(case looked_release of Choosing rem pk \<Rightarrow> True | _ \<Rightarrow> False)" by code_simp+
  moreover from this(3) obtain rem pk where l: "looked_release = Choosing rem pk" by (auto split: release.splits)
  have "view world_looked = pick_view pk" by (simp add: view_def r thread_sums l)
  then have "view world_looked = (case looked_release of Choosing rem pk \<Rightarrow> pick_view pk)"
    by (simp only: l release.case)
  ultimately show ?thesis
    using queues_keep_arrival_order [OF world_looked_reachable, of "ISize 0"] by simp
qed

text \<open>C9: every operation ends: in whatever order the threads take their steps, the operations under way
  take at most 7 steps for each poll, 4 for each drop of a future, and for each release and each \<open>close\<close> a number fixed
  by the priorities in the heap, the waiters in the queue and the polls that may still queue one, however
  many steps of retry loops come in between; and there is no deadlock: as long as an operation or a retry
  loop is under way some step is possible.\<close>

theorem operations_terminate:
  assumes "world_reachable w" "((retry\<^sup>*\<^sup>* OO move) ^^ n) w w'"
  shows "n \<le> 7 * size (threads w) + (world_bound w + 4) * size (releases w) +
      world_bound w * size (closers w) + 4 * size (leavers w) \<and>
    (settled w' \<or> (\<exists>w''. move w' w'' \<or> retry w' w''))"
proof -
  note inv = world_reachable_inv [OF assms(1)]
  have "world_inv w' \<and> n + world_rank w' \<le> world_rank w"
    using works_rank [OF assms(2) [folded work_def] inv] .
  with stuck_settled [of w'] world_rank_bound [OF inv] show ?thesis by force
qed

theorem operations_terminate_witness:
  "settled world_parked \<or> (\<exists>w''. move world_parked w'' \<or> retry world_parked w'')"
  using operations_terminate [OF world_parked_reachable, of 0 world_parked] by simp

text \<open>C8: every step of the coarse system, whose steps are whole operations, is a run of the interleaved
  one: from a settled state that agrees with it on the semaphore, the tasks, the permits held and those
  issued, the threads can take single steps to a settled state that agrees with the result.\<close>

theorem whole_operations_are_runs:
  assumes "reachable c" "step c c'" "implements w c"
  shows "\<exists>w'. tick\<^sup>*\<^sup>* w w' \<and> implements w' c'"
  using simulate [OF assms(2) reachable_inv [OF assms(1)] assms(3)] .

theorem whole_operations_are_runs_witness:
  "\<exists>w'. tick\<^sup>*\<^sup>* world_init w' \<and> implements w' (do_try_acquire_many 1 demo_start)"
proof (rule whole_operations_are_runs)
  show "reachable demo_start" by (rule demo_start_reachable)
  show "step demo_start (do_try_acquire_many 1 demo_start)" by (rule do_step(4)) simp
  show "implements world_init demo_start"
    by (simp add: implements_def settled_def world_init_def demo_start_def tasks_def shut_def)
qed

section \<open>What interleaving does break\<close>

text \<open>C14: a wakeup is lost when the release of a permit, or \<open>close\<close>, falls between a poll's look at its
  waiter and its storing of the waker: the release (or \<open>close\<close>) finds no waker to wake and ends, the poll then
  stores the waker and returns \<open>Pending\<close>. The task sleeps for good although it was notified and the only
  permit is reserved for it (or although it was cancelled): nothing is under way any more and nobody
  was woken.\<close>

theorem lost_wakeup:
  "world_reachable world_lost \<and> settled world_lost \<and>
   threads world_lost = {#(demo_future (ISize 0) (Some 0), Ret Pending)#} \<and>
   is_notified (store (wsys world_lost) 0) \<and> reserved (store (wsys world_lost)) (tasks world_lost) = 1 \<and>
   free (wsys world_lost) = 0 \<and> wheld world_lost = {#} \<and> woken (wsys world_lost) = [] \<and>
   world_reachable world_stranded \<and> settled world_stranded \<and>
   threads world_stranded = {#(demo_future (ISize 0) (Some 0), Ret Pending)#} \<and>
   is_cancelled (store (wsys world_stranded) 0) \<and> woken (wsys world_stranded) = []"
proof (intro conjI)
  show "settled world_lost" "settled world_stranded"
    unfolding settled_def by code_simp+
  show "threads world_lost = {#(demo_future (ISize 0) (Some 0), Ret Pending)#}"
    "threads world_stranded = {#(demo_future (ISize 0) (Some 0), Ret Pending)#}" by code_simp+
  show "reserved (store (wsys world_lost)) (tasks world_lost) = 1" by code_simp
  show "is_notified (store (wsys world_lost) 0)" "free (wsys world_lost) = 0" "wheld world_lost = {#}"
    "woken (wsys world_lost) = []" "is_cancelled (store (wsys world_stranded) 0)" "woken (wsys world_stranded) = []"
    by code_simp+
qed (rule world_lost_reachable world_stranded_reachable)+

text \<open>What the single steps may do to a waiter that is not theirs.\<close>

lemma pick_step_store:
  "pick_step pk \<sigma> = Some (pk', \<sigma>') \<Longrightarrow> pk_at pk \<noteq> Take v \<Longrightarrow> \<not> is_waiting (\<sigma> v) \<Longrightarrow> \<sigma>' v = \<sigma> v"
  by (auto simp: pick_step_def pick_notify_def pick_take_def try_notify_def compare_exchange_def is_waiting_def Let_def
      split: point.splits list.splits option.splits prod.splits if_splits)

definition takes_waker :: "wid \<Rightarrow> release \<Rightarrow> bool" where
  "takes_waker v r \<longleftrightarrow> (case r of Choosing rem pk \<Rightarrow> pk_at pk = Take v | _ \<Rightarrow> False)"

lemma move_notified:
  assumes "move w w'" and inv: "world_inv w" and y: "(f, Ret Pending) \<in># threads w" "f_handle f = Some v"
    and n: "is_notified (store (wsys w) v)" and free: "\<forall>r \<in># releases w. \<not> takes_waker v r"
  shows "store (wsys w') v = store (wsys w) v"
  using assms(1)
proof cases
  case (poll g pc T cas_ok k pc' g' l' s')
  from poll_other [OF inv poll(2,3) y] poll(1) show ?thesis by simp
next
  case (release r R chk r' l' s')
  from move_release_case [OF inv release(2,3)] have "store s' v = store (wsys w) v"
  proof cases
    case (pick pk pk' \<sigma> rem)
    have "pk_at pk \<noteq> Take v" using free release(2) pick(1) by (auto simp: takes_waker_def)
    with pick_step_store [OF pick(6)] pick(4) n show ?thesis by (simp add: waiter_tests)
  qed (simp_all add: release_quiet_def)
  then show ?thesis using release(1) by simp
next
  case (close c C h c' l' s')
  from move_close_keeps [OF inv close(2-4)] have "cancelled_at (store (wsys w) v) (store s' v)"
    by (simp add: close_keeps_def)
  with n close(1) show ?thesis by (auto simp: cancelled_at_def waiter_tests)
next
  case (leave x L x' l' s')
  from leaver_other [OF inv leave(2,3) y] leave(1) show ?thesis by simp
qed

text \<open>Nobody repairs a lost wakeup: once a sleeping task's waiter is notified, and the release that
  notified it is not just about to take its waker, no step of any other thread touches the waiter, so its
  waker stays in the cell, unused, until the task is polled for some other reason or is dropped.\<close>

lemma notified_sleeper_not_woken:
  assumes "world_reachable w" "(f, Ret Pending) \<in># threads w" "f_handle f = Some v"
    and "is_notified (store (wsys w) v)" "\<forall>r \<in># releases w. \<not> takes_waker v r"
    and "tick w w'" "(f, Ret Pending) \<in># threads w'"
  shows "store (wsys w') v = store (wsys w) v"
  using assms move_notified [OF _ world_reachable_inv] call_other [OF _ world_reachable_inv] retry_store
  by (auto simp: tick_def)

lemma notified_sleeper_not_woken_witness:
  "waker (store (wsys (start_close world_lost)) 0) = Some 20"
proof -
  have "tick world_lost (start_close world_lost)" by (simp add: tick_def start_close_def call.close)
  moreover have "(demo_future (ISize 0) (Some 0), Ret Pending) \<in># threads world_lost"
    "(demo_future (ISize 0) (Some 0), Ret Pending) \<in># threads (start_close world_lost)"
    "is_notified (store (wsys world_lost) 0)" "waker (store (wsys world_lost) 0) = Some 20"
    "releases world_lost = {#Released#}" by code_simp+
  moreover from this(5) have "\<forall>r \<in># releases world_lost. \<not> takes_waker 0 r" by (simp add: takes_waker_def)
  ultimately show ?thesis
    using notified_sleeper_not_woken [OF world_lost_reachable, of "demo_future (ISize 0) (Some 0)" 0]
    by (simp add: demo_future_def)
qed

text \<open>The accesses to a waker cell that the mutex protects exclude each other.\<close>

lemma locked_accesses_exclude:
  assumes "world_reachable w"
  shows "size (filter_mset (takes_waker v) (releases w)) + size (filter_mset (rouses v) (closers w)) \<le>
    (if locked w then 1 else 0)"
proof -
  have a: "size (filter_mset (takes_waker v) R) \<le> size (choosing R)" for R
    by (induction R) (auto simp: thread_sums takes_waker_def split: release.splits)
  have b: "size (filter_mset (rouses v) C) \<le> busy_closers C" for C
    by (induction C) (auto simp: thread_sums rouses_def busy_def split: closing.splits)
  from world_invD(4) [OF world_reachable_inv [OF assms]] add_mono [OF a [of "releases w"] b [of "closers w"]]
  show ?thesis by linarith
qed

text \<open>C16: the accesses to a waker cell are not all ordered by the mutex: there are reachable states in which a
  selection is about to take a waker while, with no lock in between, a poll is about to store one in the same
  cell, and in which it is about to take it while the drop of the same future is about to wake by reference.
  Both steps are enabled: two unordered accesses to one \<open>UnsafeCell\<close>, of which one writes.\<close>

theorem waker_cell_data_race:
  "world_reachable world_raced \<and>
   (demo_future (ISize 0) (Some 0), Park) \<in># threads world_raced \<and>
   poll_tick True 20 Park (demo_future (ISize 0) (Some 0)) (locked world_raced, wsys world_raced) \<noteq> None \<and>
   raced_release \<in># releases world_raced \<and> takes_waker 0 raced_release \<and>
   release_tick True raced_release (locked world_raced, wsys world_raced) \<noteq> None \<and>
   world_reachable world_raced_leaving \<and> Stir 0 \<in># leavers world_raced_leaving \<and>
   leave_tick (Stir 0) (locked world_raced_leaving, wsys world_raced_leaving) \<noteq> None \<and>
   raced_release \<in># releases world_raced_leaving \<and>
   release_tick True raced_release (locked world_raced_leaving, wsys world_raced_leaving) \<noteq> None"
proof (intro conjI)
  show "(demo_future (ISize 0) (Some 0), Park) \<in># threads world_raced" "raced_release \<in># releases world_raced"
    "poll_tick True 20 Park (demo_future (ISize 0) (Some 0)) (locked world_raced, wsys world_raced) \<noteq> None"
    "release_tick True raced_release (locked world_raced, wsys world_raced) \<noteq> None"
    "Stir 0 \<in># leavers world_raced_leaving"
    "leave_tick (Stir 0) (locked world_raced_leaving, wsys world_raced_leaving) \<noteq> None"
    "raced_release \<in># releases world_raced_leaving" "takes_waker 0 raced_release"
    "release_tick True raced_release (locked world_raced_leaving, wsys world_raced_leaving) \<noteq> None"
    by code_simp+
qed (rule world_raced_reachable world_raced_leaving_reachable)+

text \<open>C15: a permit is counted twice when \<open>close\<close> falls between the selection of a waiter and the check
  of the flag: the task has already taken its permit, and the release puts the same permit back into the
  word because it finds the semaphore closed. One permit was issued; one is held and one is free.\<close>

theorem close_counts_permit_twice:
  "world_reachable world_doubled \<and> settled world_doubled \<and> wissued world_doubled = 1 \<and>
   permits_in (wheld world_doubled) = 1 \<and> available_permits (wsys world_doubled) = 1 \<and>
   is_closed (wsys world_doubled)"
proof (intro conjI)
  show "settled world_doubled" unfolding settled_def by code_simp
  show "wissued world_doubled = 1" "permits_in (wheld world_doubled) = 1"
    "available_permits (wsys world_doubled) = 1" "is_closed (wsys world_doubled)"
    by code_simp+
qed (rule world_doubled_reachable)

text \<open>C40: a permit is lost when a future is dropped between the look of a selection at its waiter and the
  exchange that notifies it: the exchange fails, but the permit has been counted as assigned to the waiter.
  The semaphore is open, nothing is under way, no task is left, nobody holds a permit, and the only permit
  issued is not free either.\<close>

theorem selection_loses_permit:
  "world_reachable world_missed \<and> settled world_missed \<and> \<not> is_closed (wsys world_missed) \<and>
   wissued world_missed = 1 \<and> threads world_missed = {#} \<and> wheld world_missed = {#} \<and>
   flying (releases world_missed) = 0 \<and> free (wsys world_missed) = 0"
proof (intro conjI)
  show "settled world_missed" unfolding settled_def by code_simp
  show "\<not> is_closed (wsys world_missed)" "wissued world_missed = 1" "threads world_missed = {#}"
    "wheld world_missed = {#}" "flying (releases world_missed) = 0" "free (wsys world_missed) = 0"
    by code_simp+
qed (rule world_missed_reachable)

end
