(* ===== verification/Debug_Output.thy ===== *)
theory Debug_Output
  imports Acquire_Owned
begin

text \<open>
  The hand-written \<open>Debug\<close> implementations, as the text that \<open>{:?}\<close> gives: the
  name of the type and the fields in order, the way \<open>debug_struct\<close> of the standard library prints
  them. Formatting reads the object and changes nothing.
\<close>

section \<open>Printing\<close>

definition digit :: "nat \<Rightarrow> char" where
  "digit n = char_of (48 + n)"

function decimal :: "nat \<Rightarrow> string" where
  "decimal n = (if n < 10 then [digit n] else decimal (n div 10) @ [digit (n mod 10)])"
  by pat_completeness auto
termination by (relation "measure id") auto

declare decimal.simps [simp del]

definition signed_decimal :: "int \<Rightarrow> string" where
  "signed_decimal i = (if i < 0 then ''-'' @ decimal (nat (- i)) else decimal (nat i))"

definition show_bool :: "bool \<Rightarrow> string" where
  "show_bool b = (if b then ''true'' else ''false'')"

fun debug_fields :: "(string \<times> string) list \<Rightarrow> string" where
  "debug_fields [] = ''''"
| "debug_fields [(n, v)] = n @ '': '' @ v"
| "debug_fields ((n, v) # f # fs) = n @ '': '' @ v @ '', '' @ debug_fields (f # fs)"

definition debug_struct :: "string \<Rightarrow> (string \<times> string) list \<Rightarrow> string" where
  "debug_struct name fs = name @ '' { '' @ debug_fields fs @ '' }''"

section \<open>The implementations\<close>

definition debug_waiter_state :: "waiter_state \<Rightarrow> string" where
  "debug_waiter_state w =
     (let has_waker = has_waker_under_lock (waker w)
      in debug_struct ''WaiterState''
        [(''permits_needed'', decimal (unat (permits_needed w))),
         (''priority'', signed_decimal (sint (isize_word (priority w)))),
         (''state'', decimal (unat (state w))),
         (''has_waker'', show_bool has_waker)])"

definition debug_wait_queue :: "wait_queue \<Rightarrow> string" where
  "debug_wait_queue q =
     debug_struct ''WaitQueue''
       [(''total_waiters'', decimal (total_waiters q)),
        (''active_priorities'', decimal (length (active_priorities q))),
        (''priority_queues'', decimal (length (priority_queues q))),
        (''closed'', show_bool (closed q))]"

definition debug_acquire :: "acquire_future \<Rightarrow> string" where
  "debug_acquire f =
     debug_struct ''Acquire''
       [(''permits_needed'', decimal (unat (f_needed f))),
        (''priority'', signed_decimal (sint (isize_word (f_priority f)))),
        (''queued'', show_bool (f_handle f \<noteq> None))]"

definition debug_acquire_owned :: "acquire_owned_future \<Rightarrow> string" where
  "debug_acquire_owned f =
     debug_struct ''AcquireOwned''
       [(''permits_needed'', decimal (unat (fo_needed f))),
        (''priority'', signed_decimal (sint (isize_word (fo_priority f)))),
        (''queued'', show_bool (fo_handle f \<noteq> None))]"

definition debug_permit :: "permit \<Rightarrow> string" where
  "debug_permit p = debug_struct ''RankedSemaphorePermit'' [(''permits'', decimal (unat (p_permits p)))]"

definition debug_owned_permit :: "owned_permit \<Rightarrow> string" where
  "debug_owned_permit p =
     debug_struct ''OwnedRankedSemaphorePermit'' [(''permits'', decimal (unat (o_permits p)))]"

section \<open>What the text says\<close>

text \<open>A printed number can be read back.\<close>

definition read_decimal :: "string \<Rightarrow> nat" where
  "read_decimal ds = foldl (\<lambda>n d. 10 * n + (of_char d - 48)) 0 ds"

lemma read_decimal_decimal: "read_decimal (decimal n) = n"
proof (induction n rule: decimal.induct)
  case (1 n)
  have digit: "of_char (digit m) - 48 = m" if "m < 10" for m :: nat
    using that by (simp add: digit_def take_bit_nat_eq_self)
  show ?case
  proof (cases "n < 10")
    case True
    then show ?thesis using digit [OF True] by (simp add: read_decimal_def decimal.simps [of n])
  next
    case False
    with 1 have "foldl (\<lambda>n d. 10 * n + (of_char d - 48)) 0 (decimal (n div 10)) = n div 10"
      by (simp add: read_decimal_def)
    then show ?thesis
      using False digit [of "n mod 10"] by (simp add: read_decimal_def decimal.simps [of n])
  qed
qed

lemma decimal_eq_iff [simp]: "decimal m = decimal n \<longleftrightarrow> m = n"
  by (metis read_decimal_decimal)

text \<open>Two permits print alike exactly if they hold the same count.\<close>

lemma debug_permit_eq_iff: "debug_permit p = debug_permit q \<longleftrightarrow> p_permits p = p_permits q"
  by (simp add: debug_permit_def debug_struct_def word_unat_eq_iff)

end
