(* ===== verification/Conformance.thy ===== *)
theory Conformance
  imports Acquire_Owned
begin

text \<open>
  The crate's own tests, run on the model: all unit tests of \<open>config.rs\<close>, and the integration tests
  that need no runtime. A test is a boolean that is true when it passes; \<open>unwrap\<close> on an error and a
  panic make it fail, and a test that expects a panic fails without one.
\<close>

section \<open>Unit tests of the configuration\<close>

definition test_exact_match :: bool where
  "test_exact_match \<longleftrightarrow>
     (let config = exact (default_strategy config_new Fifo) (ISize 5) Lifo
      in resolve_strategy config (ISize 5) = Lifo \<and> resolve_strategy config (ISize 4) = Fifo \<and>
         resolve_strategy config (ISize 6) = Fifo)"

definition test_range_match :: bool where
  "test_range_match \<longleftrightarrow>
     (let config = range_rule (default_strategy config_new Fifo) (ISize 1) (ISize 10) Lifo
      in resolve_strategy config (ISize 0) = Fifo \<and> resolve_strategy config (ISize 1) = Lifo \<and>
         resolve_strategy config (ISize 5) = Lifo \<and> resolve_strategy config (ISize 10) = Lifo \<and>
         resolve_strategy config (ISize 11) = Fifo)"

definition test_greater_or_equal :: bool where
  "test_greater_or_equal \<longleftrightarrow>
     (let config = greater_or_equal (default_strategy config_new Fifo) (ISize 5) Lifo
      in resolve_strategy config (ISize 4) = Fifo \<and> resolve_strategy config (ISize 5) = Lifo \<and>
         resolve_strategy config (ISize 10) = Lifo)"

definition test_greater_than :: bool where
  "test_greater_than \<longleftrightarrow>
     (let config = greater_than (default_strategy config_new Fifo) (ISize 5) Lifo
      in resolve_strategy config (ISize 5) = Fifo \<and> resolve_strategy config (ISize 6) = Lifo \<and>
         resolve_strategy config (ISize 10) = Lifo)"

definition test_less_or_equal :: bool where
  "test_less_or_equal \<longleftrightarrow>
     (let config = less_or_equal (default_strategy config_new Lifo) (ISize 0) Fifo
      in resolve_strategy config (ISize (- 5)) = Fifo \<and> resolve_strategy config (ISize 0) = Fifo \<and>
         resolve_strategy config (ISize 1) = Lifo)"

definition test_less_than :: bool where
  "test_less_than \<longleftrightarrow>
     (let config = less_than (default_strategy config_new Fifo) (ISize 0) Lifo
      in resolve_strategy config (ISize (- 5)) = Lifo \<and> resolve_strategy config (ISize 0) = Fifo \<and>
         resolve_strategy config (ISize 1) = Fifo)"

definition test_priority_order :: bool where
  "test_priority_order \<longleftrightarrow>
     (let config = exact (greater_or_equal (default_strategy config_new Fifo) (ISize 5) Lifo) (ISize 10) Fifo
      in resolve_strategy config (ISize 5) = Lifo \<and> resolve_strategy config (ISize 8) = Lifo \<and>
         resolve_strategy config (ISize 10) = Fifo)"

definition test_multiple_thresholds :: bool where
  "test_multiple_thresholds \<longleftrightarrow>
     (let config = range_rule (range_rule (default_strategy config_new Fifo) (ISize 5) isize_MAX Lifo)
            (ISize 10) isize_MAX Fifo
      in resolve_strategy config (ISize 4) = Fifo \<and> resolve_strategy config (ISize 7) = Lifo \<and>
         resolve_strategy config (ISize 15) = Lifo)"

lemma config_tests_pass:
  "test_exact_match" "test_range_match" "test_greater_or_equal" "test_greater_than"
  "test_less_or_equal" "test_less_than" "test_priority_order" "test_multiple_thresholds"
  by code_simp+

section \<open>Integration tests\<close>

text \<open>Overflow checks on numbers of word size, decided on words when the tests are evaluated.\<close>

lemma add_overflow_word:
  fixes a b :: "'a::len word"
  shows "2 ^ LENGTH('a) \<le> unat a + unat b \<longleftrightarrow> a + b < a"
proof -
  have a: "unat a < 2 ^ LENGTH('a)" and b: "unat b < 2 ^ LENGTH('a)"
    by (rule unsigned_less)+
  show ?thesis
  proof (cases "unat a + unat b < 2 ^ LENGTH('a)")
    case True
    then have "unat (a + b) = unat a + unat b" by (simp add: unat_word_ariths)
    with True show ?thesis by (simp add: word_less_nat_alt)
  next
    case False
    moreover have "unat a + unat b - 2 ^ LENGTH('a) < 2 ^ LENGTH('a)" using a b by linarith
    ultimately have "(unat a + unat b) mod 2 ^ LENGTH('a) = unat a + unat b - 2 ^ LENGTH('a)"
      by (simp add: le_mod_geq)
    moreover have "unat a + unat b - 2 ^ LENGTH('a) < unat a" using b False by linarith
    ultimately show ?thesis using False by (simp add: word_less_nat_alt unat_word_ariths)
  qed
qed

lemma usize_overflow: "2 ^ 64 \<le> unat a + unat b \<longleftrightarrow> a + b < (a :: usize)"
  using add_overflow_word [of a b] by simp

lemma merge_code [code]:
  "merge overflow_checks self other =
     (if p_sem self \<noteq> p_sem other then Panic ''Cannot merge permits from different semaphores''
      else if overflow_checks \<and> p_permits self + p_permits other < p_permits self
      then Panic ''attempt to add with overflow''
      else Done (self\<lparr>p_permits := p_permits self + p_permits other\<rparr>, other\<lparr>p_permits := 0\<rparr>))"
  using add_overflow_word [of "p_permits self" "p_permits other"] by (simp add: merge_def)

lemma add_permits_locked_code [code]:
  "add_permits_locked overflow_checks rem s =
     (case add_permits_loop rem s of
        None \<Rightarrow> (Panic ''index out of bounds'', s)
      | Some (None, s1) \<Rightarrow> (Done (), s1)
      | Some (Some rem', s1) \<Rightarrow>
          if rem' > 0 then
            let prev = permits s1;
                s2 = s1\<lparr>permits := prev + push_bit PERMIT_SHIFT rem'\<rparr>;
                prev_permits = drop_bit PERMIT_SHIFT prev
            in if overflow_checks \<and> prev_permits + rem' < prev_permits
               then (Panic ''attempt to add with overflow'', s2)
               else if prev_permits + rem' > MAX_PERMITS
               then (Panic ''number of added permits would overflow MAX_PERMITS'', s2)
               else (Done (), s2)
          else (Done (), s1))"
  unfolding add_permits_locked_def usize_overflow by (rule refl)

text \<open>What a test does with the result of a call: go on with it, or fail.\<close>

definition constructed :: "sys outcome \<Rightarrow> (sys \<Rightarrow> bool) \<Rightarrow> bool" where
  "constructed r k = (case r of Panic _ \<Rightarrow> False | Done s \<Rightarrow> k s)"

definition unwrap :: "('e + 'a) \<times> sys \<Rightarrow> ('a \<Rightarrow> sys \<Rightarrow> bool) \<Rightarrow> bool" where
  "unwrap r k = (case r of (Inl _, s) \<Rightarrow> False | (Inr a, s) \<Rightarrow> k a s)"

definition no_panic :: "'a outcome \<times> sys \<Rightarrow> ('a \<Rightarrow> sys \<Rightarrow> bool) \<Rightarrow> bool" where
  "no_panic r k = (case r of (Panic _, s) \<Rightarrow> False | (Done a, s) \<Rightarrow> k a s)"

fun panics :: "'a outcome \<Rightarrow> bool" where
  "panics (Panic _) = True"
| "panics (Done _) = False"

definition unwrap_many :: "('e + 'a) outcome \<times> sys \<Rightarrow> ('a \<Rightarrow> sys \<Rightarrow> bool) \<Rightarrow> bool" where
  "unwrap_many r k = no_panic r (\<lambda>x s. unwrap (x, s) k)"

definition test_add_permits :: bool where
  "test_add_permits \<longleftrightarrow> constructed (new_fifo 7 5) (\<lambda>s. available_permits s = 5 \<and>
     no_panic (add_permits True 3 s) (\<lambda>_ s. available_permits s = 8 \<and>
     no_panic (add_permits True 0 s) (\<lambda>_ s. available_permits s = 8 \<and>
     unwrap (try_acquire [] s) (\<lambda>_ s. unwrap (try_acquire [] s) (\<lambda>_ s. available_permits s = 6 \<and>
     no_panic (add_permits True 2 s) (\<lambda>_ s. available_permits s = 8))))))"

definition test_forget_permits :: bool where
  "test_forget_permits \<longleftrightarrow> constructed (new_fifo 7 10) (\<lambda>s0. available_permits s0 = 10 \<and>
     (let (forgotten, s) = forget_permits [] 3 s0; (forgotten', s') = forget_permits [] 10 s;
          (forgotten'', s'') = forget_permits [] 0 s'
      in forgotten = 3 \<and> available_permits s = 7 \<and> forgotten' = 7 \<and> available_permits s' = 0 \<and>
         forgotten'' = 0 \<and> available_permits s'' = 0))"

definition test_permit_num_permits :: bool where
  "test_permit_num_permits \<longleftrightarrow> constructed (new_fifo 7 10) (\<lambda>s.
     unwrap (try_acquire [] s) (\<lambda>permit1 s. num_permits permit1 = 1 \<and>
     unwrap_many (try_acquire_many [] 5 s) (\<lambda>permit2 s. num_permits permit2 = 5 \<and>
     unwrap_many (try_acquire_many [] 0 s) (\<lambda>permit3 s. num_permits permit3 = 0 \<and>
     no_panic (drop_permit True permit1 s) (\<lambda>_ s. no_panic (drop_permit True permit2 s) (\<lambda>_ s.
     no_panic (drop_permit True permit3 s) (\<lambda>_ s. available_permits s = 10)))))))"

definition test_max_permits_edge_cases :: bool where
  "test_max_permits_edge_cases \<longleftrightarrow> constructed (new_fifo 7 MAX_PERMITS) (\<lambda>s.
     available_permits s = MAX_PERMITS \<and>
     unwrap (try_acquire [] s) (\<lambda>permit s. available_permits s = MAX_PERMITS - 1 \<and>
     no_panic (drop_permit True permit s) (\<lambda>_ s. available_permits s = MAX_PERMITS)))"

definition test_try_acquire :: bool where
  "test_try_acquire \<longleftrightarrow> constructed (new_fifo 7 1) (\<lambda>s.
     unwrap (try_acquire [] s) (\<lambda>p1 s.
     (case try_acquire [] s of (Inr _, _) \<Rightarrow> False | (Inl _, s) \<Rightarrow>
     no_panic (drop_permit True p1 s) (\<lambda>_ s.
     unwrap (try_acquire [] s) (\<lambda>_ s. True)))))"

definition test_forget :: bool where
  "test_forget \<longleftrightarrow> constructed (new_fifo 7 1) (\<lambda>s.
     unwrap (try_acquire [] s) (\<lambda>p s. available_permits s = 0 \<and>
     no_panic (drop_permit True (forget p) s) (\<lambda>_ s. available_permits s = 0 \<and>
     (case try_acquire [] s of (Inr _, _) \<Rightarrow> False | (Inl _, _) \<Rightarrow> True))))"

definition test_merge :: bool where
  "test_merge \<longleftrightarrow> constructed (new_fifo 7 3) (\<lambda>s.
     unwrap (try_acquire [] s) (\<lambda>p1 s. available_permits s = 2 \<and>
     unwrap_many (try_acquire_many [] 2 s) (\<lambda>p2 s. available_permits s = 0 \<and>
     (case merge True p1 p2 of Panic _ \<Rightarrow> False | Done (p1, p2) \<Rightarrow>
     no_panic (drop_permit True p2 s) (\<lambda>_ s. available_permits s = 0 \<and>
     no_panic (drop_permit True p1 s) (\<lambda>_ s. available_permits s = 3))))))"

definition test_merge_unrelated_permits :: bool where
  "test_merge_unrelated_permits \<longleftrightarrow> constructed (new_fifo 1 3) (\<lambda>s1. constructed (new_fifo 2 3) (\<lambda>s2.
     unwrap (try_acquire [] s1) (\<lambda>p1 _. unwrap (try_acquire [] s2) (\<lambda>p2 _. panics (merge True p1 p2)))))"

definition test_split :: bool where
  "test_split \<longleftrightarrow> constructed (new_fifo 7 5) (\<lambda>s.
     unwrap_many (try_acquire_many [] 3 s) (\<lambda>p1 s. available_permits s = 2 \<and> num_permits p1 = 3 \<and>
     (case split_permit 1 p1 of (None, _) \<Rightarrow> False | (Some p2, p1) \<Rightarrow>
       available_permits s = 2 \<and> num_permits p1 = 2 \<and> num_permits p2 = 1 \<and>
     (case split_permit 0 p1 of (None, _) \<Rightarrow> False | (Some p3, p1) \<Rightarrow> num_permits p3 = 0 \<and>
     no_panic (drop_permit True p1 s) (\<lambda>_ s. available_permits s = 4 \<and>
     (case split_permit 1 p2 of (None, _) \<Rightarrow> False | (Some p4, p2) \<Rightarrow>
       num_permits p2 = 0 \<and> num_permits p4 = 1 \<and> fst (split_permit 1 p2) = None \<and>
     no_panic (drop_permit True p2 s) (\<lambda>_ s. available_permits s = 4 \<and>
     no_panic (drop_permit True p3 s) (\<lambda>_ s. available_permits s = 4 \<and>
     no_panic (drop_permit True p4 s) (\<lambda>_ s. available_permits s = 5)))))))))"

definition test_add_more_than_max_amount_permits2 :: bool where
  "test_add_more_than_max_amount_permits2 \<longleftrightarrow> constructed (new_fifo 7 (MAX_PERMITS - 1)) (\<lambda>s.
     no_panic (add_permits True 1 s) (\<lambda>_ s. panics (fst (add_permits True 1 s))))"

definition test_panic_when_exceeds_maxpermits :: bool where
  "test_panic_when_exceeds_maxpermits \<longleftrightarrow> panics (new_fifo 7 (MAX_PERMITS + 1))"

definition test_no_panic_at_maxpermits :: bool where
  "test_no_panic_at_maxpermits \<longleftrightarrow> constructed (new_fifo 7 MAX_PERMITS) (\<lambda>_.
     constructed (new_fifo 7 (MAX_PERMITS - 1)) (\<lambda>s. no_panic (add_permits True 1 s) (\<lambda>_ _. True)))"

definition test_try_acquire_many_owned :: bool where
  "test_try_acquire_many_owned \<longleftrightarrow> constructed (new_fifo 7 42) (\<lambda>s.
     unwrap_many (try_acquire_many_owned [] 42 s) (\<lambda>p1 s.
     (case try_acquire_owned [] s of (Inr _, _) \<Rightarrow> False | (Inl _, s) \<Rightarrow>
     no_panic (drop_owned_permit True p1 s) (\<lambda>_ s.
     unwrap_many (try_acquire_many_owned [] 32 s) (\<lambda>p3 s.
     unwrap_many (try_acquire_many_owned [] 10 s) (\<lambda>p4 s.
     (case try_acquire_owned [] s of (Inr _, _) \<Rightarrow> False | (Inl _, _) \<Rightarrow> True)))))))"

definition test_try_acquire_closed_semaphore :: bool where
  "test_try_acquire_closed_semaphore \<longleftrightarrow> constructed (new_fifo 7 5) (\<lambda>s.
     let s = close id s
     in fst (try_acquire [] s) = Inl Closed \<and>
        no_panic (try_acquire_many [] 2 s) (\<lambda>r _. r = Inl Closed))"

lemma integration_tests_pass:
  "test_add_permits" "test_forget_permits" "test_permit_num_permits"
  "test_max_permits_edge_cases" "test_try_acquire" "test_forget" "test_merge"
  "test_merge_unrelated_permits" "test_split" "test_add_more_than_max_amount_permits2"
  "test_panic_when_exceeds_maxpermits" "test_no_panic_at_maxpermits"
  "test_try_acquire_many_owned" "test_try_acquire_closed_semaphore"
  by code_simp+

end
