(* ===== verification/Doc_Examples.thy ===== *)
theory Doc_Examples
  imports Conformance
begin

text \<open>
  The examples of the crate's documentation (\<open>```rust\<close> blocks of the doc comments), which are
  compiled and run as tests. Each is a boolean that is true when the example runs without a panic
  and its assertions hold. The examples run in one task, with overflow checks: awaiting a future is
  one poll, which must be ready (a pending future would hang the example), after which the finished
  future is dropped; permits still held are dropped at the end of the scope, the last one first.
\<close>

section \<open>Running an example\<close>

definition await :: "acquire_future \<Rightarrow> sys \<Rightarrow> (permit \<Rightarrow> sys \<Rightarrow> bool) \<Rightarrow> bool" where
  "await f s k = (case poll True 0 f s of (Ready (Inr p), f', s') \<Rightarrow> k p (drop_future f' s') | _ \<Rightarrow> False)"

definition await_owned :: "acquire_owned_future \<Rightarrow> sys \<Rightarrow> (owned_permit \<Rightarrow> sys \<Rightarrow> bool) \<Rightarrow> bool" where
  "await_owned f s k =
     (case poll_owned True 0 f s of (Ready (Inr p), f', s') \<Rightarrow> k p (drop_owned_future f' s') | _ \<Rightarrow> False)"

fun scope_end :: "permit list \<Rightarrow> sys \<Rightarrow> bool" where
  "scope_end [] s = True"
| "scope_end (p # ps) s = no_panic (drop_permit True p s) (\<lambda>_. scope_end ps)"

fun scope_end_owned :: "owned_permit list \<Rightarrow> sys \<Rightarrow> bool" where
  "scope_end_owned [] s = True"
| "scope_end_owned (p # ps) s = no_panic (drop_owned_permit True p s) (\<lambda>_. scope_end_owned ps)"

text \<open>The last step of some examples: the call must be refused, and the reason is printed.\<close>

definition refused :: "string \<Rightarrow> (TryAcquireError + 'p) \<Rightarrow> string option" where
  "refused text r =
     (case r of Inr _ \<Rightarrow> None | Inl NoPermits \<Rightarrow> Some text | Inl Closed \<Rightarrow> Some ''Semaphore closed'')"

text \<open>The comparisons on numbers, decided on words when the examples are evaluated.\<close>

lemma merge_owned_code [code]:
  "merge_owned overflow_checks self other =
     (if o_sem self \<noteq> o_sem other then Panic ''Cannot merge permits from different semaphores''
      else if overflow_checks \<and> o_permits self + o_permits other < o_permits self
      then Panic ''attempt to add with overflow''
      else Done (self\<lparr>o_permits := o_permits self + o_permits other\<rparr>, other\<lparr>o_permits := 0\<rparr>))"
  using add_overflow_word [of "o_permits self" "o_permits other"] by (simp add: merge_owned_def)

lemma u32_try_from_code [code]:
  "u32_try_from n = (if n \<le> 0xFFFFFFFF then Some (ucast n) else None)"
proof -
  have "unat n < 2 ^ 32 \<longleftrightarrow> n \<le> 0xFFFFFFFF" by (simp add: word_le_nat_alt less_Suc_eq_le [symmetric])
  then show ?thesis by (simp add: u32_try_from_def)
qed

section \<open>The semaphore\<close>

definition doc_semaphore :: bool where
  "doc_semaphore \<longleftrightarrow> constructed (new_fifo 7 2) (\<lambda>s.
     await (acquire_with_priority (ISize 10) s) s (\<lambda>high_permit s.
     await (acquire_with_priority (ISize 1) s) s (\<lambda>low_permit s. scope_end [low_permit, high_permit] s)))"

definition doc_new_fifo :: bool where
  "doc_new_fifo \<longleftrightarrow> constructed (new_fifo 7 3) (\<lambda>s. available_permits s = 3)"

definition doc_new_lifo :: bool where
  "doc_new_lifo \<longleftrightarrow> constructed (new_lifo 7 3) (\<lambda>s. available_permits s = 3)"

definition doc_new :: bool where
  "doc_new \<longleftrightarrow> constructed (new_semaphore 7 3 Fifo) (\<lambda>s. available_permits s = 3)"

definition doc_new_with_config :: bool where
  "doc_new_with_config \<longleftrightarrow>
     (let config = exact (default_strategy config_new Fifo) (ISize 10) Lifo
      in constructed (new_with_config 7 3 config) (\<lambda>s. available_permits s = 3))"

definition doc_available_permits :: bool where
  "doc_available_permits \<longleftrightarrow> constructed (new_fifo 7 3) (\<lambda>s. available_permits s = 3 \<and>
     unwrap (try_acquire [] s) (\<lambda>permit s. available_permits s = 2 \<and> scope_end [permit] s))"

definition doc_is_closed :: bool where
  "doc_is_closed \<longleftrightarrow> constructed (new_fifo 7 3) (\<lambda>s. \<not> is_closed s \<and> is_closed (close id s))"

definition doc_add_permits :: bool where
  "doc_add_permits \<longleftrightarrow> constructed (new_fifo 7 1) (\<lambda>s.
     unwrap (try_acquire [] s) (\<lambda>permit s. available_permits s = 0 \<and>
     no_panic (add_permits True 2 s) (\<lambda>_ s. available_permits s = 2 \<and> scope_end [permit] s)))"

definition doc_close :: bool where
  "doc_close \<longleftrightarrow> constructed (new_fifo 7 3) (\<lambda>s. let s = close id s in is_closed s \<and>
     (case try_acquire [] s of (Inl _, _) \<Rightarrow> True | (Inr _, _) \<Rightarrow> False))"

definition doc_forget_permits :: bool where
  "doc_forget_permits \<longleftrightarrow> constructed (new_fifo 7 5) (\<lambda>s0. available_permits s0 = 5 \<and>
     (let (removed, s) = forget_permits [] 3 s0; (removed', s') = forget_permits [] 10 s
      in removed = 3 \<and> available_permits s = 2 \<and> removed' = 2 \<and> available_permits s' = 0))"

section \<open>Acquisition\<close>

definition doc_acquire :: bool where
  "doc_acquire \<longleftrightarrow> constructed (new_fifo 7 1) (\<lambda>s. await (acquire s) s (\<lambda>permit. scope_end [permit]))"

definition doc_acquire_future :: bool where
  "doc_acquire_future \<longleftrightarrow> constructed (new_fifo 7 1) (\<lambda>s.
     let acquire_future = acquire s in await acquire_future s (\<lambda>permit. scope_end [permit]))"

definition doc_acquire_owned_future :: bool where
  "doc_acquire_owned_future \<longleftrightarrow> constructed (new_fifo 7 1) (\<lambda>s.
     let acquire_future = acquire_owned s in await_owned acquire_future s (\<lambda>permit. scope_end_owned [permit]))"

definition doc_acquire_with_priority :: bool where
  "doc_acquire_with_priority \<longleftrightarrow> constructed (new_fifo 7 1) (\<lambda>s.
     await (acquire_with_priority (ISize 10) s) s (\<lambda>permit. scope_end [permit]))"

definition doc_acquire_many :: bool where
  "doc_acquire_many \<longleftrightarrow> constructed (new_fifo 7 5) (\<lambda>s.
     await (acquire_many 3 s) s (\<lambda>permits s. num_permits permits = 3 \<and> scope_end [permits] s))"

definition doc_acquire_many_with_priority :: bool where
  "doc_acquire_many_with_priority \<longleftrightarrow> constructed (new_fifo 7 5) (\<lambda>s.
     await (acquire_many_with_priority (ISize 10) 3 s) s (\<lambda>permits s.
       num_permits permits = 3 \<and> scope_end [permits] s))"

definition doc_try_acquire :: bool where
  "doc_try_acquire \<longleftrightarrow> constructed (new_fifo 7 1) (\<lambda>s.
     unwrap (try_acquire [] s) (\<lambda>permit1 s.
     (let (r, s) = try_acquire [] s
      in refused ''No permits available'' r = Some ''No permits available'' \<and> scope_end [permit1] s)))"

definition doc_try_acquire_many :: bool where
  "doc_try_acquire_many \<longleftrightarrow> constructed (new_fifo 7 5) (\<lambda>s.
     unwrap_many (try_acquire_many [] 3 s) (\<lambda>permits s.
     no_panic (try_acquire_many [] 5 s) (\<lambda>r s.
       refused ''Not enough permits'' r = Some ''Not enough permits'' \<and> scope_end [permits] s)))"

definition doc_acquire_owned :: bool where
  "doc_acquire_owned \<longleftrightarrow> constructed (new_fifo 7 1) (\<lambda>s.
     await_owned (acquire_owned s) s (\<lambda>permit. scope_end_owned [permit]))"

definition doc_acquire_owned_with_priority :: bool where
  "doc_acquire_owned_with_priority \<longleftrightarrow> constructed (new_fifo 7 1) (\<lambda>s.
     await_owned (acquire_owned_with_priority (ISize 10) s) s (\<lambda>permit. scope_end_owned [permit]))"

definition doc_acquire_many_owned :: bool where
  "doc_acquire_many_owned \<longleftrightarrow> constructed (new_fifo 7 5) (\<lambda>s.
     await_owned (acquire_many_owned 3 s) s (\<lambda>permits s.
       num_permits_owned permits = 3 \<and> scope_end_owned [permits] s))"

definition doc_acquire_many_owned_with_priority :: bool where
  "doc_acquire_many_owned_with_priority \<longleftrightarrow> constructed (new_fifo 7 5) (\<lambda>s.
     await_owned (acquire_many_owned_with_priority (ISize 10) 3 s) s (\<lambda>permits s.
       num_permits_owned permits = 3 \<and> scope_end_owned [permits] s))"

definition doc_try_acquire_owned :: bool where
  "doc_try_acquire_owned \<longleftrightarrow> constructed (new_fifo 7 1) (\<lambda>s.
     unwrap (try_acquire_owned [] s) (\<lambda>permit1 s.
     (let (r, s) = try_acquire_owned [] s
      in refused ''No permits available'' r = Some ''No permits available'' \<and> scope_end_owned [permit1] s)))"

definition doc_try_acquire_many_owned :: bool where
  "doc_try_acquire_many_owned \<longleftrightarrow> constructed (new_fifo 7 5) (\<lambda>s.
     unwrap_many (try_acquire_many_owned [] 3 s) (\<lambda>permits s.
     no_panic (try_acquire_many_owned [] 5 s) (\<lambda>r s.
       refused ''Not enough permits'' r = Some ''Not enough permits'' \<and> scope_end_owned [permits] s)))"

section \<open>Permits\<close>

definition doc_permit :: bool where
  "doc_permit \<longleftrightarrow> constructed (new_fifo 7 3) (\<lambda>s.
     await (acquire s) s (\<lambda>permit s. num_permits permit = 1 \<and> scope_end [permit] s))"

definition doc_forget :: bool where
  "doc_forget \<longleftrightarrow> constructed (new_fifo 7 3) (\<lambda>s.
     await (acquire s) s (\<lambda>permit s. available_permits s = 2 \<and>
     no_panic (drop_permit True (forget permit) s) (\<lambda>_ s. available_permits s = 2)))"

definition doc_num_permits :: bool where
  "doc_num_permits \<longleftrightarrow> constructed (new_fifo 7 5) (\<lambda>s.
     await (acquire_many 3 s) s (\<lambda>permit s. num_permits permit = 3 \<and> scope_end [permit] s))"

text \<open>\<open>merge\<close> consumes the second permit: it is dropped, empty, inside the call.\<close>

definition doc_merge :: bool where
  "doc_merge \<longleftrightarrow> constructed (new_fifo 7 5) (\<lambda>s.
     await (acquire_many 2 s) s (\<lambda>permit1 s. await (acquire_many 1 s) s (\<lambda>permit2 s.
     (case merge True permit1 permit2 of Panic _ \<Rightarrow> False | Done (permit1, other) \<Rightarrow>
     no_panic (drop_permit True other s) (\<lambda>_ s. num_permits permit1 = 3 \<and> scope_end [permit1] s)))))"

definition doc_split :: bool where
  "doc_split \<longleftrightarrow> constructed (new_fifo 7 5) (\<lambda>s.
     await (acquire_many 3 s) s (\<lambda>permit s.
     (case split_permit 2 permit of (None, _) \<Rightarrow> False | (Some part, permit) \<Rightarrow>
       num_permits permit = 1 \<and> num_permits part = 2 \<and> scope_end [part, permit] s)))"

definition doc_owned_permit :: bool where
  "doc_owned_permit \<longleftrightarrow> constructed (new_fifo 7 3) (\<lambda>s.
     await_owned (acquire_owned s) s (\<lambda>permit s. num_permits_owned permit = 1 \<and> scope_end_owned [permit] s))"

definition doc_forget_owned :: bool where
  "doc_forget_owned \<longleftrightarrow> constructed (new_fifo 7 3) (\<lambda>s.
     await_owned (acquire_owned s) s (\<lambda>permit s. available_permits s = 2 \<and>
     no_panic (drop_owned_permit True (forget_owned permit) s) (\<lambda>_ s. available_permits s = 2)))"

definition doc_num_permits_owned :: bool where
  "doc_num_permits_owned \<longleftrightarrow> constructed (new_fifo 7 5) (\<lambda>s.
     await_owned (acquire_many_owned 3 s) s (\<lambda>permit s.
       num_permits_owned permit = 3 \<and> scope_end_owned [permit] s))"

definition doc_merge_owned :: bool where
  "doc_merge_owned \<longleftrightarrow> constructed (new_fifo 7 5) (\<lambda>s.
     await_owned (acquire_many_owned 2 s) s (\<lambda>permit1 s. await_owned (acquire_many_owned 1 s) s (\<lambda>permit2 s.
     (case merge_owned True permit1 permit2 of Panic _ \<Rightarrow> False | Done (permit1, other) \<Rightarrow>
     no_panic (drop_owned_permit True other s) (\<lambda>_ s.
       num_permits_owned permit1 = 3 \<and> scope_end_owned [permit1] s)))))"

definition doc_split_owned :: bool where
  "doc_split_owned \<longleftrightarrow> constructed (new_fifo 7 5) (\<lambda>s.
     await_owned (acquire_many_owned 3 s) s (\<lambda>permit s.
     (case split_owned 2 permit of (None, _) \<Rightarrow> False | (Some part, permit) \<Rightarrow>
       num_permits_owned permit = 1 \<and> num_permits_owned part = 2 \<and>
       scope_end_owned [part, permit] s)))"

definition doc_semaphore_of :: bool where
  "doc_semaphore_of \<longleftrightarrow> constructed (new_fifo 7 3) (\<lambda>s.
     await_owned (acquire_owned s) s (\<lambda>permit s.
       semaphore_of permit = sem_addr s \<and> available_permits s = 2 \<and> scope_end_owned [permit] s))"

section \<open>Configuration and crate documentation\<close>

definition doc_strategy_for_priority :: bool where
  "doc_strategy_for_priority \<longleftrightarrow>
     (let config = exact (default_strategy config_new Fifo) (ISize 10) Lifo
      in strategy_for_priority config (ISize 5) = Fifo \<and> strategy_for_priority config (ISize 10) = Lifo)"

definition doc_quick_start :: bool where
  "doc_quick_start \<longleftrightarrow> constructed (new_fifo 7 3) (\<lambda>s.
     await (acquire s) s (\<lambda>permit s.
     await (acquire_with_priority (ISize 10) s) s (\<lambda>high s. scope_end [permit, high] s)))"

definition doc_advanced_usage :: bool where
  "doc_advanced_usage \<longleftrightarrow>
     (let config = exact (default_strategy config_new Fifo) (ISize 10) Lifo
      in constructed (new_with_config 7 2 config) (\<lambda>s.
           await (acquire_with_priority (ISize 10) s) s (\<lambda>admin s.
           await (acquire_with_priority (ISize 0) s) s (\<lambda>guest s. scope_end [guest, admin] s))))"

section \<open>All of them pass\<close>

lemma semaphore_examples:
  "doc_semaphore" "doc_new_fifo" "doc_new_lifo" "doc_new" "doc_new_with_config" "doc_available_permits"
  "doc_is_closed" "doc_add_permits" "doc_close" "doc_forget_permits"
  by code_simp+

lemma acquisition_examples:
  "doc_acquire_future" "doc_acquire_owned_future" "doc_acquire" "doc_acquire_with_priority" "doc_acquire_many" "doc_acquire_many_with_priority"
  "doc_try_acquire" "doc_try_acquire_many"
  "doc_acquire_owned" "doc_acquire_owned_with_priority" "doc_acquire_many_owned"
  "doc_acquire_many_owned_with_priority" "doc_try_acquire_owned" "doc_try_acquire_many_owned"
  by code_simp+

lemma permit_examples:
  "doc_permit" "doc_forget" "doc_num_permits" "doc_merge" "doc_split"
  "doc_owned_permit" "doc_forget_owned" "doc_num_permits_owned" "doc_merge_owned" "doc_split_owned"
  "doc_semaphore_of"
  by code_simp+

lemma crate_examples: "doc_strategy_for_priority" "doc_quick_start" "doc_advanced_usage"
  by code_simp+

end
