(* ===== verification/Test_Suite.thy ===== *)
theory Test_Suite
  imports Doc_Examples
begin

text \<open>
  More of the crate's own tests, run on the model. First those that run in one task: awaiting a future,
  with a timeout or without, is one poll that must be ready. Then those that spawn tasks which wait and
  look at the order in which they are served: a task is polled when it is spawned and whenever it has
  been woken, one task at a time and first come first served, as on a single-threaded runtime; while the
  test sleeps the tasks run until none is ready. What is alive at the end of a test is mostly not dropped,
  as nothing looks at the semaphore any more.
\<close>

section \<open>Tests in one task\<close>

definition fails :: "'e \<Rightarrow> ('e + 'a) \<times> sys \<Rightarrow> (sys \<Rightarrow> bool) \<Rightarrow> bool" where
  "fails e r k = (case r of (Inl e', s) \<Rightarrow> e' = e \<and> k s | (Inr _, _) \<Rightarrow> False)"

definition released :: "permit \<Rightarrow> sys \<Rightarrow> (sys \<Rightarrow> bool) \<Rightarrow> bool" where
  "released p s k = no_panic (drop_permit True p s) (\<lambda>_. k)"

definition released_owned :: "owned_permit \<Rightarrow> sys \<Rightarrow> (sys \<Rightarrow> bool) \<Rightarrow> bool" where
  "released_owned p s k = no_panic (drop_owned_permit True p s) (\<lambda>_. k)"

text \<open>\<open>n\<close> calls of \<open>try_acquire\<close>, all of which must succeed.\<close>

fun take_permits :: "nat \<Rightarrow> permit list \<Rightarrow> sys \<Rightarrow> (permit list \<Rightarrow> sys \<Rightarrow> bool) \<Rightarrow> bool" where
  "take_permits 0 ps s k = k ps s"
| "take_permits (Suc n) ps s k = unwrap (try_acquire [] s) (\<lambda>p s. take_permits n (ps @ [p]) s k)"

definition test_semaphore_creation_fifo :: bool where
  "test_semaphore_creation_fifo \<longleftrightarrow> constructed (new_fifo 7 5) (\<lambda>s. available_permits s = 5 \<and> \<not> is_closed s)"

definition test_semaphore_creation_lifo :: bool where
  "test_semaphore_creation_lifo \<longleftrightarrow> constructed (new_lifo 7 3) (\<lambda>s. available_permits s = 3 \<and> \<not> is_closed s)"

definition test_semaphore_creation_with_config :: bool where
  "test_semaphore_creation_with_config \<longleftrightarrow> constructed (new_with_config 7 7 (exact (default_strategy config_new Fifo) (ISize 10) Lifo))
       (\<lambda>s. available_permits s = 7 \<and> \<not> is_closed s)"

definition test_semaphore_creation_zero_permits :: bool where
  "test_semaphore_creation_zero_permits \<longleftrightarrow> constructed (new_fifo 7 0) (\<lambda>s. available_permits s = 0 \<and> \<not> is_closed s \<and>
       fails NoPermits (try_acquire [] s) (\<lambda>_. True))"

definition test_semaphore_creation_max_permits :: bool where
  "test_semaphore_creation_max_permits \<longleftrightarrow> constructed (new_fifo 7 MAX_PERMITS) (\<lambda>s. available_permits s = MAX_PERMITS \<and> \<not> is_closed s)"

definition test_try_acquire_success :: bool where
  "test_try_acquire_success \<longleftrightarrow> constructed (new_fifo 7 3) (\<lambda>s.
       unwrap (try_acquire [] s) (\<lambda>permit1 s. available_permits s = 2 \<and>
       unwrap (try_acquire [] s) (\<lambda>permit2 s. available_permits s = 1 \<and>
       unwrap (try_acquire [] s) (\<lambda>permit3 s. available_permits s = 0 \<and>
       released permit1 s (\<lambda>s. released permit2 s (\<lambda>s. released permit3 s (\<lambda>_. True)))))))"

definition test_try_acquire_no_permits :: bool where
  "test_try_acquire_no_permits \<longleftrightarrow> constructed (new_fifo 7 1) (\<lambda>s.
       unwrap (try_acquire [] s) (\<lambda>_ s. available_permits s = 0 \<and>
       fails NoPermits (try_acquire [] s) (\<lambda>_. True)))"

definition test_try_acquire_many_success :: bool where
  "test_try_acquire_many_success \<longleftrightarrow> constructed (new_fifo 7 10) (\<lambda>s.
       unwrap_many (try_acquire_many [] 5 s) (\<lambda>permit s. available_permits s = 5 \<and> num_permits permit = 5 \<and>
       released permit s (\<lambda>s. available_permits s = 10)))"

definition test_try_acquire_many_insufficient_permits :: bool where
  "test_try_acquire_many_insufficient_permits \<longleftrightarrow> constructed (new_fifo 7 3) (\<lambda>s.
       no_panic (try_acquire_many [] 5 s) (\<lambda>r s. fails NoPermits (r, s) (\<lambda>s. available_permits s = 3)))"

definition test_try_acquire_many_zero_permits :: bool where
  "test_try_acquire_many_zero_permits \<longleftrightarrow> constructed (new_fifo 7 5) (\<lambda>s.
       unwrap_many (try_acquire_many [] 0 s) (\<lambda>permit s. num_permits permit = 0 \<and> available_permits s = 5))"

definition test_async_acquire_success :: bool where
  "test_async_acquire_success \<longleftrightarrow> constructed (new_fifo 7 2) (\<lambda>s.
       await (acquire s) s (\<lambda>permit1 s. available_permits s = 1 \<and>
       await (acquire s) s (\<lambda>permit2 s. available_permits s = 0 \<and>
       released permit1 s (\<lambda>s. released permit2 s (\<lambda>_. True)))))"

definition test_async_acquire_many_success :: bool where
  "test_async_acquire_many_success \<longleftrightarrow> constructed (new_fifo 7 5) (\<lambda>s.
       await (acquire_many 3 s) s (\<lambda>permit s. available_permits s = 2 \<and> num_permits permit = 3 \<and>
       released permit s (\<lambda>s. available_permits s = 5)))"

definition test_semaphore_close_basic :: bool where
  "test_semaphore_close_basic \<longleftrightarrow> constructed (new_fifo 7 5) (\<lambda>s. \<not> is_closed s \<and>
       (let s = close id s in is_closed s \<and> fails Closed (try_acquire [] s) (\<lambda>_. True)))"

definition test_available_permits_consistency :: bool where
  "test_available_permits_consistency \<longleftrightarrow> constructed (new_fifo 7 10) (\<lambda>s.
       unwrap (try_acquire [] s) (\<lambda>p1 s. available_permits s = 9 \<and>
       unwrap (try_acquire [] s) (\<lambda>p2 s. available_permits s = 8 \<and>
       unwrap (try_acquire [] s) (\<lambda>p3 s. available_permits s = 7 \<and>
       unwrap (try_acquire [] s) (\<lambda>p4 s. available_permits s = 6 \<and>
       unwrap (try_acquire [] s) (\<lambda>p5 s. available_permits s = 5 \<and>
       released p5 s (\<lambda>s. available_permits s = 6 \<and> released p4 s (\<lambda>s. available_permits s = 7 \<and>
       released p3 s (\<lambda>s. available_permits s = 8 \<and> released p2 s (\<lambda>s. available_permits s = 9 \<and>
       released p1 s (\<lambda>s. available_permits s = 10)))))))))))"

definition test_permit_drop_behavior :: bool where
  "test_permit_drop_behavior \<longleftrightarrow> constructed (new_fifo 7 3) (\<lambda>s.
       unwrap (try_acquire [] s) (\<lambda>permit1 s. unwrap (try_acquire [] s) (\<lambda>permit2 s. available_permits s = 1 \<and>
       released permit2 s (\<lambda>s. released permit1 s (\<lambda>s. available_permits s = 3)))))"

definition test_error_display_formatting :: bool where
  "test_error_display_formatting \<longleftrightarrow> constructed (new_fifo 7 0) (\<lambda>s. let s = close id s in
       (case poll True 0 (acquire s) s of
          (Ready (Inl e), _) \<Rightarrow> acquire_error_fmt e = ''semaphore closed'' | _ \<Rightarrow> True) \<and>
       try_error_fmt Closed = ''semaphore closed'' \<and> try_error_fmt NoPermits = ''no permits available'')"

definition test_try_acquire_error_methods :: bool where
  "test_try_acquire_error_methods \<longleftrightarrow> try_error_is_closed Closed \<and> \<not> try_error_is_no_permits Closed \<and>
     \<not> try_error_is_closed NoPermits \<and> try_error_is_no_permits NoPermits"

definition test_edge_case_large_acquire_many :: bool where
  "test_edge_case_large_acquire_many \<longleftrightarrow> constructed (new_fifo 7 1000) (\<lambda>s.
       unwrap_many (try_acquire_many [] 999 s) (\<lambda>permit s. available_permits s = 1 \<and> num_permits permit = 999 \<and>
       released permit s (\<lambda>s. available_permits s = 1000)))"

definition test_edge_case_single_permit_semaphore :: bool where
  "test_edge_case_single_permit_semaphore \<longleftrightarrow> constructed (new_fifo 7 1) (\<lambda>s.
       unwrap (try_acquire [] s) (\<lambda>permit s. available_permits s = 0 \<and>
       fails NoPermits (try_acquire [] s) (\<lambda>s. released permit s (\<lambda>s. available_permits s = 1))))"

definition test_async_context_switching :: bool where
  "test_async_context_switching \<longleftrightarrow> constructed (new_fifo 7 1) (\<lambda>s.
       await (acquire s) s (\<lambda>permit s. available_permits s = 0 \<and>
       released permit s (\<lambda>s. available_permits s = 1)))"

definition test_permit_with_priority :: bool where
  "test_permit_with_priority \<longleftrightarrow> constructed (new_fifo 7 5) (\<lambda>s.
       unwrap (try_acquire [] s) (\<lambda>permit1 s. num_permits permit1 = 1 \<and> available_permits s = 4 \<and>
       unwrap_many (try_acquire_many [] 2 s) (\<lambda>permit2 s. num_permits permit2 = 2 \<and> available_permits s = 2 \<and>
       released permit1 s (\<lambda>s. released permit2 s (\<lambda>s. available_permits s = 5)))))"

definition test_add_permits_edge_cases :: bool where
  "test_add_permits_edge_cases \<longleftrightarrow> constructed (new_fifo 7 0) (\<lambda>s.
       no_panic (add_permits True 1 s) (\<lambda>_ s. available_permits s = 1 \<and>
       no_panic (add_permits True 1000 s) (\<lambda>_ s. available_permits s = 1001 \<and>
       unwrap_many (try_acquire_many [] 500 s) (\<lambda>_ s. available_permits s = 501 \<and>
       no_panic (add_permits True 100 s) (\<lambda>_ s. available_permits s = 601)))))"

definition test_priority_try_acquire_basic :: bool where
  "test_priority_try_acquire_basic \<longleftrightarrow> constructed (new_fifo 7 3) (\<lambda>s. take_permits 3 [] s (\<lambda>permits s.
       available_permits s = 0 \<and> fails NoPermits (try_acquire [] s) (scope_end permits)))"

definition test_priority_acquire_many_with_priority :: bool where
  "test_priority_acquire_many_with_priority \<longleftrightarrow> constructed (new_fifo 7 5) (\<lambda>s.
       unwrap_many (try_acquire_many [] 3 s) (\<lambda>permit s. num_permits permit = 3 \<and> available_permits s = 2 \<and>
       await (acquire_many_with_priority (ISize (- 1)) 2 s) s (\<lambda>permit2 s.
         num_permits permit2 = 2 \<and> available_permits s = 0 \<and> scope_end [permit, permit2] s)))"

definition test_priority_config_range :: bool where
  "test_priority_config_range \<longleftrightarrow> constructed (new_with_config 7 5 (range_rule (default_strategy config_new Fifo) (ISize 5) (ISize 15) Lifo))
       (\<lambda>s. take_permits 4 [] s (\<lambda>permits s. available_permits s = 1 \<and> scope_end permits s))"

definition test_priority_config_greater_or_equal :: bool where
  "test_priority_config_greater_or_equal \<longleftrightarrow> constructed (new_with_config 7 3 (greater_or_equal (default_strategy config_new Fifo) (ISize 10) Lifo))
       (\<lambda>s. take_permits 3 [] s (\<lambda>permits s. available_permits s = 0 \<and> scope_end permits s))"

definition test_priority_config_less_or_equal :: bool where
  "test_priority_config_less_or_equal \<longleftrightarrow> constructed (new_with_config 7 3 (less_or_equal (default_strategy config_new Fifo) (ISize 0) Lifo))
       (\<lambda>s. take_permits 3 [] s (\<lambda>permits s. available_permits s = 0 \<and> scope_end permits s))"

definition test_priority_config_multiple_rules :: bool where
  "test_priority_config_multiple_rules \<longleftrightarrow> (let config = greater_or_equal (range_rule (exact (default_strategy config_new Fifo) (ISize 0) Lifo)
            (ISize 10) (ISize 20) Lifo) (ISize 100) Lifo
      in constructed (new_with_config 7 5 config)
        (\<lambda>s. take_permits 5 [] s (\<lambda>permits s. available_permits s = 0 \<and> scope_end permits s)))"

definition test_extreme_priority_values :: bool where
  "test_extreme_priority_values \<longleftrightarrow> constructed (new_fifo 7 3) (\<lambda>s.
       take_permits 3 [] s (\<lambda>permits s. available_permits s = 0 \<and> scope_end permits s))"

definition test_mixed_acquire_types_with_priority :: bool where
  "test_mixed_acquire_types_with_priority \<longleftrightarrow> constructed (new_fifo 7 5) (\<lambda>s.
       unwrap (try_acquire [] s) (\<lambda>permit1 s.
       await (acquire_with_priority (ISize 3) s) s (\<lambda>permit2 s.
       unwrap_many (try_acquire_many [] 2 s) (\<lambda>permit3 s. available_permits s = 1 \<and>
         num_permits permit1 = 1 \<and> num_permits permit2 = 1 \<and> num_permits permit3 = 2 \<and>
       released permit1 s (\<lambda>s. released permit2 s (\<lambda>s. released permit3 s (\<lambda>s. available_permits s = 5)))))))"

definition test_priority_with_closed_semaphore :: bool where
  "test_priority_with_closed_semaphore \<longleftrightarrow> constructed (new_fifo 7 1) (\<lambda>s. let s = close id s in
       fails Closed (try_acquire [] s) (\<lambda>s.
       no_panic (try_acquire_many [] 1 s) (\<lambda>r s. fails Closed (r, s) (\<lambda>_. True))))"

definition test_edge_cases_for_greater_and_less_than :: bool where
  "test_edge_cases_for_greater_and_less_than \<longleftrightarrow> (let config = default_strategy (less_than (greater_than config_new
            (isize_clamp (isize_val isize_MAX - 1)) Fifo) (isize_clamp (isize_val isize_MIN + 1)) Lifo) Fifo
      in constructed (new_with_config 7 3 config) (\<lambda>s.
         await (acquire_with_priority isize_MAX s) s (\<lambda>permit1 s.
         await (acquire_with_priority isize_MIN s) s (\<lambda>permit2 s.
         await (acquire_with_priority (ISize 0) s) s (\<lambda>permit3 s. available_permits s = 0)))))"

definition test_no_permits :: bool where
  "test_no_permits \<longleftrightarrow> constructed (new_fifo 7 0) (\<lambda>_. True)"

definition test_owned_try_acquire :: bool where
  "test_owned_try_acquire \<longleftrightarrow> constructed (new_fifo 7 1) (\<lambda>s.
       unwrap (try_acquire_owned [] s) (\<lambda>p1 s.
       (case try_acquire_owned [] s of (Inr _, _) \<Rightarrow> False | (Inl _, s) \<Rightarrow>
       released_owned p1 s (\<lambda>s. unwrap (try_acquire_owned [] s) (\<lambda>_ _. True)))))"

definition test_owned_forget :: bool where
  "test_owned_forget \<longleftrightarrow> constructed (new_fifo 7 1) (\<lambda>s.
       unwrap (try_acquire_owned [] s) (\<lambda>p s. available_permits s = 0 \<and>
       released_owned (forget_owned p) s (\<lambda>s. available_permits s = 0 \<and>
       (case try_acquire_owned [] s of (Inr _, _) \<Rightarrow> False | (Inl _, _) \<Rightarrow> True))))"

definition test_owned_merge :: bool where
  "test_owned_merge \<longleftrightarrow> constructed (new_fifo 7 3) (\<lambda>s.
       unwrap (try_acquire_owned [] s) (\<lambda>p1 s. available_permits s = 2 \<and>
       unwrap_many (try_acquire_many_owned [] 2 s) (\<lambda>p2 s. available_permits s = 0 \<and>
       (case merge_owned True p1 p2 of Panic _ \<Rightarrow> False | Done (p1, p2) \<Rightarrow>
       released_owned p2 s (\<lambda>s. available_permits s = 0 \<and>
       released_owned p1 s (\<lambda>s. available_permits s = 3))))))"

definition test_owned_merge_unrelated_permits :: bool where
  "test_owned_merge_unrelated_permits \<longleftrightarrow> constructed (new_fifo 1 3) (\<lambda>s1. constructed (new_fifo 2 3) (\<lambda>s2.
       unwrap (try_acquire_owned [] s1) (\<lambda>p1 _. unwrap (try_acquire_owned [] s2) (\<lambda>p2 _.
       panics (merge_owned True p1 p2)))))"

definition test_owned_split :: bool where
  "test_owned_split \<longleftrightarrow> constructed (new_fifo 7 5) (\<lambda>s.
       unwrap_many (try_acquire_many_owned [] 3 s) (\<lambda>p1 s. available_permits s = 2 \<and> num_permits_owned p1 = 3 \<and>
       (case split_owned 1 p1 of (None, _) \<Rightarrow> False | (Some p2, p1) \<Rightarrow>
         available_permits s = 2 \<and> num_permits_owned p1 = 2 \<and> num_permits_owned p2 = 1 \<and>
       (case split_owned 0 p1 of (None, _) \<Rightarrow> False | (Some p3, p1) \<Rightarrow> num_permits_owned p3 = 0 \<and>
       released_owned p1 s (\<lambda>s. available_permits s = 4 \<and>
       (case split_owned 1 p2 of (None, _) \<Rightarrow> False | (Some p4, p2) \<Rightarrow>
         num_permits_owned p2 = 0 \<and> num_permits_owned p4 = 1 \<and> fst (split_owned 1 p2) = None \<and>
       released_owned p2 s (\<lambda>s. available_permits s = 4 \<and>
       released_owned p3 s (\<lambda>s. available_permits s = 4 \<and>
       released_owned p4 s (\<lambda>s. available_permits s = 5)))))))))"

definition test_try_acquire_fast_path_no_contention :: bool where
  "test_try_acquire_fast_path_no_contention \<longleftrightarrow> constructed (new_fifo 7 1) (\<lambda>s.
       unwrap (try_acquire [] s) (\<lambda>permit s. num_permits permit = 1 \<and>
       (case try_acquire [] s of (Inr _, _) \<Rightarrow> False | (Inl _, _) \<Rightarrow> True)))"

definition test_add_permits_overflow_panic :: bool where
  "test_add_permits_overflow_panic \<longleftrightarrow> constructed (new_fifo 7 MAX_PERMITS) (\<lambda>s. panics (fst (add_permits True 1 s)))"

lemma single_task_tests_pass:
  "test_semaphore_creation_fifo" "test_semaphore_creation_lifo"
  "test_semaphore_creation_with_config" "test_semaphore_creation_zero_permits"
  "test_semaphore_creation_max_permits" "test_try_acquire_success" "test_try_acquire_no_permits"
  "test_try_acquire_many_success" "test_try_acquire_many_insufficient_permits"
  "test_try_acquire_many_zero_permits" "test_async_acquire_success"
  "test_async_acquire_many_success" "test_semaphore_close_basic"
  "test_available_permits_consistency" "test_permit_drop_behavior" "test_error_display_formatting"
  "test_try_acquire_error_methods" "test_edge_case_large_acquire_many"
  "test_edge_case_single_permit_semaphore" "test_async_context_switching"
  "test_permit_with_priority" "test_add_permits_edge_cases" "test_priority_try_acquire_basic"
  "test_priority_acquire_many_with_priority" "test_priority_config_range"
  "test_priority_config_greater_or_equal" "test_priority_config_less_or_equal"
  "test_priority_config_multiple_rules" "test_extreme_priority_values"
  "test_mixed_acquire_types_with_priority" "test_priority_with_closed_semaphore"
  "test_edge_cases_for_greater_and_less_than" "test_no_permits" "test_owned_try_acquire"
  "test_owned_forget" "test_owned_merge" "test_owned_merge_unrelated_permits" "test_owned_split"
  "test_try_acquire_fast_path_no_contention" "test_add_permits_overflow_panic"
  by code_simp+

section \<open>Tests with waiting tasks\<close>

text \<open>
  A spawned task acquires a permit, logs its number and drops the permit at its end; its waker is its
  number. \<open>run_tasks\<close> polls the tasks that are ready; those that a poll or a drop wakes queue up behind
  them. A task that panics (on an error) logs nothing. The bound on the number of polls is never reached
  in the tests.
\<close>

definition woken_since :: "sys \<Rightarrow> sys \<Rightarrow> waker list" where
  "woken_since s s' = drop (length (woken s)) (woken s')"

fun run_tasks :: "nat \<Rightarrow> nat list \<Rightarrow> (nat \<Rightarrow> acquire_future) \<Rightarrow> nat list \<Rightarrow> sys \<Rightarrow>
    nat list \<times> (nat \<Rightarrow> acquire_future) \<times> sys" where
  "run_tasks 0 ready futures log s = (log, futures, s)"
| "run_tasks (Suc n) [] futures log s = (log, futures, s)"
| "run_tasks (Suc n) (i # ready) futures log s =
     (case poll True i (futures i) s of
        (Pending, f, s') \<Rightarrow> run_tasks n (ready @ woken_since s s') (futures(i := f)) log s'
      | (Ready (Inl e), f, s') \<Rightarrow>
          let s1 = drop_future f s' in run_tasks n (ready @ woken_since s s1) futures log s1
      | (Ready (Inr p), f, s') \<Rightarrow>
          let s1 = snd (drop_permit True p (drop_future f s'))
          in run_tasks n (ready @ woken_since s s1) futures (log @ [i]) s1)"

text \<open>
  Tasks of the given priorities are spawned while the only permit is held; they all have to wait. The
  permit is then dropped, and the tasks run in the order returned.
\<close>

definition served_order :: "sys \<Rightarrow> permit \<Rightarrow> isize list \<Rightarrow> nat list option" where
  "served_order s hold_permit priorities =
     (let (log, futures, s1) = run_tasks 50 [0..<length priorities]
            (\<lambda>i. acquire_with_priority (priorities ! i) s) [] s
      in if log \<noteq> [] then None
         else case drop_permit True hold_permit s1 of
                (Panic _, _) \<Rightarrow> None
              | (Done _, s2) \<Rightarrow> Some (fst (run_tasks 50 (woken_since s1 s2) futures [] s2)))"

definition test_priority_basic_ordering :: bool where
  "test_priority_basic_ordering \<longleftrightarrow> constructed (new_fifo 7 1) (\<lambda>s. unwrap (try_acquire [] s) (\<lambda>hold_permit s.
       available_permits s = 0 \<and>
       (case served_order s hold_permit [ISize (- 10), ISize 10, ISize 5] of None \<Rightarrow> False | Some order \<Rightarrow> order \<noteq> [])))"

definition test_queue_strategy_fifo :: bool where
  "test_queue_strategy_fifo \<longleftrightarrow> constructed (new_fifo 7 1) (\<lambda>s. unwrap (try_acquire [] s) (\<lambda>hold_permit s.
       (case served_order s hold_permit [ISize 0, ISize 0, ISize 0] of
          Some (first # _) \<Rightarrow> first + 1 = 1 | _ \<Rightarrow> False)))"

definition test_queue_strategy_lifo :: bool where
  "test_queue_strategy_lifo \<longleftrightarrow> constructed (new_lifo 7 1) (\<lambda>s. unwrap (try_acquire [] s) (\<lambda>hold_permit s.
       (case served_order s hold_permit [ISize 0, ISize 0, ISize 0] of
          Some (first # _) \<Rightarrow> first + 1 = 3 | _ \<Rightarrow> False)))"

definition test_priority_config_exact_priority :: bool where
  "test_priority_config_exact_priority \<longleftrightarrow> constructed (new_with_config 7 1 (exact (default_strategy config_new Fifo) (ISize 10) Lifo)) (\<lambda>s.
       unwrap (try_acquire [] s) (\<lambda>hold_permit s.
       (case served_order s hold_permit [ISize 10, ISize 10] of Some (first # _) \<Rightarrow> first + 1 = 2 | _ \<Rightarrow> False)))"

definition test_priority_zero_and_negative :: bool where
  "test_priority_zero_and_negative \<longleftrightarrow> constructed (new_fifo 7 1) (\<lambda>s. unwrap (try_acquire [] s) (\<lambda>hold_permit s.
       (case served_order s hold_permit [ISize 0, ISize (- 1), ISize (- 10), ISize (- 100)] of
          Some (first # _) \<Rightarrow> first + 1 = 1 | _ \<Rightarrow> False)))"

definition test_greater_than_convenience_method :: bool where
  "test_greater_than_convenience_method \<longleftrightarrow> constructed (new_with_config 7 1 (default_strategy (greater_than config_new (ISize 0) Fifo) Lifo)) (\<lambda>s.
       await (acquire_with_priority (ISize 10) s) s (\<lambda>permit s.
       served_order s permit [ISize 1, ISize 1, ISize 1, ISize 0, ISize 0, ISize 0] = Some [0, 1, 2, 5, 4, 3]))"

definition test_less_than_convenience_method :: bool where
  "test_less_than_convenience_method \<longleftrightarrow> constructed (new_with_config 7 1 (default_strategy (less_than config_new (ISize 5) Fifo) Lifo)) (\<lambda>s.
       await (acquire_with_priority (ISize 10) s) s (\<lambda>permit s.
       served_order s permit [ISize 4, ISize 4, ISize 4, ISize 5, ISize 5, ISize 5] = Some [5, 4, 3, 0, 1, 2]))"

lemma order_tests_pass:
  "test_priority_basic_ordering" "test_queue_strategy_fifo" "test_queue_strategy_lifo"
  "test_priority_config_exact_priority" "test_priority_zero_and_negative"
  "test_greater_than_convenience_method" "test_less_than_convenience_method"
  by code_simp+

text \<open>One task that waits for an owned permit, and what the test does meanwhile.\<close>

definition wakes_task :: "sys \<Rightarrow> sys \<Rightarrow> bool" where
  "wakes_task s s' \<longleftrightarrow> woken_since s s' = [0]"

definition spawn_waiting :: "acquire_owned_future \<Rightarrow> sys \<Rightarrow> (acquire_owned_future \<Rightarrow> sys \<Rightarrow> bool) \<Rightarrow> bool" where
  "spawn_waiting f s k = (case poll_owned True 0 f s of (Pending, f', s') \<Rightarrow> k f' s' | _ \<Rightarrow> False)"

text \<open>
  Whether a spawned task runs before or after the next step of the test is up to the runtime in some of
  them; both are tried.
\<close>

definition test_semaphore_close_async_acquire :: bool where
  "test_semaphore_close_async_acquire \<longleftrightarrow> constructed (new_fifo 7 0) (\<lambda>s. spawn_waiting (acquire_owned s) s (\<lambda>f s.
       let s' = close id s
       in wakes_task s s' \<and> (case poll_owned True 0 f s' of (Ready (Inl _), _) \<Rightarrow> True | _ \<Rightarrow> False)))"

definition test_concurrent_add_permits_and_close :: bool where
  "test_concurrent_add_permits_and_close \<longleftrightarrow> constructed (new_fifo 7 0) (\<lambda>s. spawn_waiting (acquire_owned s) s (\<lambda>f s.
       no_panic (add_permits True 1 s) (\<lambda>_ s1. let s' = close id s1
       in wakes_task s s' \<and> (case poll_owned True 0 f s' of (Ready (Inl _), _) \<Rightarrow> True | _ \<Rightarrow> False))))"

definition test_acquire_future_dropped_from_wait_queue :: bool where
  "test_acquire_future_dropped_from_wait_queue \<longleftrightarrow> constructed (new_fifo 7 0) (\<lambda>s. spawn_waiting (acquire_owned s) s (\<lambda>f s.
       no_panic (add_permits True 1 (drop_owned_future f s)) (\<lambda>_ s.
       unwrap (try_acquire [] s) (\<lambda>permit _. num_permits permit = 1))))"

definition test_owned_acquire :: bool where
  "test_owned_acquire \<longleftrightarrow> constructed (new_fifo 7 1) (\<lambda>s. unwrap (try_acquire_owned [] s) (\<lambda>p1 s.
       released_owned p1 s (\<lambda>s. await_owned (acquire_owned s) s (\<lambda>p2. scope_end_owned [p2])) \<and>
       spawn_waiting (acquire_owned s) s (\<lambda>f s. released_owned p1 s (\<lambda>s'. wakes_task s s' \<and>
         await_owned f s' (\<lambda>p2. scope_end_owned [p2])))))"

definition test_owned_acquire_many :: bool where
  "test_owned_acquire_many \<longleftrightarrow> constructed (new_fifo 7 42) (\<lambda>s. unwrap_many (try_acquire_many_owned [] 32 s) (\<lambda>permit32 s.
       await_owned (acquire_many_owned 10 s) s (\<lambda>permit10 s.
       spawn_waiting (acquire_many_owned 32 s) s (\<lambda>f s.
       released_owned permit32 s (\<lambda>s'. wakes_task s s' \<and>
       await_owned f s' (\<lambda>permit32. scope_end_owned [permit32, permit10]))))))"

definition test_owned_add_permits :: bool where
  "test_owned_add_permits \<longleftrightarrow> constructed (new_fifo 7 0) (\<lambda>s.
       no_panic (add_permits True 1 s) (\<lambda>_ s. await_owned (acquire_owned s) s (\<lambda>p2. scope_end_owned [p2])) \<and>
       spawn_waiting (acquire_owned s) s (\<lambda>f s. no_panic (add_permits True 1 s) (\<lambda>_ s'. wakes_task s s' \<and>
         await_owned f s' (\<lambda>p2. scope_end_owned [p2]))))"

lemma waiting_task_tests_pass:
  "test_semaphore_close_async_acquire" "test_concurrent_add_permits_and_close"
  "test_acquire_future_dropped_from_wait_queue" "test_owned_acquire" "test_owned_acquire_many"
  "test_owned_add_permits"
  by code_simp+

end
