(* ===== verification/Spec2Isabelle.thy ===== *)
theory Spec2Isabelle
  imports Service Operations Edge_Cases Races Debug_Output Test_Suite
begin

text \<open>
  A verification development for the crate \<open>ranked-semaphore\<close> (directory
  \<open>ranked-semaphore/src\<close>): an asynchronous semaphore whose waiters have priorities.

  The program. A semaphore is a word (the permit count shifted left by one, the closed flag in the
  lowest bit) and, behind a mutex, a wait queue. Acquiring is either non-blocking, a retry loop on
  the word, or a future: its first poll takes permits from the word if it can and otherwise
  queues a waiter, later polls look at the waiter's state. Dropping a permit or \<open>add_permits\<close>
  takes the lock, selects waiters to notify in order of priority, wakes their tasks after the lock
  is released, and puts what is left back into the word. \<open>close\<close> sets the flag and cancels the
  queue. A queue strategy (FIFO or LIFO) for each priority comes from a configuration.

  The theories, in the order of the code:
  \<^item> \<open>Prelude\<close>: \<open>usize\<close>, \<open>u32\<close> (words), \<open>isize\<close> (a word with the signed order), panics as a
    value, list lemmas. The target is taken to be 64 bit.
  \<^item> \<open>Errors\<close> (\<open>error.rs\<close>), \<open>Config\<close> (\<open>config.rs\<close>: rules, builders, \<open>resolve_strategy\<close>).
  \<^item> \<open>Max_Heap\<close>: the contract of \<open>BinaryHeap\<close>, as a locale, on the list model that is used.
  \<^item> \<open>Waker\<close> (\<open>wait_queue/waker.rs\<close>): the waker cell and the 32-slot batch \<open>WakeList\<close>, with
    the contract the others rely on as a locale. \<open>Waiter\<close> (\<open>wait_queue/waiter.rs\<close>): the state
    word of a waiter. Waiters are shared (\<open>Arc\<close>), so they live in a store indexed by identity;
    identities are given out in order of arrival and never reused.
  \<^item> \<open>Wait_Queue\<close> (\<open>wait_queue/queue.rs\<close>): all operations of \<open>WaitQueue\<close>. \<open>Queue_Inv\<close>: its
    representation invariant and every operation but selection; \<open>Select\<close>, \<open>Schedule\<close>,
    \<open>Select_Spec\<close>: the loops of \<open>select_waiters_to_notify\<close>, one waiter, one queue and the heap of
    priorities at a time, against one specification (\<open>schedule\<close>).
  \<^item> \<open>Atomics\<close>: retry loops of \<open>compare_exchange_weak\<close> under a list of interferences, and that
    they linearize. \<open>Semaphore\<close> (\<open>semaphore/core.rs\<close>), \<open>Permits\<close> (\<open>semaphore/permits.rs\<close>),
    \<open>Acquire\<close> and \<open>Acquire_Owned\<close> (\<open>semaphore/methods.rs\<close>, \<open>semaphore/futures.rs\<close>, borrowed and
    owned). \<open>Semaphore_Facts\<close>: the word as count and flag; \<open>Release\<close>: what a release does;
    \<open>Effects\<close>: what every other operation does.
  \<^item> \<open>Client\<close>: everybody who uses one semaphore, as a step relation with whole operations as steps;
    \<open>Task_Inv\<close>: the invariant of a semaphore and its tasks, one lemma for each thing that may
    happen to a task; \<open>Client_Inv\<close>, \<open>Client_Order\<close>: invariants of the reachable states; \<open>Scenarios\<close>:
    executable steps and concrete runs.
  \<^item> \<open>Picking\<close>: \<open>select_waiters_to_notify\<close> cut into the atomic steps it takes on the states of the
    waiters (the look whether one is cancelled, its notification, the taking of its waker), and that
    without interference they are the functions of \<open>Wait_Queue\<close>. \<open>Picking_Inv\<close>: the queue as a selection
    under way leaves it, and that each step keeps the invariant, whatever happened to the waiters since
    the last one. \<open>Closing\<close>: the same for the second half of \<open>close\<close>, with its exchanges on the states of
    the waiters and its reading of their wakers. \<open>Leaving\<close>: the same for the drop of a future.
    \<open>Retries\<close>: the retry loops of the non-blocking operations, with each load and each exchange as a step.
    \<open>Threads\<close>: a poll and a release cut into the atomic steps the code takes (an access
    to the permit word, to a waiter's state or its waker, a critical section or a step of a
    selection), and that they make up the whole operations.
  \<^item> \<open>World\<close>: any number of threads, each somewhere inside a poll, a release, a \<open>close\<close>, the drop of a
    future or a retry loop, interleaved step by step; \<open>World_Inv\<close>: the invariant of that system;
    \<open>World_Order\<close>: what every step does to the closed flag and to the order of the queues; \<open>Ranks\<close>: every
    operation ends; \<open>Progress\<close>: there is no deadlock, and the system of \<open>Client\<close> is a special case of this one;
    \<open>Wakeups\<close>: what becomes of the waker a sleeping task has stored, and that the task is woken with it;
    \<open>Races\<close>: concrete interleavings, and what interleaving may and may not do.
  \<^item> \<open>Service\<close>, \<open>Operations\<close>, \<open>Edge_Cases\<close>, \<open>Races\<close>, the ends of \<open>Config\<close> and \<open>Waker\<close>, and this
    theory: the properties. \<open>Edge_Cases\<close> and the last section of \<open>Races\<close> hold those that show the code
    doing other than its comments or documentation say.
  \<^item> \<open>Debug_Output\<close>: the hand-written \<open>Debug\<close> implementations. \<open>Conformance\<close>: the unit tests of
    \<open>config.rs\<close> and the integration tests that need no runtime, run on the model. \<open>Doc_Examples\<close>: the
    examples of the documentation comments, run on the model (awaiting is polling once, which has to
    be enough). \<open>Test_Suite\<close>: the integration tests that run in one task, and those that look at the order
    in which waiting tasks are served, with tasks polled first come first served.

  Modelling decisions. Panics, indexing out of range, the unchecked indexing of the batch out of
  range and the underflow of the waiter counter are failures of the model (\<open>None\<close> or \<open>Panic\<close>), and
  selection is proved free of them. \<open>+\<close> on machine integers wraps on words; where a build with
  overflow checks would panic instead (\<open>add_permits\<close>, \<open>merge\<close>) the profile is an argument. The number
  of queued waiters is a natural number, since it counts objects in memory. The order in which a
  hash map is drained is an argument of \<open>close\<close>, and waking a task is recorded in a list. The
  mutex is never poisoned: no panic happens while it is held, by the theorem on selection.

  Bounds and termination. There is no fuel in the model: the loops over queues recurse on the queue,
  the loop over priorities on the size of the heap, the batch loop stops after one round (proved), and
  a retry loop ends when the finite list of interferences is exhausted. In \<open>World\<close> a poll takes at most 7
  atomic steps, the drop of a future 5 and the second half of \<open>close\<close> 3 for each waiter and 2 more. A retry loop
  has no bound there: it returns at the first exchange that finds the word unchanged and does not fail
  spuriously (\<open>attempt_returns\<close>), so one that goes on has been overtaken or has a weak exchange fail. A release takes at most 4 steps
  and those of its selection, which are at most \<open>(H + 1) * (4 * N + 3) + 1\<close> for \<open>H\<close> entries in the heap
  and \<open>N\<close> waiters in the queue, where a poll that is still to queue its waiter may add one of each
  (\<open>world_bound\<close>). \<open>run_poll\<close>, which puts the steps of one
  poll together again, is given 7; \<open>release_runs\<close> and \<open>close_runs\<close> say that some number of steps does for a
  release and a \<open>close\<close>.

  Concurrency. There are two transition systems. In \<open>Client\<close> a step is a whole operation. In \<open>World\<close> a
  step is an atomic access of one thread: the load and the exchange of a poll's fast path, its check
  of the flag under the lock, the queueing (which releases the lock), its looks at the waiter, the
  storing of the waker; of a release the taking of the lock, each access of the selection to a waiter's
  state, the end of the critical section, its check of the flag, its waking of the batch, its writing to
  the word; of \<open>close\<close> the setting of the flag, the taking of the lock, each exchange on a waiter's state,
  each reading of a waker, the end of the critical section; of the drop of a future each exchange on its
  waiter's state, the reading of its waker, the look whether it still waits; of a retry loop the load of the
  word and each exchange. While a selection or \<open>close\<close> holds the lock the wait queue of the model is the one it has started
  with, and what it does to the queue is written when it releases the lock; \<open>view\<close> is what a selection has
  made of it so far. A thread may move between any two steps, so the properties of \<open>World\<close> hold for every scheduler. The permits a
  selection loses to a waiter that is cancelled under its hands count as withdrawn (\<open>forfeited\<close>), and so do
  those of a notified future that is dropped. Permit objects are merged with overflow checks or
  without; without, a count that wraps is withdrawn by what it lost. A \<open>merge\<close> that panics drops the
  second permit and keeps the first, which is the step of dropping it.

  An assumption on the clients. \<open>add_permits\<close> looks at the free permits only, and only after it has added some; the
  drop of a permit on its fast path does not look at all. The steps of \<open>Client\<close> and \<open>World\<close> add permits
  only as long as at most \<open>MAX_PERMITS\<close> are issued in all, and what is said of \<open>reachable\<close> and \<open>world_reachable\<close>
  states holds for clients that keep to this. \<open>step_any\<close> and \<open>tick_any\<close> are the systems without this guard; the
  properties of the permit count and of the waiting tasks are stated for them, with the bound as a
  hypothesis. Beyond it a release on an open semaphore can panic (\<open>Edge_Cases\<close>).

  Not modelled. Weak memory orderings (an access is sequentially consistent), and what the data race on a
  waker cell does: that two threads can access a cell at once without a lock is shown (\<open>Races\<close>), but each access is
  taken to be indivisible; poisoning of the mutex; the derived
  \<open>Debug\<close> of the semaphore, the crate's module glue, the contention and stress tests, the smoke tests on the
  various runtimes, and the benchmarks.
\<close>

section \<open>The semaphore and its clients\<close>



text \<open>For whole operations as steps: in every reachable state each priority's queue holds its waiters in arrival order if the
  configuration resolves that priority to FIFO and in reverse arrival order if to LIFO (waiters are
  numbered as they arrive), and the wait queue is well formed: every non-empty queue is in the
  heap of active priorities and the counter is the number of queued waiters.\<close>

theorem queues_in_arrival_order:
  assumes "reachable c"
  shows "sorted_wrt (case resolve_strategy (config (waiters (csys c))) p of Fifo \<Rightarrow> (<) | Lifo \<Rightarrow> (>))
      (queue_of (priority_queues (waiters (csys c))) p) \<and>
    (queue_of (priority_queues (waiters (csys c))) p \<noteq> [] \<longrightarrow>
      p \<in> set (active_priorities (waiters (csys c)))) \<and>
    total_waiters (waiters (csys c)) = length (all_waiters (priority_queues (waiters (csys c))))"
proof (intro conjI)
  have eq: "arrival_order st = (case st of Fifo \<Rightarrow> (<) | Lifo \<Rightarrow> (>))" for st
    by (auto simp: arrival_order_def fun_eq_iff split: QueueStrategy.split)
  show "sorted_wrt (case resolve_strategy (config (waiters (csys c))) p of Fifo \<Rightarrow> (<) | Lifo \<Rightarrow> (>))
      (queue_of (priority_queues (waiters (csys c))) p)"
    using reachable_ordered [OF assms] by (simp add: ordered_def eq)
  show "queue_of (priority_queues (waiters (csys c))) p \<noteq> [] \<longrightarrow>
      p \<in> set (active_priorities (waiters (csys c)))"
    and "total_waiters (waiters (csys c)) = length (all_waiters (priority_queues (waiters (csys c))))"
    using client_invD(8) [OF reachable_inv [OF assms]] by (simp_all add: wait_queue_inv_def)
qed

theorem queues_in_arrival_order_witness:
  "sorted_wrt (<) (queue_of (priority_queues (waiters (csys demo_waiting))) (ISize 0))"
proof -
  have "resolve_strategy (config (waiters (csys demo_waiting))) (ISize 0) = Fifo" by code_simp
  with queues_in_arrival_order [OF demo_waiting_reachable, of "ISize 0"] show ?thesis by simp
qed

text \<open>For whole operations as steps: closing is irreversible and final: once the semaphore is closed it stays closed whatever
  anybody does, no further permit is handed out, and whoever polls gets an error or keeps waiting.\<close>

theorem closed_is_final:
  assumes "reachable c" "is_closed (csys c)" "step c c'"
  shows "is_closed (csys c') \<and> permits_in (held c') \<le> permits_in (held c)"
proof (intro conjI)
  have inv: "client_inv c" using assms(1) by (rule reachable_inv)
  show "is_closed (csys c')"
    using effect_closed [OF step_effect [OF assms(3) inv] assms(2)] .
  show "permits_in (held c') \<le> permits_in (held c)"
    using assms(3)
  proof cases
    case (poll f F cas_ok k r f' s')
    then have "result_permit r = {#}"
      using assms(2) by (auto simp: poll_eq split: option.splits if_splits)
    with poll show ?thesis by simp
  next
    case (try_acquire env r s')
    then have "acquired r = {#}"
      using try_acquire_taken [OF try_acquire(3)] takenD(6) assms(2)
      by (cases r) (auto simp: acquired_def)
    with try_acquire show ?thesis by simp
  next
    case (try_acquire_many env n r s')
    have "permits_in (acquired r) = 0"
    proof (cases "n = 0")
      case True
      with try_acquire_many(3) show ?thesis by (auto simp: try_acquire_many_def acquired_def task_sums)
    next
      case False
      with try_acquire_many_taken [OF this, of env "csys c"] try_acquire_many takenD(6) assms(2)
      show ?thesis by (cases r) (auto simp: acquired_def task_sums)
    qed
    with try_acquire_many show ?thesis by (simp add: task_sums)
  qed (auto simp: task_sums dest: split_permitD(4) mergeD(4))
qed

theorem closed_is_final_witness:
  "is_closed (csys (do_acquire (ISize 0) 1 (do_close demo_waiting)))"
proof -
  have "is_closed (csys (do_close demo_waiting))" by (simp add: do_close_def close_word)
  moreover have "reachable (do_close demo_waiting)" by (intro reachable_step demo_waiting_reachable)
  ultimately show ?thesis using closed_is_final do_step(1) by blast
qed

text \<open>For whole operations as steps: a poll fails only because the semaphore is closed: as long as it is open no unfinished
  task ever gets an error, so an error is never spurious.\<close>

theorem poll_error_means_closed:
  assumes "reachable c" "(f, False) \<in># futs c" "poll cas_ok k f (csys c) = (Ready (Inl e), f', s')"
  shows "is_closed (csys c)"
proof (cases "f_handle f")
  case None
  with assms(3) show ?thesis by (auto simp: poll_eq split: if_splits)
next
  case (Some w)
  with assms(2) have "w \<in># pending_handles (futs c)" by (auto simp: in_pending_handles_iff)
  with reachable_cancelled [OF assms(1)] assms(3) Some show ?thesis
    by (auto simp: poll_eq cancelled_ok_def split: if_splits)
qed

theorem poll_error_means_closed_witness:
  "is_closed (csys (do_close demo_waiting))"
proof (rule poll_error_means_closed)
  show "reachable (do_close demo_waiting)" by (intro reachable_step demo_waiting_reachable)
  show "(demo_future (ISize 5) (Some 1), False) \<in># futs (do_close demo_waiting)" by code_simp
  show "poll True 20 (demo_future (ISize 5) (Some 1)) (csys (do_close demo_waiting)) =
    (Ready (Inl acquire_error_closed), demo_future (ISize 5) (Some 1), csys (do_close demo_waiting))"
    (is "poll _ _ ?f ?s = _")
  proof -
    have "f_handle ?f = Some 1" by (simp add: demo_future_def)
    moreover have "is_cancelled (store ?s 1)" by code_simp
    ultimately show ?thesis by (simp add: poll_eq)
  qed
qed

end
